(* ===== verification/Json.thy ===== *)
theory Json
  imports Prelude
begin

text \<open>
  The values \<open>json.loads\<close> returns, and the Python questions the sources ask of an untrusted one:
  \<open>d.get(k)\<close>, truthiness, \<open>isinstance(v, int | float)\<close> (a \<open>bool\<close> is an \<open>int\<close> in Python), \<open>int(v)\<close>
  and \<open>str(v)\<close>. A number with a fraction is the rational it denotes; the three non-finite floats
  \<open>json.loads\<close> also accepts are \<open>JNan\<close> and \<open>JInf\<close> with its sign (each of them fails every comparison
  with a bound of \<open>[0, 1]\<close> that the sources make, and \<open>int()\<close> of one raises).
\<close>

datatype json =
    JNull
  | JBool bool
  | JInt int
  | JFloat rat
  | JNan
  | JInf bool
  | JStr string
  | JArr "json list"
  | JObj "(string \<times> json) list"

type_synonym obj = "(string \<times> json) list"

text \<open>\<open>d.get(k)\<close>: \<open>None\<close> for a missing key and for a JSON \<open>null\<close> alike.\<close>

definition jget :: "obj \<Rightarrow> string \<Rightarrow> json" where
  "jget d k = (case map_of d k of None \<Rightarrow> JNull | Some v \<Rightarrow> v)"

definition jhas :: "obj \<Rightarrow> string \<Rightarrow> bool" where
  "jhas d k \<longleftrightarrow> map_of d k \<noteq> None"

fun as_dict :: "json \<Rightarrow> obj" where
  "as_dict (JObj d) = d"
| "as_dict _ = []"

fun as_str :: "json \<Rightarrow> string option" where
  "as_str (JStr s) = Some s"
| "as_str _ = None"

fun truthy :: "json \<Rightarrow> bool" where
  "truthy JNull = False"
| "truthy (JBool b) = b"
| "truthy (JInt i) = (i \<noteq> 0)"
| "truthy (JFloat r) = (r \<noteq> 0)"
| "truthy JNan = True"
| "truthy (JInf neg) = True"
| "truthy (JStr s) = (s \<noteq> [])"
| "truthy (JArr xs) = (xs \<noteq> [])"
| "truthy (JObj d) = (d \<noteq> [])"

text \<open>\<open>isinstance(v, int | float)\<close>\<close>

fun is_number :: "json \<Rightarrow> bool" where
  "is_number (JBool b) = True"
| "is_number (JInt i) = True"
| "is_number (JFloat r) = True"
| "is_number JNan = True"
| "is_number (JInf neg) = True"
| "is_number _ = False"

fun is_bool :: "json \<Rightarrow> bool" where
  "is_bool (JBool b) = True"
| "is_bool _ = False"

text \<open>\<open>int(v)\<close> of a number: a fraction is cut towards zero; of a non-finite one it raises.\<close>

definition trunc :: "rat \<Rightarrow> int" where
  "trunc r = (if 0 \<le> r then \<lfloor>r\<rfloor> else - \<lfloor>- r\<rfloor>)"

fun py_int :: "json \<Rightarrow> int option" where
  "py_int (JBool b) = Some (if b then 1 else 0)"
| "py_int (JInt i) = Some i"
| "py_int (JFloat r) = Some (trunc r)"
| "py_int _ = None"

text \<open>\<open>float(v)\<close> of a finite number.\<close>

fun py_float :: "json \<Rightarrow> rat option" where
  "py_float (JBool b) = Some (if b then 1 else 0)"
| "py_float (JInt i) = Some (of_int i)"
| "py_float (JFloat r) = Some r"
| "py_float _ = None"

text \<open>
  \<open>str(v)\<close>. The text of a fraction and of a container is Python's \<open>repr\<close>, the parameter \<open>repr\<close>;
  no property depends on it.
\<close>

fun py_str :: "(json \<Rightarrow> string) \<Rightarrow> json \<Rightarrow> string" where
  "py_str repr JNull = ''None''"
| "py_str repr (JBool b) = (if b then ''True'' else ''False'')"
| "py_str repr (JInt i) = show_int i"
| "py_str repr (JStr s) = s"
| "py_str repr v = repr v"

text \<open>\<open>str(v or d)\<close>\<close>

definition str_or :: "(json \<Rightarrow> string) \<Rightarrow> json \<Rightarrow> string \<Rightarrow> string" where
  "str_or repr v d = (if truthy v then py_str repr v else d)"

lemma as_dict_JNull [simp]: "as_dict JNull = []"
  by simp

lemma jget_Nil [simp]: "jget [] k = JNull"
  by (simp add: jget_def)

lemma jget_Cons [simp]: "jget ((k', v) # d) k = (if k' = k then v else jget d k)"
  by (simp add: jget_def)

lemma str_or_JStr [simp]: "s \<noteq> [] \<Longrightarrow> str_or repr (JStr s) d = s"
  by (simp add: str_or_def)

lemma str_or_falsy [simp]: "\<not> truthy v \<Longrightarrow> str_or repr v d = d"
  by (simp add: str_or_def)

end
