(* ===== verification/Tables.thy ===== *)
theory Tables
  imports Prelude
begin

text \<open>
  A database table with a unique key, as the components see it through the ORM: \<open>tget\<close> is
  \<open>session.get\<close> or a \<open>SELECT\<close> by a unique column, \<open>tput\<close> is \<open>session.add\<close> of a new row or a change
  of the loaded one, \<open>tdel\<close> is a bulk \<open>DELETE\<close>. The table is the list of its rows, in insertion order.

  The locale \<open>keyed_store\<close> is the contract the components rely on; what they need of a run of
  writes is proved in it once. Every component that owns a table interprets it on its own rows.
\<close>

section \<open>The operations\<close>

definition tget :: "('r \<Rightarrow> 'k) \<Rightarrow> 'r list \<Rightarrow> 'k \<Rightarrow> 'r option" where
  "tget key t k = List.find (\<lambda>r. key r = k) t"

definition tput :: "('r \<Rightarrow> 'k) \<Rightarrow> 'r \<Rightarrow> 'r list \<Rightarrow> 'r list" where
  "tput key r t =
     (if tget key t (key r) = None then t @ [r] else map (\<lambda>x. if key x = key r then r else x) t)"

definition tdel :: "('r \<Rightarrow> bool) \<Rightarrow> 'r list \<Rightarrow> 'r list" where
  "tdel P t = filter (\<lambda>r. \<not> P r) t"

definition unique :: "('r \<Rightarrow> 'k) \<Rightarrow> 'r list \<Rightarrow> bool" where
  "unique key t \<longleftrightarrow> distinct (map key t)"

section \<open>Reads after writes\<close>

lemma tget_Nil [simp]: "tget key [] k = None"
  by (simp add: tget_def)

lemma tget_Cons [simp]: "tget key (r # t) k = (if key r = k then Some r else tget key t k)"
  by (simp add: tget_def)

lemma tget_Some: "tget key t k = Some r \<Longrightarrow> r \<in> set t \<and> key r = k"
  unfolding tget_def by (rule find_Some_iff_nth)

lemma tget_None_iff: "tget key t k = None \<longleftrightarrow> k \<notin> key ` set t"
  by (auto simp: tget_def)

lemma tget_append [table_simps]:
  "tget key (t @ u) k = (case tget key t k of Some r \<Rightarrow> Some r | None \<Rightarrow> tget key u k)"
  by (induction t) auto

lemma tget_replace:
  "tget key (map (\<lambda>x. if key x = key r then r else x) t) k =
     (if k = key r then (if tget key t k = None then None else Some r) else tget key t k)"
  by (induction t) auto

lemma tget_tput [table_simps]: "tget key (tput key r t) k = (if k = key r then Some r else tget key t k)"
  by (auto simp: tput_def tget_append tget_replace split: option.splits)

lemma tget_tdel_key [table_simps]:
  "tget key (tdel (\<lambda>r. key r = k') t) k = (if k = k' then None else tget key t k)"
  by (induction t) (auto simp: tdel_def)

lemma tget_unique: "unique key t \<Longrightarrow> tget key t k = Some r \<longleftrightarrow> r \<in> set t \<and> key r = k"
  by (induction t) (auto simp: unique_def)

section \<open>Uniqueness is kept\<close>

lemma unique_Nil [simp]: "unique key []"
  by (simp add: unique_def)

lemma keys_tput [table_simps]:
  "map key (tput key r t) = (if tget key t (key r) = None then map key t @ [key r] else map key t)"
  by (auto simp: tput_def)

lemma unique_tput [simp, table_simps]: "unique key (tput key r t) \<longleftrightarrow> unique key t"
  by (auto simp: unique_def keys_tput tget_None_iff)

lemma unique_filter [simp]: "unique key t \<Longrightarrow> unique key (filter P t)"
  by (induction t) (auto simp: unique_def)

lemma unique_tdel [simp]: "unique key t \<Longrightarrow> unique key (tdel P t)"
  by (simp add: tdel_def)

lemma set_tput: "set (tput key r t) \<subseteq> insert r (set t)"
  by (auto simp: tput_def)

lemma set_tput_eq: "unique key t \<Longrightarrow> set (tput key r t) = insert r {x \<in> set t. key x \<noteq> key r}"
  by (auto simp: tput_def tget_None_iff image_iff)

lemma unique_map_key: "(\<And>r. key (f r) = key r) \<Longrightarrow> unique key (map f t) \<longleftrightarrow> unique key t"
  by (simp add: unique_def comp_def)

lemma tget_map:
  "(\<And>r. key (f r) = key r) \<Longrightarrow> tget key (map f t) k = map_option f (tget key t k)"
  by (induction t) auto

section \<open>The contract\<close>

locale keyed_store =
  fixes key :: "'r \<Rightarrow> 'k"
    and get :: "'t \<Rightarrow> 'k \<Rightarrow> 'r option"
    and put :: "'r \<Rightarrow> 't \<Rightarrow> 't"
    and valid :: "'t \<Rightarrow> bool"
  assumes get_key: "get t k = Some r \<Longrightarrow> key r = k"
    and get_put: "get (put r t) k = (if k = key r then Some r else get t k)"
    and valid_put: "valid t \<Longrightarrow> valid (put r t)"
begin

text \<open>After a run of writes a key holds the last row written under it, or what it held before.\<close>

lemma get_fold_put:
  "get (fold put rs t) k =
     (case List.find (\<lambda>r. key r = k) (rev rs) of Some r \<Rightarrow> Some r | None \<Rightarrow> get t k)"
proof (induction rs arbitrary: t)
  case (Cons r rs)
  then show ?case
    by (auto simp: get_put find_append simp del: find_None_iff_set split: option.splits)
qed simp

lemma valid_fold_put: "valid t \<Longrightarrow> valid (fold put rs t)"
  by (induction rs arbitrary: t) (auto intro: valid_put)

end

end
