(* ===== verification/Index_Promotion.thy ===== *)
theory Index_Promotion
  imports Json Tables
begin

text \<open>
  Which index version serves, and how one becomes active: \<open>app/services/index_versions.py\<close>,
  \<open>app/services/index_resolution.py\<close>, \<open>app/services/index_health.py\<close>, the run writer of
  \<open>app/worker/promotion_eval.py\<close>, the embedder identities of \<open>app/embeddings/factory.py\<close> and the
  promote route of \<open>app/api/routes/admin.py\<close>. A transaction is a function of the tables; what the
  database shows a statement while another transaction commits is in the last section. A pass rate
  is the exact quotient; a metrics blob comes from a JSON column, which holds no non-finite number.
\<close>

section \<open>Embedder identities\<close>

record embedder_identity =
  emb_provider :: "string option"
  emb_model :: "string option"
  emb_dim :: "int option"

definition cache_key_component :: "embedder_identity \<Rightarrow> string" where
  "cache_key_component i = join_on (CHR ''|'')
     [case emb_provider i of None \<Rightarrow> [] | Some p \<Rightarrow> p,
      case emb_model i of None \<Rightarrow> [] | Some m \<Rightarrow> m,
      case emb_dim i of None \<Rightarrow> [] | Some d \<Rightarrow> show_int d]"

datatype index_stamp = No_stamp | Stamp embedder_identity | Ambiguous_stamp

definition is_index_embedder_mismatch :: "embedder_identity \<Rightarrow> index_stamp \<Rightarrow> bool" where
  "is_index_embedder_mismatch configured stamp =
     (case stamp of
        Ambiguous_stamp \<Rightarrow> True
      | No_stamp \<Rightarrow> False
      | Stamp s \<Rightarrow> if emb_provider s = None then False else s \<noteq> configured)"

section \<open>Rows\<close>

datatype index_status = Candidate | Active | Previous_good | Failed_index

record index_row =
  ix_version :: string
  ix_status :: index_status
  ix_source_hash :: string
  ix_created :: timestamp
  ix_promoted :: "timestamp option"
  ix_run :: "string option"
  ix_embedder :: embedder_identity

datatype evaluation_status = Run_running | Run_passed | Run_failed

record evaluation_run =
  er_id :: string
  er_suite :: string
  er_version :: string
  er_started :: timestamp
  er_completed :: "timestamp option"
  er_status :: evaluation_status
  er_metrics :: obj

record promote_audit =
  pa_actor :: string
  pa_version :: string
  pa_request :: string
  pa_at :: timestamp
  pa_force :: bool
  pa_rate :: "rat option"
  pa_threshold :: rat
  pa_run :: "string option"

record index_db =
  ix_rows :: "index_row list"
  ix_runs :: "evaluation_run list"
  ix_audit :: "promote_audit list"

section \<open>Reading\<close>

definition get_version :: "index_db \<Rightarrow> string \<Rightarrow> index_row option" where
  "get_version db v = tget ix_version (ix_rows db) v"

definition list_versions :: "index_db \<Rightarrow> index_status option \<Rightarrow> index_row list" where
  "list_versions db status =
     sort_key ix_created (filter (\<lambda>r. case status of None \<Rightarrow> True | Some s \<Rightarrow> ix_status r = s) (ix_rows db))"

definition completed_statuses :: "evaluation_status list" where
  "completed_statuses = [Run_passed, Run_failed]"

lemma completed_iff [simp]: "s \<in> set completed_statuses \<longleftrightarrow> s \<noteq> Run_running"
  by (cases s) (simp_all add: completed_statuses_def)

text \<open>\<open>ORDER BY started_at DESC, run_id DESC LIMIT 1\<close>\<close>

definition run_key :: "evaluation_run \<Rightarrow> timestamp \<times> string" where
  "run_key r = (er_started r, er_id r)"

fun newest :: "evaluation_run list \<Rightarrow> evaluation_run option" where
  "newest [] = None"
| "newest (r # rs) =
     (case newest rs of None \<Rightarrow> Some r | Some s \<Rightarrow> if run_key r < run_key s then Some s else Some r)"

definition latest_completed_run :: "index_db \<Rightarrow> string \<Rightarrow> evaluation_run option" where
  "latest_completed_run db v =
     newest (filter (\<lambda>r. er_version r = v \<and> er_status r \<in> set completed_statuses) (ix_runs db))"

definition number_of :: "json \<Rightarrow> rat option" where
  "number_of v = (if is_number v \<and> \<not> is_bool v then py_float v else None)"

definition in_unit :: "rat \<Rightarrow> bool" where
  "in_unit r \<longleftrightarrow> 0 \<le> r \<and> r \<le> 1"

definition states_no_cases :: "obj \<Rightarrow> bool" where
  "states_no_cases blob \<longleftrightarrow>
     (\<exists>k\<in>{''cases_total'', ''total''}. case number_of (jget blob k) of None \<Rightarrow> False | Some n \<Rightarrow> n \<le> 0)"

definition pass_rate_from_metrics :: "obj \<Rightarrow> rat option" where
  "pass_rate_from_metrics blob =
     (if jhas blob ''pass_rate'' then
        (case number_of (jget blob ''pass_rate'') of
           None \<Rightarrow> None
         | Some rate \<Rightarrow>
             if \<not> in_unit rate then None else if states_no_cases blob then None else Some rate)
      else
        (case (number_of (jget blob ''cases_total''), number_of (jget blob ''cases_passed'')) of
           (Some cases, Some passed) \<Rightarrow>
             if cases > 0 \<and> in_unit (passed / cases) then Some (passed / cases) else None
         | _ \<Rightarrow> None))"

definition measured_pass_rate :: "index_db \<Rightarrow> string \<Rightarrow> rat option" where
  "measured_pass_rate db v =
     (case latest_completed_run db v of None \<Rightarrow> None | Some r \<Rightarrow> pass_rate_from_metrics (er_metrics r))"

lemma newest_None [simp]: "newest rs = None \<longleftrightarrow> rs = []"
  by (cases rs) (auto split: option.splits if_splits)

lemma newest_in: "newest rs = Some r \<Longrightarrow> r \<in> set rs"
  by (induction rs arbitrary: r) (auto split: option.splits if_splits)

lemma newest_is_newest: "newest rs = Some r \<Longrightarrow> s \<in> set rs \<Longrightarrow> run_key s \<le> run_key r"
proof (induction rs arbitrary: r)
  case (Cons x rs)
  then show ?case
    by (cases "newest rs") (force split: if_splits)+
qed simp

lemma pass_rate_in_unit: "pass_rate_from_metrics blob = Some rate \<Longrightarrow> 0 \<le> rate \<and> rate \<le> 1"
  by (auto simp: pass_rate_from_metrics_def in_unit_def split: if_splits option.splits)

text \<open>A run that states it had no cases is never evidence.\<close>

lemma no_cases_no_rate:
  "number_of (jget blob ''cases_total'') = Some n \<Longrightarrow> n \<le> 0 \<Longrightarrow> pass_rate_from_metrics blob = None"
  by (auto simp: pass_rate_from_metrics_def states_no_cases_def split: option.splits if_splits)

section \<open>Writing\<close>

datatype link_error = Run_not_terminal | Run_not_flushed

text \<open>
  \<open>flushed\<close> is whether the run has an identity. The check is made only when the index exists, as in
  the source.
\<close>

definition link_evaluation_run ::
    "bool \<Rightarrow> evaluation_run \<Rightarrow> index_db \<Rightarrow> link_error + (index_row option \<times> index_db)" where
  "link_evaluation_run flushed run db =
     (if er_status run \<notin> set completed_statuses then Inl Run_not_terminal
      else (case get_version db (er_version run) of
              None \<Rightarrow> Inr (None, db)
            | Some row \<Rightarrow>
                if \<not> flushed then Inl Run_not_flushed
                else let row' = row\<lparr>ix_run := Some (er_id run)\<rparr> in
                  Inr (Some row', db\<lparr>ix_rows := tput ix_version row' (ix_rows db)\<rparr>)))"

datatype blocked_reason = No_evaluation_run | Unusable_metrics | Below_threshold

datatype promote_error = Version_not_found | Promotion_blocked blocked_reason "rat option" rat "string option"

definition promotion_gate :: "index_db \<Rightarrow> rat \<Rightarrow> string \<Rightarrow> promote_error + unit" where
  "promotion_gate db threshold v =
     (case latest_completed_run db v of
        None \<Rightarrow> Inl (Promotion_blocked No_evaluation_run None threshold None)
      | Some run \<Rightarrow>
          (case pass_rate_from_metrics (er_metrics run) of
             None \<Rightarrow> Inl (Promotion_blocked Unusable_metrics None threshold (Some (er_id run)))
           | Some rate \<Rightarrow>
               if rate < threshold
               then Inl (Promotion_blocked Below_threshold (Some rate) threshold (Some (er_id run)))
               else Inr ()))"

text \<open>Demote every other active row and make the target active.\<close>

definition activate :: "timestamp \<Rightarrow> string \<Rightarrow> index_row list \<Rightarrow> index_row list" where
  "activate now v rows = map (\<lambda>r.
     if ix_version r = v then r\<lparr>ix_status := Active, ix_promoted := Some now\<rparr>
     else if ix_status r = Active then r\<lparr>ix_status := Previous_good\<rparr> else r) rows"

definition promote_version ::
    "rat \<Rightarrow> timestamp \<Rightarrow> string \<Rightarrow> string \<Rightarrow> bool \<Rightarrow> string \<Rightarrow> index_db \<Rightarrow> promote_error + (index_row \<times> index_db)"
  where
  "promote_version threshold now actor request force v db =
     (case get_version db v of
        None \<Rightarrow> Inl Version_not_found
      | Some target \<Rightarrow>
          if ix_status target = Active then Inr (target, db)
          else and_then (if force then Inr () else promotion_gate db threshold v) (\<lambda>_.
            Inr (target\<lparr>ix_status := Active, ix_promoted := Some now\<rparr>,
                 db\<lparr>ix_rows := activate now v (ix_rows db),
                    ix_audit := ix_audit db @
                      [\<lparr>pa_actor = actor, pa_version = v, pa_request = request, pa_at = now,
                        pa_force = force, pa_rate = measured_pass_rate db v, pa_threshold = threshold,
                        pa_run = map_option er_id (latest_completed_run db v)\<rparr>]\<rparr>)))"

record promote_response =
  pr_version :: string
  pr_status :: index_status
  pr_promoted_at :: timestamp
  pr_already_active :: bool
  pr_forced :: bool
  pr_measured :: "rat option"

text \<open>The route; an error response leaves the database as it was.\<close>

definition promote_index_version ::
    "rat \<Rightarrow> timestamp \<Rightarrow> string \<Rightarrow> string \<Rightarrow> bool \<Rightarrow> string \<Rightarrow> index_db
       \<Rightarrow> (promote_error + promote_response) \<times> index_db" where
  "promote_index_version threshold now actor request force v db =
     (case get_version db v of
        None \<Rightarrow> (Inl Version_not_found, db)
      | Some prior \<Rightarrow>
          (case promote_version threshold now actor request force v db of
             Inl e \<Rightarrow> (Inl e, db)
           | Inr (updated, db') \<Rightarrow>
               (Inr \<lparr>pr_version = ix_version updated, pr_status = ix_status updated,
                  pr_promoted_at = (case ix_promoted updated of Some t \<Rightarrow> t | None \<Rightarrow> now),
                  pr_already_active = (ix_status prior = Active),
                  pr_forced = (force \<and> ix_status prior \<noteq> Active),
                  pr_measured = measured_pass_rate db v\<rparr>, db')))"

section \<open>Which index serves\<close>

datatype active_state = None_active | One_active | Ambiguous

record active_resolution =
  ar_state :: active_state
  ar_count :: nat
  ar_row :: "index_row option"

record index_partition =
  ip_active :: active_resolution
  ip_previous :: "index_row option"

definition partition_index_rows :: "index_row list \<Rightarrow> index_partition" where
  "partition_index_rows rows =
     (let active = filter (\<lambda>r. ix_status r = Active) rows;
          previous = List.find (\<lambda>r. ix_status r = Previous_good) rows;
          resolution =
            (if length active > 1 then \<lparr>ar_state = Ambiguous, ar_count = length active, ar_row = None\<rparr>
             else if active = [] then \<lparr>ar_state = None_active, ar_count = 0, ar_row = None\<rparr>
             else \<lparr>ar_state = One_active, ar_count = 1, ar_row = Some (hd active)\<rparr>)
      in \<lparr>ip_active = resolution, ip_previous = previous\<rparr>)"

definition max_index_rows :: nat where
  "max_index_rows = 64"

text \<open>
  Active rows first, then \<open>promoted_at DESC NULLS LAST\<close>, then \<open>index_version DESC\<close>: the descending
  order of this key.
\<close>

definition order_key :: "index_row \<Rightarrow> nat \<times> (nat \<times> timestamp) \<times> string" where
  "order_key r =
     (if ix_status r = Active then 1 else 0,
      (case ix_promoted r of None \<Rightarrow> (0, 0) | Some t \<Rightarrow> (1, t)),
      ix_version r)"

definition ordered_rows :: "index_status list \<Rightarrow> index_db \<Rightarrow> index_row list" where
  "ordered_rows statuses db =
     take max_index_rows
       (rev (sort_key order_key (filter (\<lambda>r. ix_status r \<in> set statuses) (ix_rows db))))"

definition resolve_active_index :: "index_db \<Rightarrow> active_resolution" where
  "resolve_active_index db = ip_active (partition_index_rows (ordered_rows [Active] db))"

definition resolve_index_partition :: "index_db \<Rightarrow> index_partition" where
  "resolve_index_partition db = partition_index_rows (ordered_rows [Active, Previous_good] db)"

section \<open>Health of the vector arm\<close>

datatype arm_status = Arm_dead | Arm_mismatch | Arm_partial | Arm_healthy | Arm_empty | Arm_ambiguous

definition derive_vector_arm_status :: "nat \<Rightarrow> nat \<Rightarrow> bool \<Rightarrow> bool \<Rightarrow> arm_status" where
  "derive_vector_arm_status chunks_total chunks_embedded mismatch ambiguous =
     (if ambiguous then Arm_ambiguous
      else if chunks_total = 0 then Arm_empty
      else if chunks_embedded = 0 then Arm_dead
      else if mismatch then Arm_mismatch
      else if chunks_embedded < chunks_total then Arm_partial
      else Arm_healthy)"

record vector_health =
  vh_status :: arm_status
  vh_healthy :: bool
  vh_total :: "nat option"
  vh_embedded :: "nat option"
  vh_ratio :: "rat option"
  vh_match :: bool
  vh_index :: "embedder_identity option"
  vh_configured :: embedder_identity
  vh_active_count :: nat

definition ambiguous_vector_health :: "embedder_identity \<Rightarrow> nat \<Rightarrow> vector_health" where
  "ambiguous_vector_health configured n =
     (let mismatch = is_index_embedder_mismatch configured Ambiguous_stamp;
          status = derive_vector_arm_status 0 0 mismatch True
      in \<lparr>vh_status = status, vh_healthy = (status = Arm_healthy), vh_total = None, vh_embedded = None,
          vh_ratio = None, vh_match = (\<not> mismatch), vh_index = None, vh_configured = configured,
          vh_active_count = n\<rparr>)"

text \<open>The chunks of the database: the index version of their document, and whether they carry a vector.\<close>

definition active_index_vector_health ::
    "(string \<times> bool) list \<Rightarrow> index_row \<Rightarrow> embedder_identity \<Rightarrow> nat \<Rightarrow> vector_health" where
  "active_index_vector_health chunks row configured n =
     (let stamp = ix_embedder row;
          mismatch = is_index_embedder_mismatch configured (Stamp stamp);
          mine = filter (\<lambda>c. fst c = ix_version row) chunks;
          embedded = length (filter snd mine);
          status = derive_vector_arm_status (length mine) embedded mismatch (n > 1)
      in \<lparr>vh_status = status, vh_healthy = (status = Arm_healthy), vh_total = Some (length mine),
          vh_embedded = Some embedded,
          vh_ratio = Some (if length mine = 0 then 0 else of_nat embedded / of_nat (length mine)),
          vh_match = (\<not> mismatch), vh_index = (if emb_provider stamp = None then None else Some stamp),
          vh_configured = configured, vh_active_count = n\<rparr>)"

text \<open>The \<open>vector_arm\<close> block of \<open>GET /health/index\<close>.\<close>

definition health_vector_arm ::
    "(string \<times> bool) list \<Rightarrow> embedder_identity \<Rightarrow> index_db \<Rightarrow> vector_health option" where
  "health_vector_arm chunks configured db =
     (let res = ip_active (resolve_index_partition db) in
      if ar_state res = Ambiguous then Some (ambiguous_vector_health configured (ar_count res))
      else map_option (\<lambda>row. active_index_vector_health chunks row configured (ar_count res)) (ar_row res))"

section \<open>Evidence\<close>

record promotion_case =
  case_id :: string
  case_question :: string
  case_source :: string

datatype eval_error =
    Suite_missing | Bad_json nat | Not_an_object nat | Missing_field nat | Duplicate_case nat | Empty_suite
  | Version_missing | Provenance_mismatch | No_vectors | Crashed

text \<open>One line of the suite: a comment, a case, or the refusal of the whole file.\<close>

definition read_case :: "(json \<Rightarrow> string) \<Rightarrow> (string \<Rightarrow> json option) \<Rightarrow> nat \<Rightarrow> string
     \<Rightarrow> eval_error + promotion_case option" where
  "read_case repr loads n raw =
     (let line = strip raw in
      if line = [] \<or> take 1 line = ''#'' then Inr None
      else (case loads line of
              None \<Rightarrow> Inl (Bad_json n)
            | Some (JObj blob) \<Rightarrow>
                if \<not> list_all (\<lambda>k. truthy (jget blob k)) [''id'', ''question'', ''expected_source'']
                then Inl (Missing_field n)
                else Inr (Some \<lparr>case_id = py_str repr (jget blob ''id''),
                  case_question = py_str repr (jget blob ''question''),
                  case_source = py_str repr (jget blob ''expected_source'')\<rparr>)
            | Some _ \<Rightarrow> Inl (Not_an_object n)))"

fun read_cases :: "(json \<Rightarrow> string) \<Rightarrow> (string \<Rightarrow> json option) \<Rightarrow> nat \<Rightarrow> string list
     \<Rightarrow> promotion_case list \<Rightarrow> eval_error + promotion_case list" where
  "read_cases repr loads n [] acc = Inr acc"
| "read_cases repr loads n (raw # raws) acc =
     (case read_case repr loads n raw of
        Inl e \<Rightarrow> Inl e
      | Inr None \<Rightarrow> read_cases repr loads (n + 1) raws acc
      | Inr (Some c) \<Rightarrow>
          if case_id c \<in> case_id ` set acc then Inl (Duplicate_case n)
          else read_cases repr loads (n + 1) raws (acc @ [c]))"

definition load_cases :: "(json \<Rightarrow> string) \<Rightarrow> (string \<Rightarrow> json option) \<Rightarrow> string list option
     \<Rightarrow> eval_error + promotion_case list" where
  "load_cases repr loads file =
     (case file of
        None \<Rightarrow> Inl Suite_missing
      | Some raws \<Rightarrow> and_then (read_cases repr loads 1 raws [])
          (\<lambda>cases. if cases = [] then Inl Empty_suite else Inr cases))"

lemma read_cases_distinct:
  "read_cases repr loads n raws acc = Inr cases \<Longrightarrow> distinct (map case_id acc) \<Longrightarrow>
     distinct (map case_id cases)"
  by (induction repr loads n raws acc rule: read_cases.induct)
    (auto split: sum.splits option.splits if_splits)

lemma load_cases_ok: "load_cases repr loads file = Inr cases \<Longrightarrow> cases \<noteq> [] \<and> distinct (map case_id cases)"
  by (auto simp: load_cases_def and_then_Inr_iff split: option.splits if_splits
      dest: read_cases_distinct)

datatype embedder_kind = No_embedder | Offline_embedder | Real_embedder

text \<open>\<open>_assert_candidate_is_evaluable\<close>\<close>

definition candidate_evaluable ::
    "embedder_kind \<Rightarrow> embedder_identity option \<Rightarrow> (string \<times> bool) list \<Rightarrow> index_db \<Rightarrow> string
       \<Rightarrow> eval_error + unit" where
  "candidate_evaluable kind identity chunks db v =
     (case get_version db v of
        None \<Rightarrow> Inl Version_missing
      | Some row \<Rightarrow>
          if kind \<noteq> Real_embedder then Inr ()
          else if (case identity of None \<Rightarrow> False
                   | Some i \<Rightarrow> emb_provider (ix_embedder row) \<noteq> None \<and> ix_embedder row \<noteq> i)
          then Inl Provenance_mismatch
          else if \<not> (\<exists>c\<in>set chunks. fst c = v \<and> snd c) then Inl No_vectors
          else Inr ())"

text \<open>The hits among the cases; the retriever is a parameter, and may raise.\<close>

fun count_hits :: "(promotion_case \<Rightarrow> string list option) \<Rightarrow> promotion_case list \<Rightarrow> nat option" where
  "count_hits retrieve [] = Some 0"
| "count_hits retrieve (c # cs) =
     (case retrieve c of
        None \<Rightarrow> None
      | Some sources \<Rightarrow>
          map_option (\<lambda>n. n + (if case_source c \<in> set sources then 1 else 0)) (count_hits retrieve cs))"

definition suite_name :: string where
  "suite_name = ''promotion''"

definition run_metrics :: "nat \<Rightarrow> nat \<Rightarrow> rat \<Rightarrow> obj" where
  "run_metrics passed cases limit =
     [(''pass_rate'', JFloat (of_nat passed / of_nat cases)), (''cases_total'', JInt (int cases)),
      (''cases_passed'', JInt (int passed)), (''cases_failed'', JInt (int (cases - passed))),
      (''threshold'', JFloat limit), (''suite'', JStr suite_name)]"

definition started_run :: "string \<Rightarrow> string \<Rightarrow> timestamp \<Rightarrow> evaluation_run" where
  "started_run rid v t =
     \<lparr>er_id = rid, er_suite = suite_name, er_version = v, er_started = t, er_completed = None,
      er_status = Run_running, er_metrics = []\<rparr>"

definition finished_run :: "evaluation_run \<Rightarrow> timestamp \<Rightarrow> nat \<Rightarrow> nat \<Rightarrow> rat \<Rightarrow> evaluation_run" where
  "finished_run run t passed cases limit = run\<lparr>
     er_metrics := run_metrics passed cases limit,
     er_status := (if of_nat passed / of_nat cases \<ge> limit then Run_passed else Run_failed),
     er_completed := Some t\<rparr>"

text \<open>Both commits: the running row is kept when a case raises.\<close>

definition evaluate_index ::
    "embedder_kind \<Rightarrow> embedder_identity option \<Rightarrow> (string \<times> bool) list \<Rightarrow> rat
       \<Rightarrow> (promotion_case \<Rightarrow> string list option) \<Rightarrow> promotion_case list \<Rightarrow> string \<Rightarrow> timestamp \<Rightarrow> timestamp
       \<Rightarrow> string \<Rightarrow> index_db \<Rightarrow> (eval_error + evaluation_run) \<times> index_db" where
  "evaluate_index kind identity chunks limit retrieve cases rid t t' v db =
     (case candidate_evaluable kind identity chunks db v of
        Inl e \<Rightarrow> (Inl e, db)
      | Inr _ \<Rightarrow>
          if cases = [] then (Inl Empty_suite, db)
          else let run = started_run rid v t; db1 = db\<lparr>ix_runs := tput er_id run (ix_runs db)\<rparr> in
            (case count_hits retrieve cases of
               None \<Rightarrow> (Inl Crashed, db1)
             | Some passed \<Rightarrow>
                 let done_run = finished_run run t' passed (length cases) limit;
                     db2 = db1\<lparr>ix_runs := tput er_id done_run (ix_runs db1)\<rparr> in
                 (case link_evaluation_run True done_run db2 of
                    Inl e \<Rightarrow> (Inl Crashed, db1)
                  | Inr (_, db3) \<Rightarrow> (Inr done_run, db3))))"

section \<open>The order the resolver reads in\<close>

lemma sorted_split:
  fixes k :: "'a \<Rightarrow> 'b::linorder"
  assumes "sorted (map k s)" and "\<And>x y. x \<in> set s \<Longrightarrow> y \<in> set s \<Longrightarrow> P x \<Longrightarrow> \<not> P y \<Longrightarrow> k y < k x"
  shows "s = filter (\<lambda>x. \<not> P x) s @ filter P s"
  using assms
proof (induction s)
  case (Cons x s)
  have rec: "s = filter (\<lambda>x. \<not> P x) s @ filter P s"
    using Cons by (intro Cons.IH) auto
  show ?case
  proof (cases "P x")
    case True
    have "\<forall>y\<in>set s. P y"
      using Cons.prems True by (metis list.set_intros leD list.set_map image_eqI sorted_simps(2) list.simps(9))
    then show ?thesis using True by (simp add: filter_empty_conv filter_id_conv)
  qed (use rec in simp)
qed simp

lemma sort_key_split:
  fixes k :: "'a \<Rightarrow> 'b::linorder"
  assumes "\<And>x y. x \<in> set xs \<Longrightarrow> y \<in> set xs \<Longrightarrow> P x \<Longrightarrow> \<not> P y \<Longrightarrow> k y < k x"
  shows "rev (sort_key k xs) = rev (sort_key k (filter P xs)) @ rev (sort_key k (filter (\<lambda>x. \<not> P x) xs))"
proof -
  have "sort_key k xs = filter (\<lambda>x. \<not> P x) (sort_key k xs) @ filter P (sort_key k xs)"
    by (rule sorted_split [where k = k]) (use assms in auto)
  then show ?thesis
    by (metis (no_types, lifting) filter_sort rev_append)
qed

lemma last_is_greatest:
  fixes k :: "'a \<Rightarrow> 'b::linorder"
  shows "sorted (map k s) \<Longrightarrow> x \<in> set s \<Longrightarrow> k x \<le> k (last s)"
  by (induction s rule: rev_induct) (auto simp: sorted_append)

lemma hd_rev_sort_key:
  fixes k :: "'a \<Rightarrow> 'b::linorder"
  assumes "a \<in> set xs" and "\<And>p. p \<in> set xs \<Longrightarrow> p \<noteq> a \<Longrightarrow> k p < k a"
  shows "\<exists>zs. rev (sort_key k xs) = a # zs"
proof -
  have ne: "sort_key k xs \<noteq> []"
    using assms(1) by (metis empty_iff empty_set set_sort)
  have "k a \<le> k (last (sort_key k xs))"
    by (rule last_is_greatest) (simp_all add: assms(1))
  moreover have "last (sort_key k xs) \<in> set xs"
    using ne by (metis last_in_set set_sort)
  ultimately have "last (sort_key k xs) = a"
    using assms(2) leD by blast
  then show ?thesis
    using ne by (metis append_butlast_last_id rev.simps(2) rev_append rev_rev_ident append_Cons append_Nil)
qed

lemma active_key_greater: "ix_status x = Active \<Longrightarrow> ix_status y \<noteq> Active \<Longrightarrow> order_key y < order_key x"
  by (simp add: order_key_def)

definition active_rows :: "index_row list \<Rightarrow> index_row list" where
  "active_rows rows = filter (\<lambda>r. ix_status r = Active) rows"

definition previous_rows :: "index_row list \<Rightarrow> index_row list" where
  "previous_rows rows = filter (\<lambda>r. ix_status r = Previous_good) rows"

lemma ordered_both:
  "ordered_rows [Active, Previous_good] db =
     take max_index_rows (rev (sort_key order_key (active_rows (ix_rows db)))
       @ rev (sort_key order_key (previous_rows (ix_rows db))))"
proof -
  have "rev (sort_key order_key (filter (\<lambda>r. ix_status r \<in> set [Active, Previous_good]) (ix_rows db))) =
      rev (sort_key order_key (active_rows (ix_rows db)))
      @ rev (sort_key order_key (previous_rows (ix_rows db)))"
    using sort_key_split [where P = "\<lambda>r. ix_status r = Active" and k = order_key
        and xs = "filter (\<lambda>r. ix_status r \<in> set [Active, Previous_good]) (ix_rows db)"]
    by (simp add: active_key_greater active_rows_def previous_rows_def conj_disj_distribR cong: conj_cong)
  then show ?thesis by (simp add: ordered_rows_def)
qed

lemma ordered_active:
  "ordered_rows [Active] db = take max_index_rows (rev (sort_key order_key (active_rows (ix_rows db))))"
  by (simp add: ordered_rows_def active_rows_def)

lemma partition_parts:
  assumes "\<forall>r\<in>set xs. ix_status r = Active" and "\<forall>r\<in>set ys. ix_status r = Previous_good"
  shows "ip_active (partition_index_rows (xs @ ys)) =
      (if length xs > 1 then \<lparr>ar_state = Ambiguous, ar_count = length xs, ar_row = None\<rparr>
       else if xs = [] then \<lparr>ar_state = None_active, ar_count = 0, ar_row = None\<rparr>
       else \<lparr>ar_state = One_active, ar_count = 1, ar_row = Some (hd xs)\<rparr>)"
    and "ip_previous (partition_index_rows (xs @ ys)) = (case ys of [] \<Rightarrow> None | y # _ \<Rightarrow> Some y)"
proof -
  have xs: "filter (\<lambda>r. ix_status r = Active) xs = xs" and ys: "filter (\<lambda>r. ix_status r = Active) ys = []"
    using assms by (simp_all add: filter_id_conv filter_empty_conv)
  then show "ip_active (partition_index_rows (xs @ ys)) =
      (if length xs > 1 then \<lparr>ar_state = Ambiguous, ar_count = length xs, ar_row = None\<rparr>
       else if xs = [] then \<lparr>ar_state = None_active, ar_count = 0, ar_row = None\<rparr>
       else \<lparr>ar_state = One_active, ar_count = 1, ar_row = Some (hd xs)\<rparr>)"
    by (simp add: partition_index_rows_def Let_def)
  have none: "List.find (\<lambda>r. ix_status r = Previous_good) xs = None"
    using assms(1) by simp
  have "ip_previous (partition_index_rows (xs @ ys)) = List.find (\<lambda>r. ix_status r = Previous_good) ys"
    unfolding partition_index_rows_def Let_def find_append none by simp
  then show "ip_previous (partition_index_rows (xs @ ys)) = (case ys of [] \<Rightarrow> None | y # _ \<Rightarrow> Some y)"
    using assms(2) by (cases ys) simp_all
qed

lemma set_active_rows: "r \<in> set (active_rows rows) \<longleftrightarrow> r \<in> set rows \<and> ix_status r = Active"
  and set_previous_rows: "r \<in> set (previous_rows rows) \<longleftrightarrow> r \<in> set rows \<and> ix_status r = Previous_good"
  by (auto simp: active_rows_def previous_rows_def)

lemma resolved_parts:
  assumes "length (active_rows (ix_rows db)) \<le> max_index_rows"
  defines "A \<equiv> rev (sort_key order_key (active_rows (ix_rows db)))"
    and "B \<equiv> take (max_index_rows - length (active_rows (ix_rows db)))
               (rev (sort_key order_key (previous_rows (ix_rows db))))"
  shows "resolve_index_partition db = partition_index_rows (A @ B)"
    and "resolve_active_index db = ip_active (partition_index_rows (A @ []))"
    and "\<forall>r\<in>set A. ix_status r = Active" "\<forall>r\<in>set B. ix_status r = Previous_good"
  using assms(1)
  by (auto simp: A_def B_def resolve_index_partition_def resolve_active_index_def ordered_both
      ordered_active set_active_rows set_previous_rows dest: in_set_takeD)

definition resolution_of :: "index_row list \<Rightarrow> active_resolution" where
  "resolution_of rows =
     (case active_rows rows of
        [] \<Rightarrow> \<lparr>ar_state = None_active, ar_count = 0, ar_row = None\<rparr>
      | [r] \<Rightarrow> \<lparr>ar_state = One_active, ar_count = 1, ar_row = Some r\<rparr>
      | rs \<Rightarrow> \<lparr>ar_state = Ambiguous, ar_count = length rs, ar_row = None\<rparr>)"

lemma resolution_of_cases:
  assumes "mset xs = mset (active_rows rows)"
  shows "(if length xs > 1 then \<lparr>ar_state = Ambiguous, ar_count = length xs, ar_row = None\<rparr>
      else if xs = [] then \<lparr>ar_state = None_active, ar_count = 0, ar_row = None\<rparr>
      else \<lparr>ar_state = One_active, ar_count = 1, ar_row = Some (hd xs)\<rparr>) = resolution_of rows"
proof -
  have len: "length xs = length (active_rows rows)" and set: "set xs = set (active_rows rows)"
    using assms by (metis size_mset, metis set_mset_mset)
  consider "active_rows rows = []" | r where "active_rows rows = [r]" | a b rs where "active_rows rows = a # b # rs"
    by (metis list.exhaust)
  then show ?thesis
  proof cases
    case 2
    then have "xs = [r]" using assms by simp
    then show ?thesis using 2 by (simp add: resolution_of_def)
  qed (use len set in \<open>auto simp: resolution_of_def\<close>)
qed

lemma resolution_exact:
  assumes "length (active_rows (ix_rows db)) \<le> max_index_rows"
  shows "ip_active (resolve_index_partition db) = resolution_of (ix_rows db)"
    and "resolve_active_index db = resolution_of (ix_rows db)"
proof -
  note parts = resolved_parts [OF assms]
  have none: "\<forall>r\<in>set []. ix_status r = Previous_good"
    by simp
  show "ip_active (resolve_index_partition db) = resolution_of (ix_rows db)"
    unfolding parts(1) partition_parts(1) [OF parts(3,4)] by (rule resolution_of_cases) simp
  show "resolve_active_index db = resolution_of (ix_rows db)"
    unfolding parts(2) partition_parts(1) [OF parts(3) none] by (rule resolution_of_cases) simp
qed

lemma active_index_resolution_is_exact_parts:
  assumes "length (active_rows (ix_rows db)) \<le> max_index_rows"
  shows "ip_active (resolve_index_partition db) = resolution_of (ix_rows db)"
    and "resolve_active_index db = resolution_of (ix_rows db)"
  by (rule resolution_exact [OF assms])+

text \<open>C18: Every table resolves to exactly one well-formed answer, and every caller gets the same
  one. With at most 64 active rows, the health route's partition and the read path's resolver both
  return the resolution of the table: no active index and no row, the one active row with the count
  one, or the ambiguous state with the exact count of at least two and no row.\<close>
theorem active_index_resolution_is_exact:
  assumes "length (active_rows (ix_rows db)) \<le> max_index_rows"
  shows "(ip_active (resolve_index_partition db) = resolution_of (ix_rows db))
     \<and> (resolve_active_index db = resolution_of (ix_rows db))"
  using active_index_resolution_is_exact_parts [OF assms] by blast

definition demo_index :: "string \<Rightarrow> index_status \<Rightarrow> timestamp option \<Rightarrow> index_row" where
  "demo_index v s t = \<lparr>ix_version = v, ix_status = s, ix_source_hash = ''h'', ix_created = 0,
     ix_promoted = t, ix_run = None,
     ix_embedder = \<lparr>emb_provider = None, emb_model = None, emb_dim = None\<rparr>\<rparr>"

definition demo_index_db :: index_db where
  "demo_index_db = \<lparr>ix_rows = [demo_index ''v1'' Previous_good (Some 1), demo_index ''v2'' Active (Some 2),
     demo_index ''v3'' Candidate None], ix_runs = [], ix_audit = []\<rparr>"

theorem active_index_resolution_is_exact_witness:
  "ip_active (resolve_index_partition demo_index_db)
     = \<lparr>ar_state = One_active, ar_count = 1, ar_row = Some (demo_index ''v2'' Active (Some 2))\<rparr>"
  using active_index_resolution_is_exact [of demo_index_db, THEN conjunct1]
  by (simp add: demo_index_db_def active_rows_def demo_index_def resolution_of_def max_index_rows_def)

lemma length_filter_conj_le: "length (filter (\<lambda>x. P x \<and> Q x) xs) \<le> length (filter P xs)"
  by (induction xs) auto

text \<open>The health verdict and the read path's degradation are the same decision.\<close>

lemma health_agrees_with_the_read_path:
  assumes "health_vector_arm chunks configured db = Some h"
    and "length (active_rows (ix_rows db)) \<le> max_index_rows"
  shows "vh_match h \<longleftrightarrow> \<not> is_index_embedder_mismatch configured
           (case resolve_active_index db of res \<Rightarrow>
              if ar_state res = Ambiguous then Ambiguous_stamp
              else case ar_row res of None \<Rightarrow> No_stamp | Some row \<Rightarrow> Stamp (ix_embedder row))"
    and "vh_healthy h \<Longrightarrow> vh_match h \<and> ar_state (resolve_active_index db) = One_active
           \<and> vh_embedded h = vh_total h"
  using assms resolution_exact [OF assms(2)]
  by (auto simp: health_vector_arm_def Let_def ambiguous_vector_health_def active_index_vector_health_def
      derive_vector_arm_status_def resolution_of_def not_less split: if_splits list.splits
      intro!: le_antisym length_filter_conj_le)

section \<open>What a promotion does\<close>

interpretation index_rows: keyed_store ix_version "tget ix_version" "tput ix_version" "unique ix_version"
  by unfold_locales (auto simp: tget_tput dest: tget_Some)

lemma activate_versions [simp]: "map ix_version (activate now v rows) = map ix_version rows"
  by (simp add: activate_def)

lemma unique_activate [simp]: "unique ix_version (activate now v rows) \<longleftrightarrow> unique ix_version rows"
  by (simp add: unique_def)

lemma set_activate:
  "r' \<in> set (activate now v rows) \<longleftrightarrow> (\<exists>r\<in>set rows.
     r' = (if ix_version r = v then r\<lparr>ix_status := Active, ix_promoted := Some now\<rparr>
           else if ix_status r = Active then r\<lparr>ix_status := Previous_good\<rparr> else r))"
  by (simp only: activate_def set_map image_iff)

lemma activate_status: "r' \<in> set (activate now v rows) \<Longrightarrow> ix_status r' = Active \<longleftrightarrow> ix_version r' = v"
  unfolding set_activate by (erule bexE) (simp split: if_splits)

lemma activate_version_in: "r' \<in> set (activate now v rows) \<Longrightarrow> ix_version r' \<in> ix_version ` set rows"
  using activate_versions [of now v rows] by (metis image_eqI list.set_map)

lemma active_rows_activate:
  assumes "unique ix_version rows" and "tget ix_version rows v = Some r"
  shows "active_rows (activate now v rows) = [r\<lparr>ix_status := Active, ix_promoted := Some now\<rparr>]"
  using assms
proof (induction rows)
  case (Cons x rows)
  have none: "v \<notin> ix_version ` set rows \<Longrightarrow> active_rows (activate now v rows) = []"
    by (auto simp: active_rows_def filter_empty_conv activate_status dest: activate_version_in)
  then show ?case
    using Cons by (auto simp: active_rows_def activate_def unique_def split: if_splits)
qed simp

lemma promote_version_cases:
  assumes "promote_version threshold now actor req force v db = Inr (row, db')"
  obtains (same) "get_version db v = Some row" "ix_status row = Active" "db' = db"
  | (promoted) target where "get_version db v = Some target" "ix_status target \<noteq> Active"
      "row = target\<lparr>ix_status := Active, ix_promoted := Some now\<rparr>"
      "ix_rows db' = activate now v (ix_rows db)" "ix_runs db' = ix_runs db"
      "\<not> force \<Longrightarrow> promotion_gate db threshold v = Inr ()"
      "ix_audit db' = ix_audit db @
        [\<lparr>pa_actor = actor, pa_version = v, pa_request = req, pa_at = now, pa_force = force,
          pa_rate = measured_pass_rate db v, pa_threshold = threshold,
          pa_run = map_option er_id (latest_completed_run db v)\<rparr>]"
  using assms that
  by (auto simp: promote_version_def and_then_Inr_iff split: option.splits if_splits)

lemma promotion_gate_iff:
  "promotion_gate db threshold v = Inr () \<longleftrightarrow>
     (\<exists>run rate. latest_completed_run db v = Some run \<and> pass_rate_from_metrics (er_metrics run) = Some rate
        \<and> threshold \<le> rate)"
  by (auto simp: promotion_gate_def not_less split: option.splits)

lemma promotion_needs_evidence_parts:
  assumes "promote_version threshold now actor req force v db = Inr (row, db')"
    and "unique ix_version (ix_rows db)" and "ix_status (the (get_version db v)) \<noteq> Active"
  shows "\<not> force \<longrightarrow> (\<exists>run rate. latest_completed_run db v = Some run \<and> er_version run = v
           \<and> er_status run \<noteq> Run_running \<and> pass_rate_from_metrics (er_metrics run) = Some rate
           \<and> threshold \<le> rate
           \<and> (\<forall>r\<in>set (ix_runs db). er_version r = v \<and> er_status r \<noteq> Run_running \<longrightarrow> run_key r \<le> run_key run))"
    and "active_rows (ix_rows db') = [row] \<and> ix_version row = v \<and> ix_promoted row = Some now"
    and "\<forall>r\<in>set (ix_rows db). ix_version r \<noteq> v \<longrightarrow>
           (if ix_status r = Active then r\<lparr>ix_status := Previous_good\<rparr> else r) \<in> set (ix_rows db')"
    and "\<exists>a. ix_audit db' = ix_audit db @ [a] \<and> pa_version a = v \<and> pa_force a = force
           \<and> pa_rate a = measured_pass_rate db v \<and> pa_threshold a = threshold"
proof -
  obtain target where p: "get_version db v = Some target" "row = target\<lparr>ix_status := Active, ix_promoted := Some now\<rparr>"
    "ix_rows db' = activate now v (ix_rows db)" "\<not> force \<Longrightarrow> promotion_gate db threshold v = Inr ()"
    "ix_audit db' = ix_audit db @
        [\<lparr>pa_actor = actor, pa_version = v, pa_request = req, pa_at = now, pa_force = force,
          pa_rate = measured_pass_rate db v, pa_threshold = threshold,
          pa_run = map_option er_id (latest_completed_run db v)\<rparr>]"
    using assms(1,3) by (cases rule: promote_version_cases) auto
  have latest: "er_version run = v \<and> er_status run \<noteq> Run_running \<and>
      (\<forall>r\<in>set (ix_runs db). er_version r = v \<and> er_status r \<noteq> Run_running \<longrightarrow> run_key r \<le> run_key run)"
    if "latest_completed_run db v = Some run" for run
  proof -
    let ?mine = "filter (\<lambda>r. er_version r = v \<and> er_status r \<in> set completed_statuses) (ix_runs db)"
    have "run \<in> set ?mine" and "\<forall>r\<in>set ?mine. run_key r \<le> run_key run"
      using that newest_in newest_is_newest unfolding latest_completed_run_def by blast+
    then show ?thesis by simp
  qed
  show "\<not> force \<longrightarrow> (\<exists>run rate. latest_completed_run db v = Some run \<and> er_version run = v
      \<and> er_status run \<noteq> Run_running \<and> pass_rate_from_metrics (er_metrics run) = Some rate
      \<and> threshold \<le> rate
      \<and> (\<forall>r\<in>set (ix_runs db). er_version r = v \<and> er_status r \<noteq> Run_running \<longrightarrow> run_key r \<le> run_key run))"
    using p(4) latest unfolding promotion_gate_iff by blast
  show "active_rows (ix_rows db') = [row] \<and> ix_version row = v \<and> ix_promoted row = Some now"
    using active_rows_activate [OF assms(2)] p(1-3) tget_Some unfolding get_version_def by fastforce
  show "\<forall>r\<in>set (ix_rows db). ix_version r \<noteq> v \<longrightarrow>
      (if ix_status r = Active then r\<lparr>ix_status := Previous_good\<rparr> else r) \<in> set (ix_rows db')"
    unfolding p(3) set_activate by force
  show "\<exists>a. ix_audit db' = ix_audit db @ [a] \<and> pa_version a = v \<and> pa_force a = force
      \<and> pa_rate a = measured_pass_rate db v \<and> pa_threshold a = threshold"
    using p(5) by simp
qed


definition demo_evaluated_db :: index_db where
  "demo_evaluated_db = demo_index_db\<lparr>ix_runs :=
     [finished_run (started_run ''r1'' ''v3'' 3) 4 19 20 (95 / 100)]\<rparr>"

lemma demo_promotion:
  "promote_version (95 / 100) 5 ''ops'' ''req'' False ''v3'' demo_evaluated_db =
     Inr (demo_index ''v3'' Active (Some 5),
       \<lparr>ix_rows = [demo_index ''v1'' Previous_good (Some 1), demo_index ''v2'' Previous_good (Some 2),
          demo_index ''v3'' Active (Some 5)],
        ix_runs = ix_runs demo_evaluated_db,
        ix_audit = [\<lparr>pa_actor = ''ops'', pa_version = ''v3'', pa_request = ''req'', pa_at = 5,
          pa_force = False, pa_rate = Some (95 / 100), pa_threshold = 95 / 100, pa_run = Some ''r1''\<rparr>]\<rparr>)"
  by code_simp


section \<open>An evaluation is what the gate reads\<close>

lemma newest_snoc: "\<forall>r\<in>set rs. run_key r < run_key x \<Longrightarrow> newest (rs @ [x]) = Some x"
  by (induction rs) auto

lemma count_hits_le: "count_hits retrieve cs = Some n \<Longrightarrow> n \<le> length cs"
  by (induction cs arbitrary: n) (fastforce split: option.splits if_splits)+

lemma pass_rate_run_metrics:
  "p \<le> n \<Longrightarrow> 0 < n \<Longrightarrow> pass_rate_from_metrics (run_metrics p n l) = Some (of_nat p / of_nat n)"
  by (auto simp: pass_rate_from_metrics_def run_metrics_def jhas_def number_of_def in_unit_def
      states_no_cases_def divide_le_eq_1)

lemma tput_fresh: "k \<notin> key ` set t \<Longrightarrow> key r = k \<Longrightarrow> tput key r t = t @ [r]"
  by (auto simp: tput_def tget_None_iff)

lemma tput_twice:
  "k \<notin> key ` set t \<Longrightarrow> key r = k \<Longrightarrow> key r' = k \<Longrightarrow> tput key r' (tput key r t) = t @ [r']"
proof -
  assume h: "k \<notin> key ` set t" "key r = k" "key r' = k"
  have "map (\<lambda>x. if key x = key r' then r' else x) t = t"
    by (rule map_idI) (metis h image_eqI)
  moreover have "tget key (t @ [r]) (key r') \<noteq> None"
    unfolding tget_None_iff using h by auto
  ultimately show ?thesis
    using h by (simp add: tput_fresh [OF h(1,2)]) (simp add: tput_def tget_None_iff)
qed

lemma evaluate_index_runs:
  assumes "evaluate_index kind identity chunks limit retrieve cases rid t t' v db = (Inr run, db')"
    and "rid \<notin> er_id ` set (ix_runs db)"
  shows "\<exists>passed. count_hits retrieve cases = Some passed \<and> 0 < length cases
     \<and> run = finished_run (started_run rid v t) t' passed (length cases) limit
     \<and> ix_runs db' = ix_runs db @ [run]
     \<and> (\<exists>row. get_version db v = Some row
          \<and> ix_rows db' = tput ix_version (row\<lparr>ix_run := Some rid\<rparr>) (ix_rows db))"
  using assms
  by (auto simp: evaluate_index_def link_evaluation_run_def Let_def get_version_def candidate_evaluable_def
      finished_run_def started_run_def tput_twice [where k = rid]
      split: sum.splits option.splits if_splits)

lemma evaluation_feeds_the_gate_parts:
  assumes "rid \<notin> er_id ` set (ix_runs db)" and "\<forall>r\<in>set (ix_runs db). er_started r < t"
    and "evaluate_index kind identity chunks limit retrieve cases rid t t' v db = (outcome, db')"
  shows "outcome = Inr run \<Longrightarrow> promotion_gate db' limit v = Inr () \<longleftrightarrow> er_status run = Run_passed"
    and "outcome = Inr run \<Longrightarrow> \<exists>passed. count_hits retrieve cases = Some passed
           \<and> measured_pass_rate db' v = Some (of_nat passed / of_nat (length cases))
           \<and> (\<exists>row. get_version db' v = Some row \<and> ix_run row = Some rid)"
    and "outcome = Inl e \<Longrightarrow> latest_completed_run db' w = latest_completed_run db w"
proof -
  have fresh: "er_id (started_run rid v t) = rid"
    by (simp add: started_run_def)
  {
    assume "outcome = Inr run"
    then obtain passed row where r: "count_hits retrieve cases = Some passed" "0 < length cases"
      "run = finished_run (started_run rid v t) t' passed (length cases) limit"
      "ix_runs db' = ix_runs db @ [run]" "get_version db v = Some row"
      "ix_rows db' = tput ix_version (row\<lparr>ix_run := Some rid\<rparr>) (ix_rows db)"
      using evaluate_index_runs assms(1,3) by blast
    have run: "er_version run = v" "er_status run \<noteq> Run_running" "er_started run = t"
      "er_metrics run = run_metrics passed (length cases) limit"
      "er_status run = Run_passed \<longleftrightarrow> limit \<le> of_nat passed / of_nat (length cases)"
      using r(3) by (simp_all add: finished_run_def started_run_def)
    have "latest_completed_run db' v = Some run"
      unfolding latest_completed_run_def r(4) using run assms(2)
      by (simp add: newest_snoc run_key_def)
    moreover have "pass_rate_from_metrics (er_metrics run) = Some (of_nat passed / of_nat (length cases))"
      unfolding run(4) by (rule pass_rate_run_metrics [OF count_hits_le [OF r(1)] r(2)])
    ultimately show "promotion_gate db' limit v = Inr () \<longleftrightarrow> er_status run = Run_passed"
      and "\<exists>passed. count_hits retrieve cases = Some passed
           \<and> measured_pass_rate db' v = Some (of_nat passed / of_nat (length cases))
           \<and> (\<exists>row. get_version db' v = Some row \<and> ix_run row = Some rid)"
      using run(5) r(1,5,6) tget_Some [OF r(5) [unfolded get_version_def]]
      by (auto simp: promotion_gate_iff measured_pass_rate_def get_version_def tget_tput)
  }
  assume "outcome = Inl e"
  then have "ix_runs db' = ix_runs db \<or> ix_runs db' = ix_runs db @ [started_run rid v t]"
    using assms(1,3) fresh
    by (auto simp: evaluate_index_def Let_def link_evaluation_run_def tput_fresh [where k = rid]
        split: sum.splits option.splits if_splits)
  then show "latest_completed_run db' w = latest_completed_run db w"
    by (auto simp: latest_completed_run_def started_run_def)
qed

text \<open>Evaluated green is promotable, and nothing else is. After a suite that ran to its end at the
  gate's threshold, started after every run on record, the gate of that version opens exactly when
  the run is stored as passed, the rate it measures is the hits over the cases, and the index's
  display pointer names the run; a suite that raised leaves the gate's evidence as it was.\<close>
theorem evaluation_feeds_the_gate:
  assumes "rid \<notin> er_id ` set (ix_runs db)" and "\<forall>r\<in>set (ix_runs db). er_started r < t"
    and "evaluate_index kind identity chunks limit retrieve cases rid t t' v db = (outcome, db')"
  shows "((outcome = Inr run) \<longrightarrow> (promotion_gate db' limit v = Inr () \<longleftrightarrow> er_status run = Run_passed))
     \<and> ((outcome = Inr run) \<longrightarrow> (\<exists>passed. count_hits retrieve cases = Some passed
           \<and> measured_pass_rate db' v = Some (of_nat passed / of_nat (length cases))
           \<and> (\<exists>row. get_version db' v = Some row \<and> ix_run row = Some rid)))
     \<and> ((outcome = Inl e) \<longrightarrow> (latest_completed_run db' w = latest_completed_run db w))"
  using evaluation_feeds_the_gate_parts [OF assms] by blast

definition demo_cases :: "promotion_case list" where
  "demo_cases = [\<lparr>case_id = ''a'', case_question = ''q'', case_source = ''s''\<rparr>,
     \<lparr>case_id = ''b'', case_question = ''q'', case_source = ''t''\<rparr>]"

definition demo_evaluation where
  "demo_evaluation limit = evaluate_index No_embedder None [] limit (\<lambda>c. Some [''s'']) demo_cases
     ''r1'' 3 4 ''v3'' demo_index_db"

theorem evaluation_feeds_the_gate_witness:
  "promotion_gate (snd (demo_evaluation (1 / 2))) (1 / 2) ''v3'' = Inr ()"
proof -
  have "''r1'' \<notin> er_id ` set (ix_runs demo_index_db)" "\<forall>r\<in>set (ix_runs demo_index_db). er_started r < 3"
    by (simp_all add: demo_index_db_def)
  moreover have "evaluate_index No_embedder None [] (1 / 2) (\<lambda>c. Some [''s'']) demo_cases
      ''r1'' 3 4 ''v3'' demo_index_db = (fst (demo_evaluation (1 / 2)), snd (demo_evaluation (1 / 2)))"
    by (simp add: demo_evaluation_def)
  moreover have "fst (demo_evaluation (1 / 2)) =
      Inr (finished_run (started_run ''r1'' ''v3'' 3) 4 1 2 (1 / 2))"
    by code_simp
  moreover have "er_status (finished_run (started_run ''r1'' ''v3'' 3) 4 1 2 (1 / 2)) = Run_passed"
    by code_simp
  ultimately show ?thesis
    using evaluation_feeds_the_gate [THEN conjunct1] by blast
qed

section \<open>The life of the table\<close>

definition ensure_index_version ::
    "string \<Rightarrow> string \<Rightarrow> embedder_identity \<Rightarrow> timestamp \<Rightarrow> index_db \<Rightarrow> index_row \<times> index_db" where
  "ensure_index_version v hash emb now db =
     (case get_version db v of
        Some row \<Rightarrow>
          let row' = (if emb_provider emb \<noteq> None then row\<lparr>ix_embedder := emb\<rparr> else row) in
          (row', db\<lparr>ix_rows := tput ix_version row' (ix_rows db)\<rparr>)
      | None \<Rightarrow>
          let row = \<lparr>ix_version = v, ix_status = Candidate, ix_source_hash = hash, ix_created = now,
            ix_promoted = None, ix_run = None, ix_embedder = emb\<rparr> in
          (row, db\<lparr>ix_rows := tput ix_version row (ix_rows db)\<rparr>))"

definition advance_source_version_hash :: "string \<Rightarrow> string \<Rightarrow> index_db \<Rightarrow> index_db" where
  "advance_source_version_hash v hash db =
     (case get_version db v of
        None \<Rightarrow> db
      | Some row \<Rightarrow> db\<lparr>ix_rows := tput ix_version (row\<lparr>ix_source_hash := hash\<rparr>) (ix_rows db)\<rparr>)"

text \<open>The bootstrap seed's own activation, which yields to any other active index.\<close>

datatype seed_status = Seed_missing | Already_active | Left_as_candidate | Seed_promoted

definition activate_seed :: "timestamp \<Rightarrow> string \<Rightarrow> index_db \<Rightarrow> seed_status \<times> index_db" where
  "activate_seed now v db =
     (case get_version db v of
        None \<Rightarrow> (Seed_missing, db)
      | Some row \<Rightarrow>
          if ix_status row = Active then (Already_active, db)
          else if \<exists>r\<in>set (ix_rows db). ix_status r = Active \<and> ix_version r \<noteq> v then (Left_as_candidate, db)
          else (Seed_promoted,
                db\<lparr>ix_rows := tput ix_version (row\<lparr>ix_status := Active, ix_promoted := Some now\<rparr>) (ix_rows db)\<rparr>))"

text \<open>One transaction after another, each at a later time.\<close>

inductive index_step :: "index_db \<times> timestamp \<Rightarrow> index_db \<times> timestamp \<Rightarrow> bool" where
  step_build: "clock < now \<Longrightarrow>
     index_step (db, clock) (snd (ensure_index_version v hash emb now db), now)"
| step_advance: "clock < now \<Longrightarrow> index_step (db, clock) (advance_source_version_hash v hash db, now)"
| step_evaluate: "clock < now \<Longrightarrow> index_step (db, clock)
     (snd (evaluate_index kind identity chunks limit retrieve cases rid t t' v db), now)"
| step_promote: "clock < now \<Longrightarrow> index_step (db, clock)
     (snd (promote_index_version threshold now actor req force v db), now)"
| step_seed: "clock < now \<Longrightarrow> index_step (db, clock) (snd (activate_seed now v db), now)"

inductive index_reach :: "index_db \<times> timestamp \<Rightarrow> bool" where
  reach_empty: "index_reach (\<lparr>ix_rows = [], ix_runs = [], ix_audit = []\<rparr>, clock)"
| reach_step: "index_reach s \<Longrightarrow> index_step s s' \<Longrightarrow> index_reach s'"

text \<open>The invariant is on what the resolver orders by: version, status and promotion time.\<close>

definition index_ok :: "index_row list \<Rightarrow> timestamp \<Rightarrow> bool" where
  "index_ok rows clock \<longleftrightarrow> unique ix_version rows
     \<and> (\<forall>r\<in>set rows. ix_status r = Active \<longrightarrow> (\<exists>t. ix_promoted r = Some t \<and> t \<le> clock))
     \<and> (\<forall>r\<in>set rows. \<forall>q\<in>set rows. ix_status r = Active \<and> ix_status q = Active \<longrightarrow> r = q)
     \<and> (\<forall>r\<in>set rows. \<forall>q\<in>set rows. ix_status r = Active \<and> ix_status q = Previous_good \<longrightarrow>
          (\<exists>t u. ix_promoted r = Some t \<and> ix_promoted q = Some u \<and> u < t))
     \<and> (\<forall>q\<in>set rows. ix_status q = Previous_good \<longrightarrow> (\<exists>u. ix_promoted q = Some u \<and> u \<le> clock))"

lemma index_ok_later: "index_ok rows clock \<Longrightarrow> clock \<le> now \<Longrightarrow> index_ok rows now"
  unfolding index_ok_def by (meson order.trans)

lemma index_ok_times:
  "index_ok rows clock \<Longrightarrow> r \<in> set rows \<Longrightarrow> ix_status r = Active \<or> ix_status r = Previous_good \<Longrightarrow>
     \<exists>u. ix_promoted r = Some u \<and> u \<le> clock"
  unfolding index_ok_def by blast

text \<open>Rewriting a row without touching those columns keeps the invariant, and so does a new candidate.\<close>

lemma index_ok_tput:
  assumes ok: "index_ok rows clock" and old: "tget ix_version rows (ix_version row) = Some r0"
    and same: "ix_status row = ix_status r0" "ix_promoted row = ix_promoted r0"
  shows "index_ok (tput ix_version row rows) clock"
proof -
  let ?rows = "tput ix_version row rows"
  have uni: "unique ix_version rows"
    using ok by (simp add: index_ok_def)
  have r0: "r0 \<in> set rows" "ix_version r0 = ix_version row"
    using tget_Some [OF old] by simp_all
  have orig: "\<exists>r\<in>set rows. ix_status r = ix_status x \<and> ix_promoted r = ix_promoted x
      \<and> ix_version r = ix_version x" if "x \<in> set ?rows" for x
    using that r0 same by (auto simp: set_tput_eq [OF uni])
  have inj: "x = y" if "x \<in> set ?rows" "y \<in> set ?rows" "ix_version x = ix_version y" for x y
    using that distinct_map_filter_unique [of ix_version ?rows x y] uni unique_tput [of ix_version row rows]
    unfolding unique_def by blast
  show ?thesis
    unfolding index_ok_def
  proof (intro conjI ballI impI)
    show "unique ix_version ?rows" using uni by simp
  next
    fix r assume "r \<in> set ?rows" "ix_status r = Active"
    then show "\<exists>t. ix_promoted r = Some t \<and> t \<le> clock"
      using orig [of r] ok unfolding index_ok_def by metis
  next
    fix r q assume "r \<in> set ?rows" "q \<in> set ?rows" "ix_status r = Active \<and> ix_status q = Active"
    then show "r = q"
      using orig [of r] orig [of q] inj [of r q] ok unfolding index_ok_def by metis
  next
    fix r q assume "r \<in> set ?rows" "q \<in> set ?rows" "ix_status r = Active \<and> ix_status q = Previous_good"
    then show "\<exists>t u. ix_promoted r = Some t \<and> ix_promoted q = Some u \<and> u < t"
      using orig [of r] orig [of q] ok unfolding index_ok_def by metis
  next
    fix q assume "q \<in> set ?rows" "ix_status q = Previous_good"
    then show "\<exists>u. ix_promoted q = Some u \<and> u \<le> clock"
      using orig [of q] ok unfolding index_ok_def by metis
  qed
qed

lemma index_ok_candidate:
  assumes "index_ok rows clock" and "tget ix_version rows (ix_version row) = None" and "ix_status row = Candidate"
  shows "index_ok (tput ix_version row rows) clock"
  using assms by (auto simp: index_ok_def tput_def unique_def tget_None_iff)

lemma index_ok_activate:
  assumes ok: "index_ok rows clock" and "clock < now" and "tget ix_version rows v = Some r0"
    and "ix_status r0 \<noteq> Active"
  shows "index_ok (activate now v rows) now"
proof -
  have prom: "ix_promoted r' = Some now" if "r' \<in> set (activate now v rows)" "ix_version r' = v" for r'
    using that unfolding set_activate by (elim bexE) (simp split: if_splits)
  have prev: "\<exists>u. ix_promoted r' = Some u \<and> u \<le> clock"
    if "r' \<in> set (activate now v rows)" "ix_status r' = Previous_good" for r'
  proof -
    obtain r where r: "r \<in> set rows" "r' = (if ix_version r = v then r\<lparr>ix_status := Active, ix_promoted := Some now\<rparr>
           else if ix_status r = Active then r\<lparr>ix_status := Previous_good\<rparr> else r)"
      using \<open>r' \<in> set (activate now v rows)\<close> unfolding set_activate by blast
    then show ?thesis
      using that(2) index_ok_times [OF ok r(1)] by (auto split: if_splits)
  qed
  have uni: "unique ix_version (activate now v rows)"
    using ok by (simp add: index_ok_def)
  show ?thesis
    unfolding index_ok_def
  proof (intro conjI ballI impI)
    fix r q assume "r \<in> set (activate now v rows)" "q \<in> set (activate now v rows)"
      "ix_status r = Active \<and> ix_status q = Active"
    then have "ix_version r = v" "ix_version q = v"
      by (simp_all add: activate_status)
    then show "r = q"
      using \<open>r \<in> _\<close> \<open>q \<in> _\<close> uni distinct_map_filter_unique unfolding unique_def by metis
  next
    fix q assume "q \<in> set (activate now v rows)" "ix_status q = Previous_good"
    then show "\<exists>u. ix_promoted q = Some u \<and> u \<le> now"
      using prev assms(2) by fastforce
  next
    fix r assume "r \<in> set (activate now v rows)" "ix_status r = Active"
    then show "\<exists>t. ix_promoted r = Some t \<and> t \<le> now"
      using prom activate_status by blast
  next
    fix r q assume rq: "r \<in> set (activate now v rows)" "q \<in> set (activate now v rows)"
      "ix_status r = Active \<and> ix_status q = Previous_good"
    then have "ix_promoted r = Some now"
      using prom activate_status by blast
    then show "\<exists>t u. ix_promoted r = Some t \<and> ix_promoted q = Some u \<and> u < t"
      using prev [of q] rq assms(2) by fastforce
  qed (rule uni)
qed

lemma ix_rows_evaluate:
  "ix_rows (snd (evaluate_index kind identity chunks limit retrieve cases rid t t' v db)) = ix_rows db
   \<or> (\<exists>row. get_version db v = Some row \<and>
        ix_rows (snd (evaluate_index kind identity chunks limit retrieve cases rid t t' v db)) =
          tput ix_version (row\<lparr>ix_run := Some rid\<rparr>) (ix_rows db))"
  by (auto simp: evaluate_index_def link_evaluation_run_def Let_def get_version_def
      finished_run_def started_run_def split: sum.splits option.splits if_splits)

lemma index_ok_rewrite:
  assumes "index_ok rows clock" and "tget ix_version rows v = Some r0"
    and "ix_version row = ix_version r0" "ix_status row = ix_status r0" "ix_promoted row = ix_promoted r0"
  shows "index_ok (tput ix_version row rows) clock"
  using assms tget_Some [OF assms(2)] by (intro index_ok_tput) simp_all

lemma activate_seed_is_activate:
  assumes "unique ix_version rows" and "tget ix_version rows v = Some row"
    and "\<not> (\<exists>r\<in>set rows. ix_status r = Active \<and> ix_version r \<noteq> v)"
  shows "tput ix_version (row\<lparr>ix_status := Active, ix_promoted := Some now\<rparr>) rows = activate now v rows"
proof -
  have row: "row \<in> set rows" "ix_version row = v"
    using tget_Some [OF assms(2)] by simp_all
  have "x = row" if "x \<in> set rows" "ix_version x = v" for x
    using that row assms(1) distinct_map_filter_unique unfolding unique_def by metis
  then have "(if ix_version x = v then row\<lparr>ix_status := Active, ix_promoted := Some now\<rparr> else x) =
      (if ix_version x = v then x\<lparr>ix_status := Active, ix_promoted := Some now\<rparr>
       else if ix_status x = Active then x\<lparr>ix_status := Previous_good\<rparr> else x)" if "x \<in> set rows" for x
    using that assms(3) by (cases "ix_version x = v") auto
  then show ?thesis
    using assms(2) row(2) by (simp add: tput_def activate_def cong: map_cong)
qed

lemma index_step_ok:
  assumes "index_step s s'" and "index_ok (ix_rows (fst s)) (snd s)"
  shows "index_ok (ix_rows (fst s')) (snd s')"
  using assms
proof (induction rule: index_step.induct)
  case (step_build clock now db v hash emb)
  then have ok: "index_ok (ix_rows db) now"
    using index_ok_later by fastforce
  show ?case
  proof (cases "get_version db v")
    case None
    then show ?thesis
      using ok by (simp add: ensure_index_version_def Let_def get_version_def index_ok_candidate)
  next
    case (Some row)
    then show ?thesis
      using index_ok_rewrite [OF ok] by (simp add: ensure_index_version_def Let_def get_version_def)
  qed
next
  case (step_advance clock now db v hash)
  then have ok: "index_ok (ix_rows db) now"
    using index_ok_later by fastforce
  then show ?case
    using index_ok_rewrite [OF ok]
    by (auto simp: advance_source_version_hash_def get_version_def split: option.splits)
next
  case (step_evaluate clock now db kind identity chunks limit retrieve cases rid t t' v)
  then have ok: "index_ok (ix_rows db) now"
    using index_ok_later by fastforce
  then show ?case
    using index_ok_rewrite [OF ok] ix_rows_evaluate [of kind identity chunks limit retrieve cases rid t t' v db]
    by (auto simp: get_version_def)
next
  case (step_promote clock now db threshold actor req force v)
  then have ok: "index_ok (ix_rows db) clock" "index_ok (ix_rows db) now"
    using index_ok_later by fastforce+
  show ?case
  proof (cases "promote_version threshold now actor req force v db")
    case (Inl e)
    then show ?thesis using ok by (simp add: promote_index_version_def split: option.splits)
  next
    case (Inr p)
    obtain row db' where p: "p = (row, db')" by force
    with Inr have r: "promote_version threshold now actor req force v db = Inr (row, db')" by simp
    have "ix_rows (snd (promote_index_version threshold now actor req force v db)) = ix_rows db
        \<or> ix_rows (snd (promote_index_version threshold now actor req force v db)) = ix_rows db'"
      using r by (auto simp: promote_index_version_def split: option.splits)
    moreover have "index_ok (ix_rows db') now"
      using r
    proof (cases rule: promote_version_cases)
      case same
      then show ?thesis using ok by simp
    next
      case (promoted target)
      then show ?thesis
        using index_ok_activate [OF ok(1) step_promote.hyps] by (simp add: get_version_def)
    qed
    ultimately show ?thesis using ok by auto
  qed
next
  case (step_seed clock now db v)
  then have ok: "index_ok (ix_rows db) clock" "index_ok (ix_rows db) now"
    using index_ok_later by fastforce+
  show ?case
  proof (cases "fst (activate_seed now v db) = Seed_promoted")
    case True
    then obtain row where row: "get_version db v = Some row" "ix_status row \<noteq> Active"
      "\<not> (\<exists>r\<in>set (ix_rows db). ix_status r = Active \<and> ix_version r \<noteq> v)"
      by (auto simp: activate_seed_def split: option.splits if_splits)
    then have "ix_rows (snd (activate_seed now v db)) = activate now v (ix_rows db)"
      using activate_seed_is_activate [of "ix_rows db" v row now] ok(1)
      by (auto simp: activate_seed_def get_version_def index_ok_def)
    then show ?thesis
      using index_ok_activate [OF ok(1) step_seed.hyps] row by (simp add: get_version_def)
  next
    case False
    then show ?thesis
      using ok by (auto simp: activate_seed_def split: option.splits if_splits)
  qed
qed

lemma index_reach_ok: "index_reach s \<Longrightarrow> index_ok (ix_rows (fst s)) (snd s)"
proof (induction rule: index_reach.induct)
  case (reach_empty clock)
  then show ?case by (simp add: index_ok_def)
next
  case (reach_step s s')
  then show ?case using index_step_ok by blast
qed

lemma distinct_all_equal: "distinct xs \<Longrightarrow> \<forall>x\<in>set xs. \<forall>y\<in>set xs. x = y \<Longrightarrow> length xs \<le> 1"
proof -
  assume h: "distinct xs" "\<forall>x\<in>set xs. \<forall>y\<in>set xs. x = y"
  show ?thesis
  proof (rule ccontr)
    assume "\<not> length xs \<le> 1"
    then have "1 < length xs" by simp
    then have "0 < length xs" "1 < length xs" by linarith+
    then have "xs ! 0 \<noteq> xs ! 1" "xs ! 0 \<in> set xs" "xs ! 1 \<in> set xs"
      using h(1) by (simp_all only: nth_eq_iff_index_eq nth_mem)
    then show False using h(2) by blast
  qed
qed

lemma active_rows_at_most_one:
  "index_ok rows clock \<Longrightarrow> length (active_rows rows) \<le> 1"
proof -
  assume ok: "index_ok rows clock"
  have "distinct (active_rows rows)"
    using ok by (simp add: index_ok_def active_rows_def unique_def distinct_map)
  moreover have "\<forall>x\<in>set (active_rows rows). \<forall>y\<in>set (active_rows rows). x = y"
    using ok by (auto simp: index_ok_def set_active_rows)
  ultimately show ?thesis by (rule distinct_all_equal)
qed

lemma rollback_target_is_the_displaced_index_parts:
  assumes "index_reach (db, clock)" and "clock < now"
    and "promote_version threshold now actor req force v db = Inr (row, db')"
    and "a \<in> set (ix_rows db)" and "ix_status a = Active" and "ix_version a \<noteq> v"
  shows "length (active_rows (ix_rows db)) \<le> 1"
    and "ip_active (resolve_index_partition db') = \<lparr>ar_state = One_active, ar_count = 1, ar_row = Some row\<rparr>"
    and "ip_previous (resolve_index_partition db') = Some (a\<lparr>ix_status := Previous_good\<rparr>)"
proof -
  have ok: "index_ok (ix_rows db) clock"
    using index_reach_ok [OF assms(1)] by simp
  then show "length (active_rows (ix_rows db)) \<le> 1"
    by (rule active_rows_at_most_one)
  have uni: "unique ix_version (ix_rows db)"
    using ok by (simp add: index_ok_def)
  obtain target where t: "get_version db v = Some target" "ix_status target \<noteq> Active"
    "row = target\<lparr>ix_status := Active, ix_promoted := Some now\<rparr>" "ix_rows db' = activate now v (ix_rows db)"
    using assms(3)
  proof (cases rule: promote_version_cases)
    case same
    then have "row \<in> set (ix_rows db)" "ix_version row = v"
      using tget_Some unfolding get_version_def by fastforce+
    then have "row = a"
      using same(2) assms(4,5) ok unfolding index_ok_def by blast
    then show ?thesis using assms(6) \<open>ix_version row = v\<close> by simp
  qed
  have act: "active_rows (ix_rows db') = [row]"
    using active_rows_activate [OF uni] t unfolding get_version_def by simp
  have few: "length (active_rows (ix_rows db')) \<le> max_index_rows"
    by (simp add: act max_index_rows_def)
  show "ip_active (resolve_index_partition db') = \<lparr>ar_state = One_active, ar_count = 1, ar_row = Some row\<rparr>"
    using resolution_exact(1) [OF few] act by (simp add: resolution_of_def)
  let ?a = "a\<lparr>ix_status := Previous_good\<rparr>"
  have "?a \<in> set (ix_rows db')"
    unfolding t(4) set_activate using assms(4-6) by force
  then have in_prev: "?a \<in> set (previous_rows (ix_rows db'))"
    by (simp add: set_previous_rows)
  have "order_key p < order_key ?a" if p: "p \<in> set (previous_rows (ix_rows db'))" "p \<noteq> ?a" for p
  proof -
    obtain r where r: "r \<in> set (ix_rows db)" "p = (if ix_version r = v then r\<lparr>ix_status := Active, ix_promoted := Some now\<rparr>
        else if ix_status r = Active then r\<lparr>ix_status := Previous_good\<rparr> else r)" "ix_status p = Previous_good"
      using p(1) unfolding set_previous_rows t(4) set_activate by blast
    have "ix_status r \<noteq> Active"
      using r p(2) assms(4,5) ok by (auto simp: index_ok_def split: if_splits)
    then have "p = r" "ix_status r = Previous_good"
      using r(2,3) by (auto split: if_splits)
    then obtain u w where "ix_promoted a = Some u" "ix_promoted p = Some w" "w < u"
      using ok r(1) assms(4,5) unfolding index_ok_def by blast
    then show ?thesis using r(3) by (simp add: order_key_def)
  qed
  then obtain zs where "rev (sort_key order_key (previous_rows (ix_rows db'))) = ?a # zs"
    using hd_rev_sort_key [OF in_prev] by blast
  then show "ip_previous (resolve_index_partition db') = Some ?a"
    using resolved_parts(1,3,4) [OF few] partition_parts(2) [of "[row]" "?a # take 62 zs"]
    by (simp add: act max_index_rows_def)
qed

text \<open>C17: The rollback target is the index a promotion displaced. In every state reachable by builds,
  evaluations, promotions and bootstrap seeds, one transaction at a time, at most one index is
  active; and after a promotion that took over from an active index, the partition names the new
  index as the one active row and the displaced one, and no older one, as previous good.\<close>
theorem rollback_target_is_the_displaced_index:
  assumes "index_reach (db, clock)" and "clock < now"
    and "promote_version threshold now actor req force v db = Inr (row, db')"
    and "a \<in> set (ix_rows db)" and "ix_status a = Active" and "ix_version a \<noteq> v"
  shows "(length (active_rows (ix_rows db)) \<le> 1)
     \<and> (ip_active (resolve_index_partition db') = \<lparr>ar_state = One_active, ar_count = 1, ar_row = Some row\<rparr>)
     \<and> (ip_previous (resolve_index_partition db') = Some (a\<lparr>ix_status := Previous_good\<rparr>))"
  using rollback_target_is_the_displaced_index_parts [OF assms] by blast

definition demo_life :: "index_db" where
  "demo_life = (let
     d1 = snd (ensure_index_version ''v1'' ''h'' \<lparr>emb_provider = None, emb_model = None, emb_dim = None\<rparr> 1
       \<lparr>ix_rows = [], ix_runs = [], ix_audit = []\<rparr>);
     d2 = snd (activate_seed 2 ''v1'' d1)
   in snd (ensure_index_version ''v2'' ''h'' \<lparr>emb_provider = None, emb_model = None, emb_dim = None\<rparr> 3 d2))"

lemma demo_life_reach: "index_reach (demo_life, 3)"
proof -
  let ?e = "\<lparr>emb_provider = None, emb_model = None, emb_dim = None\<rparr>"
  let ?d1 = "snd (ensure_index_version ''v1'' ''h'' ?e 1 \<lparr>ix_rows = [], ix_runs = [], ix_audit = []\<rparr>)"
  let ?d2 = "snd (activate_seed 2 ''v1'' ?d1)"
  have "index_reach (?d1, 1)"
    by (rule reach_step [OF reach_empty [of 0]]) (rule step_build, simp)
  then have "index_reach (?d2, 2)"
    by (rule reach_step) (rule step_seed, simp)
  then have "index_reach (snd (ensure_index_version ''v2'' ''h'' ?e 3 ?d2), 3)"
    by (rule reach_step) (rule step_build, simp)
  then show ?thesis by (simp add: demo_life_def Let_def)
qed

definition demo_promoted where
  "demo_promoted = (case promote_version (95 / 100) 4 ''ops'' ''req'' True ''v2'' demo_life of
     Inr p \<Rightarrow> p | Inl e \<Rightarrow> (demo_index ''v2'' Candidate None, demo_life))"

theorem rollback_target_is_the_displaced_index_witness:
  "ip_previous (resolve_index_partition (snd demo_promoted)) =
     Some ((hd (ix_rows demo_life))\<lparr>ix_status := Previous_good\<rparr>)"
proof -
  have p: "promote_version (95 / 100) 4 ''ops'' ''req'' True ''v2'' demo_life = Inr (fst demo_promoted, snd demo_promoted)"
    by code_simp
  have a: "hd (ix_rows demo_life) \<in> set (ix_rows demo_life)" "ix_status (hd (ix_rows demo_life)) = Active"
    "ix_version (hd (ix_rows demo_life)) \<noteq> ''v2''"
    by code_simp+
  show ?thesis
    by (rule rollback_target_is_the_displaced_index [OF demo_life_reach _ p a, THEN conjunct2, THEN conjunct2]) simp
qed

section \<open>Two promotions at once\<close>

text \<open>
  The statements of \<open>promote_version\<close> under READ COMMITTED. A transaction locks its target row and
  passes the gate; its \<open>SELECT \<dots> WHERE status = 'active' FOR UPDATE\<close> finds the rows of the statement's
  snapshot; it proceeds when no other transaction holds one of them, and a row it waited for is
  looked at again: it is skipped when it is no longer active. A row another transaction has made
  active since the snapshot is not among the found ones.
\<close>

datatype promotion =
    Requested string
  | Target_locked string
  | Actives_found string "string list"
  | Committed

record promote_world =
  pw_index :: index_db
  pw_txs :: "promotion list"

fun locked_target :: "promotion \<Rightarrow> string option" where
  "locked_target (Target_locked v) = Some v"
| "locked_target (Actives_found v found) = Some v"
| "locked_target p = None"

definition locked_elsewhere :: "promote_world \<Rightarrow> nat \<Rightarrow> string \<Rightarrow> bool" where
  "locked_elsewhere w i v \<longleftrightarrow> (\<exists>j < length (pw_txs w). j \<noteq> i \<and> locked_target (pw_txs w ! j) = Some v)"

lemma locked_elsewhere_two [simp]:
  "locked_elsewhere \<lparr>pw_index = db, pw_txs = [a, b]\<rparr> 0 v \<longleftrightarrow> locked_target b = Some v"
  "locked_elsewhere \<lparr>pw_index = db, pw_txs = [a, b]\<rparr> (Suc 0) v \<longleftrightarrow> locked_target a = Some v"
  by (auto simp: locked_elsewhere_def less_Suc_eq)

definition commit_promotion :: "timestamp \<Rightarrow> string \<Rightarrow> string list \<Rightarrow> index_row list \<Rightarrow> index_row list" where
  "commit_promotion now v found rows = map (\<lambda>r.
     if ix_version r = v then r\<lparr>ix_status := Active, ix_promoted := Some now\<rparr>
     else if ix_version r \<in> set found \<and> ix_status r = Active then r\<lparr>ix_status := Previous_good\<rparr>
     else r) rows"

inductive promote_step :: "rat \<Rightarrow> promote_world \<Rightarrow> promote_world \<Rightarrow> bool" for threshold where
  lock_target: "i < length (pw_txs w) \<Longrightarrow> pw_txs w ! i = Requested v \<Longrightarrow> \<not> locked_elsewhere w i v
    \<Longrightarrow> get_version (pw_index w) v = Some target \<Longrightarrow> ix_status target \<noteq> Active
    \<Longrightarrow> promotion_gate (pw_index w) threshold v = Inr ()
    \<Longrightarrow> promote_step threshold w (w\<lparr>pw_txs := (pw_txs w)[i := Target_locked v]\<rparr>)"
| find_actives: "i < length (pw_txs w) \<Longrightarrow> pw_txs w ! i = Target_locked v
    \<Longrightarrow> found = map ix_version (active_rows (ix_rows (pw_index w)))
    \<Longrightarrow> promote_step threshold w (w\<lparr>pw_txs := (pw_txs w)[i := Actives_found v found]\<rparr>)"
| commit_it: "i < length (pw_txs w) \<Longrightarrow> pw_txs w ! i = Actives_found v found
    \<Longrightarrow> \<forall>u\<in>set found. \<not> locked_elsewhere w i u
    \<Longrightarrow> promote_step threshold w \<lparr>pw_index = (pw_index w)\<lparr>ix_rows := commit_promotion now v found (ix_rows (pw_index w))\<rparr>,
          pw_txs = (pw_txs w)[i := Committed]\<rparr>"

lemma commit_first:
  "\<forall>u\<in>set found. locked_target b \<noteq> Some u \<Longrightarrow>
     promote_step thr \<lparr>pw_index = db, pw_txs = [Actives_found v found, b]\<rparr>
       \<lparr>pw_index = db\<lparr>ix_rows := commit_promotion now v found (ix_rows db)\<rparr>, pw_txs = [Committed, b]\<rparr>"
  using commit_it [of 0 "\<lparr>pw_index = db, pw_txs = [Actives_found v found, b]\<rparr>" v found thr now] by simp

lemma commit_second:
  "\<forall>u\<in>set found. locked_target a \<noteq> Some u \<Longrightarrow>
     promote_step thr \<lparr>pw_index = db, pw_txs = [a, Actives_found v found]\<rparr>
       \<lparr>pw_index = db\<lparr>ix_rows := commit_promotion now v found (ix_rows db)\<rparr>, pw_txs = [a, Committed]\<rparr>"
  using commit_it [of 1 "\<lparr>pw_index = db, pw_txs = [a, Actives_found v found]\<rparr>" v found thr now] by simp

text \<open>With no other transaction in between, the statements are the function of the sections above.\<close>

lemma commit_alone_is_activate:
  "commit_promotion now v (map ix_version (active_rows rows)) rows = activate now v rows"
  unfolding commit_promotion_def activate_def
  by (rule map_cong) (auto simp: set_active_rows image_iff)

definition demo_race_db :: index_db where
  "demo_race_db = \<lparr>ix_rows = [demo_index ''v1'' Active (Some 1), demo_index ''v2'' Candidate None,
       demo_index ''v3'' Candidate None],
     ix_runs = [finished_run (started_run ''r2'' ''v2'' 2) 3 20 20 (95 / 100),
       finished_run (started_run ''r3'' ''v3'' 2) 3 20 20 (95 / 100)],
     ix_audit = []\<rparr>"

definition demo_race_after :: index_db where
  "demo_race_after = demo_race_db\<lparr>ix_rows := [demo_index ''v1'' Previous_good (Some 1),
     demo_index ''v2'' Active (Some 5), demo_index ''v3'' Active (Some 6)]\<rparr>"

text \<open>Two concurrent promotions can both win. From a table with one active index and two candidates
  that pass the gate, the promotions of the two candidates interleave to a state in which both have
  committed and both candidates are active, so the index is ambiguous and the vector arm fails
  closed: the second transaction's snapshot of the active rows predates the first one's commit.\<close>
theorem concurrent_promotions_leave_two_active:
  "(promote_step (95 / 100))\<^sup>*\<^sup>* \<lparr>pw_index = demo_race_db, pw_txs = [Requested ''v2'', Requested ''v3'']\<rparr>
      \<lparr>pw_index = demo_race_after, pw_txs = [Committed, Committed]\<rparr>
   \<and> ar_state (resolve_active_index demo_race_db) = One_active
   \<and> resolve_active_index demo_race_after = \<lparr>ar_state = Ambiguous, ar_count = 2, ar_row = None\<rparr>
   \<and> is_index_embedder_mismatch configured Ambiguous_stamp"
proof -
  let ?w = "\<lambda>db ps. \<lparr>pw_index = db, pw_txs = ps\<rparr>"
  let ?thr = "95 / 100 :: rat"
  have gates: "promotion_gate demo_race_db ?thr ''v2'' = Inr ()" "promotion_gate demo_race_db ?thr ''v3'' = Inr ()"
    by code_simp+
  have rows: "get_version demo_race_db ''v2'' = Some (demo_index ''v2'' Candidate None)"
    "get_version demo_race_db ''v3'' = Some (demo_index ''v3'' Candidate None)"
    "map ix_version (active_rows (ix_rows demo_race_db)) = [''v1'']"
    by code_simp+
  have candidate: "ix_status (demo_index v Candidate None) \<noteq> Active" for v
    by (simp add: demo_index_def)
  have 1: "promote_step ?thr (?w demo_race_db [Requested ''v2'', Requested ''v3''])
      (?w demo_race_db [Target_locked ''v2'', Requested ''v3''])"
    using lock_target [of 0 "?w demo_race_db [Requested ''v2'', Requested ''v3'']" "''v2''" "demo_index ''v2'' Candidate None" ?thr]
      rows gates candidate by simp
  have 2: "promote_step ?thr (?w demo_race_db [Target_locked ''v2'', Requested ''v3''])
      (?w demo_race_db [Target_locked ''v2'', Target_locked ''v3''])"
    using lock_target [of 1 "?w demo_race_db [Target_locked ''v2'', Requested ''v3'']" "''v3''" "demo_index ''v3'' Candidate None" ?thr]
      rows gates candidate by simp
  have 3: "promote_step ?thr (?w demo_race_db [Target_locked ''v2'', Target_locked ''v3''])
      (?w demo_race_db [Actives_found ''v2'' [''v1''], Target_locked ''v3''])"
    using find_actives [of 0 "?w demo_race_db [Target_locked ''v2'', Target_locked ''v3'']" "''v2''"] rows by simp
  have 4: "promote_step ?thr (?w demo_race_db [Actives_found ''v2'' [''v1''], Target_locked ''v3''])
      (?w demo_race_db [Actives_found ''v2'' [''v1''], Actives_found ''v3'' [''v1'']])"
    using find_actives [of 1 "?w demo_race_db [Actives_found ''v2'' [''v1''], Target_locked ''v3'']" "''v3''"] rows
    by simp
  let ?mid = "demo_race_db\<lparr>ix_rows := commit_promotion 5 ''v2'' [''v1''] (ix_rows demo_race_db)\<rparr>"
  have 5: "promote_step ?thr (?w demo_race_db [Actives_found ''v2'' [''v1''], Actives_found ''v3'' [''v1'']])
      (?w ?mid [Committed, Actives_found ''v3'' [''v1'']])"
    by (rule commit_first) simp
  have 6: "promote_step ?thr (?w ?mid [Committed, Actives_found ''v3'' [''v1'']])
      (?w (?mid\<lparr>ix_rows := commit_promotion 6 ''v3'' [''v1''] (ix_rows ?mid)\<rparr>) [Committed, Committed])"
    by (rule commit_second) simp
  have "?mid\<lparr>ix_rows := commit_promotion 6 ''v3'' [''v1''] (ix_rows ?mid)\<rparr> = demo_race_after"
    by code_simp
  with 6 have 7: "promote_step ?thr (?w ?mid [Committed, Actives_found ''v3'' [''v1'']])
      (?w demo_race_after [Committed, Committed])"
    by simp
  note chain = rtranclp.rtrancl_into_rtrancl [where r = "promote_step ?thr"]
  have "(promote_step ?thr)\<^sup>*\<^sup>* (?w demo_race_db [Requested ''v2'', Requested ''v3''])
      (?w demo_race_after [Committed, Committed])"
    by (rule chain [OF chain [OF chain [OF chain [OF chain [OF r_into_rtranclp [where r = "promote_step ?thr", OF 1] 2] 3] 4] 5] 7])
  moreover have "ar_state (resolve_active_index demo_race_db) = One_active"
    by code_simp
  moreover have "resolve_active_index demo_race_after = \<lparr>ar_state = Ambiguous, ar_count = 2, ar_row = None\<rparr>"
    by code_simp
  ultimately show ?thesis by (simp add: is_index_embedder_mismatch_def)
qed

end
