(* ===== verification/Provider_Http.thy ===== *)
theory Provider_Http
  imports Json
begin

text \<open>
  What the provider clients see of HTTP and of an untrusted JSON body: the outcome of one POST, and
  the conversions \<open>int(v)\<close> and \<open>float(v)\<close> with the exceptions they raise. The network is a
  parameter of the clients. A \<open>float\<close> is the rational it denotes, so the rounding of a long
  literal is not part of the model.
\<close>

section \<open>Replies\<close>

text \<open>
  \<open>json.loads(response.content)\<close> returns a value, raises \<open>JSONDecodeError\<close>, or raises something
  else (a \<open>UnicodeDecodeError\<close> on bytes of no encoding, a \<open>RecursionError\<close> on deep nesting).
\<close>

datatype body = Json json | Not_json | Undecodable

datatype http_reply = Timed_out | Transport_failed | Replied nat body

section \<open>Conversions\<close>

datatype 'a coerced = Coerced 'a | Bad_value | Overflowed

definition sign_split :: "string \<Rightarrow> bool \<times> string" where
  "sign_split s =
     (case s of
        [] \<Rightarrow> (False, [])
      | c # r \<Rightarrow> if c = CHR ''-'' then (True, r) else if c = CHR ''+'' then (False, r) else (False, s))"

text \<open>Digits with single underscores between them.\<close>

definition digit_part :: "string \<Rightarrow> bool" where
  "digit_part s \<longleftrightarrow> list_all (\<lambda>g. g \<noteq> [] \<and> list_all is_digit g) (split_on (CHR ''_'') s)"

definition digits_only :: "string \<Rightarrow> string" where
  "digits_only s = filter is_digit s"

definition signed_digits :: "string \<Rightarrow> int option" where
  "signed_digits s =
     (case sign_split s of
        (neg, d) \<Rightarrow>
          if digit_part d then
            (let n = int (nat_of_digits (digits_only d)) in Some (if neg then - n else n))
          else None)"

text \<open>\<open>int(s)\<close> of a text; Python refuses more than 4300 digits.\<close>

definition int_of_text :: "string \<Rightarrow> int option" where
  "int_of_text s = (if length (digits_only s) > 4300 then None else signed_digits (strip s))"

fun coerce_int :: "json \<Rightarrow> int coerced" where
  "coerce_int (JBool b) = Coerced (if b then 1 else 0)"
| "coerce_int (JInt i) = Coerced i"
| "coerce_int (JFloat r) = Coerced (trunc r)"
| "coerce_int (JInf neg) = Overflowed"
| "coerce_int (JStr s) = (case int_of_text s of Some i \<Rightarrow> Coerced i | None \<Rightarrow> Bad_value)"
| "coerce_int _ = Bad_value"

datatype pyfloat = Finite rat | Not_finite

text \<open>The least integer magnitude that rounds past the largest \<open>float\<close>.\<close>

definition float_limit :: int where
  "float_limit = 2 ^ 1024 - 2 ^ 970"

definition float_of_rat :: "rat \<Rightarrow> pyfloat" where
  "float_of_rat r = (if \<bar>r\<bar> \<ge> of_int float_limit then Not_finite else Finite r)"

text \<open>\<open>float(s)\<close> of a text.\<close>

definition float_of_text :: "string \<Rightarrow> pyfloat option" where
  "float_of_text s =
     (case sign_split (lower (strip s)) of
        (neg, u) \<Rightarrow>
          if u \<in> {''inf'', ''infinity'', ''nan''} then Some Not_finite
          else
            (case partition_on (CHR ''e'') u of
               (m, has_exponent, x) \<Rightarrow>
                 (case partition_on (CHR ''.'') m of
                    (w, dot, f) \<Rightarrow>
                      if (w = [] \<and> f = []) \<or> (w \<noteq> [] \<and> \<not> digit_part w) \<or> (f \<noteq> [] \<and> \<not> digit_part f) then None
                      else
                        (case (if has_exponent then signed_digits x else Some 0) of
                           None \<Rightarrow> None
                         | Some e \<Rightarrow>
                             let d = of_nat (nat_of_digits (digits_only (w @ f)));
                                 k = e - int (length (digits_only f));
                                 v = (if k \<ge> 0 then d * 10 ^ nat k else d / 10 ^ nat (- k))
                             in Some (float_of_rat (if neg then - v else v))))))"

fun coerce_float :: "json \<Rightarrow> pyfloat coerced" where
  "coerce_float (JBool b) = Coerced (Finite (if b then 1 else 0))"
| "coerce_float (JInt i) = (if \<bar>i\<bar> \<ge> float_limit then Overflowed else Coerced (Finite (of_int i)))"
| "coerce_float (JFloat r) = Coerced (Finite r)"
| "coerce_float JNan = Coerced Not_finite"
| "coerce_float (JInf neg) = Coerced Not_finite"
| "coerce_float (JStr s) = (case float_of_text s of Some v \<Rightarrow> Coerced v | None \<Rightarrow> Bad_value)"
| "coerce_float _ = Bad_value"

lemma int_of_text_examples:
  "int_of_text '' -12 '' = Some (- 12)" "int_of_text ''1_0'' = Some 10" "int_of_text ''1__0'' = None" "int_of_text '''' = None"
  by code_simp+

lemma float_of_text_examples:
  "float_of_text ''-1.25'' = Some (Finite (- 5 / 4))" "float_of_text ''2e-1'' = Some (Finite (1 / 5))"
  "float_of_text ''.'' = None" "float_of_text ''Infinity'' = Some Not_finite"
  by code_simp+

end
