(* ===== verification/Pricing.thy ===== *)
theory Pricing
  imports Prelude
begin

text \<open>
  What a paid provider call costs and the row it leaves: \<open>app/cost/pricing.py\<close>,
  \<open>app/cost/usage.py\<close>, \<open>app/cost/call_site.py\<close>, \<open>app/cost/meter.py\<close> and the token resolution of
  \<open>app/cost/metered.py\<close>. The price book is the table of the source, a \<open>Decimal\<close> the rational it
  denotes. The regular expression of a dated snapshot is the recogniser \<open>snapshot_at\<close>; replacing
  its first match, which the end anchor makes the only one, is \<open>undate\<close>. \<open>numeric6\<close> is the
  rounding of the column \<open>Numeric(14, 6)\<close> that the row is stored in.
\<close>

section \<open>The price book\<close>

record token_price =
  input_per_1m :: usd
  output_per_1m :: usd

definition cost_for :: "token_price \<Rightarrow> int \<Rightarrow> int \<Rightarrow> usd" where
  "cost_for p input_tokens output_tokens =
     (of_int input_tokens * input_per_1m p + of_int output_tokens * output_per_1m p) / 1000000"

definition token_price :: "usd \<Rightarrow> usd \<Rightarrow> token_price" where
  "token_price i out = \<lparr>input_per_1m = i, output_per_1m = out\<rparr>"

definition price_book :: "((string \<times> string) \<times> token_price) list" where
  "price_book =
    [((''router'', ''openai/gpt-4o-mini''), token_price (15 / 100) (60 / 100)),
     ((''router'', ''openai/gpt-4o''), token_price (250 / 100) 10),
     ((''router'', ''google/gemini-2.5-flash''), token_price (30 / 100) (250 / 100)),
     ((''gemini'', ''gemini-3.6-flash''), token_price (150 / 100) (750 / 100)),
     ((''gemini'', ''gemini-2.5-flash''), token_price (30 / 100) (250 / 100)),
     ((''anthropic'', ''claude-opus-4-8''), token_price 5 25),
     ((''anthropic'', ''claude-haiku-4-5''), token_price 1 5),
     ((''gemini'', ''gemini-2.5-flash-lite''), token_price (10 / 100) (40 / 100)),
     ((''router'', ''google/gemini-2.5-flash-lite''), token_price (10 / 100) (40 / 100)),
     ((''router'', ''openai/text-embedding-3-small''), token_price (2 / 100) 0),
     ((''router'', ''openai/text-embedding-3-large''), token_price (13 / 100) 0),
     ((''router'', ''text-embedding-3-small''), token_price (2 / 100) 0),
     ((''router'', ''text-embedding-3-large''), token_price (13 / 100) 0),
     ((''gemini'', ''gemini-embedding-001''), token_price (15 / 100) 0)]"

definition canonical_provider :: "string \<Rightarrow> string" where
  "canonical_provider p = (if p = ''openrouter'' then ''router'' else p)"

definition free_price :: token_price where
  "free_price = token_price 0 0"

definition free_providers :: "string list" where
  "free_providers = [''stub'']"

definition routing_suffixes :: "string list" where
  "routing_suffixes = [''floor'', ''nitro'', ''beta'', ''extended'', ''thinking'', ''online'']"

definition all_digits :: "nat \<Rightarrow> string \<Rightarrow> bool" where
  "all_digits n s \<longleftrightarrow> length s = n \<and> list_all is_digit s"

text \<open>\<open>\d{4}(?:-\d{2}-\d{2}|-\d{2}|\d{4})?$\<close>\<close>

definition dated :: "string \<Rightarrow> bool" where
  "dated s \<longleftrightarrow> all_digits 4 (take 4 s) \<and>
     (case drop 4 s of
        [] \<Rightarrow> True
      | c # r \<Rightarrow>
          if c = CHR ''-'' then
            all_digits 2 r
            \<or> (all_digits 2 (take 2 r) \<and> take 1 (drop 2 r) = ''-'' \<and> all_digits 2 (drop 3 r))
          else all_digits 4 (c # r))"

text \<open>\<open>-(?:preview-)?\<close> and then a date up to the end\<close>

definition snapshot_at :: "string \<Rightarrow> bool" where
  "snapshot_at s \<longleftrightarrow> (case s of [] \<Rightarrow> False
     | c # t \<Rightarrow> c = CHR ''-'' \<and> (dated t \<or> (take 8 t = ''preview-'' \<and> dated (drop 8 t))))"

fun cut_snapshot :: "string \<Rightarrow> string" where
  "cut_snapshot [] = []"
| "cut_snapshot (c # s) = (if snapshot_at (c # s) then [] else c # cut_snapshot s)"

text \<open>\<open>$\<close> also matches before a final line break, which the replacement leaves in place.\<close>

definition undate :: "string \<Rightarrow> string" where
  "undate s = (if s \<noteq> [] \<and> last s = CHR 0x0A then cut_snapshot (butlast s) @ [CHR 0x0A]
     else cut_snapshot s)"

definition price_for_variant :: "string \<Rightarrow> string \<Rightarrow> token_price option" where
  "price_for_variant provider model =
     (case partition_on (CHR '':'') model of (head, found, route) \<Rightarrow>
        if found \<and> route = ''free'' then Some free_price
        else if found \<and> route \<notin> set routing_suffixes then None
        else let base = (if found then head else model) in
          (case map_of price_book (provider, base) of
             Some p \<Rightarrow> Some p
           | None \<Rightarrow>
               if undate base \<noteq> base then map_of price_book (provider, undate base) else None))"

definition price_for :: "string \<Rightarrow> string \<Rightarrow> token_price option" where
  "price_for provider model =
     (let provider = canonical_provider provider in
      if provider \<in> set free_providers then Some free_price
      else (case map_of price_book (provider, model) of
              Some p \<Rightarrow> Some p
            | None \<Rightarrow> price_for_variant provider model))"

definition known_models :: "(string \<times> string) list" where
  "known_models = sort (map fst price_book)"

section \<open>Which model a response names\<close>

text \<open>
  The specification of \<open>price_for\<close>: a response's model string is a priced model, the priced model
  followed by a dated snapshot, a routing suffix or both, or anything routed as free.
\<close>

definition date_suffix :: "string \<Rightarrow> bool" where
  "date_suffix d \<longleftrightarrow> d = [] \<or> snapshot_at d"

definition route_suffix :: "string \<Rightarrow> bool" where
  "route_suffix r \<longleftrightarrow> r = [] \<or> (\<exists>s\<in>set routing_suffixes. r = CHR '':'' # s)"

definition priced_as :: "string \<Rightarrow> string \<Rightarrow> token_price \<Rightarrow> bool" where
  "priced_as provider model p \<longleftrightarrow>
     (if provider \<in> set free_providers then p = free_price
      else (\<exists>h. model = h @ '':free'' \<and> CHR '':'' \<notin> set h \<and> p = free_price)
         \<or> (\<exists>base d r. model = base @ d @ r \<and> date_suffix d \<and> route_suffix r
              \<and> map_of price_book (provider, base) = Some p))"

lemma partition_on_none [simp]: "c \<notin> set s \<Longrightarrow> partition_on c s = (s, False, [])"
proof -
  assume "c \<notin> set s"
  then have eqs: "takeWhile (\<lambda>x. x \<noteq> c) s = s" "dropWhile (\<lambda>x. x \<noteq> c) s = []"
    by (auto simp: takeWhile_eq_all_conv dropWhile_eq_Nil_conv)
  show ?thesis unfolding partition_on_def Let_def eqs by simp
qed

lemma partition_on_first [simp]: "c \<notin> set h \<Longrightarrow> partition_on c (h @ c # t) = (h, True, t)"
  by (induction h) (auto simp: partition_on_def Let_def split: list.splits)

lemma partition_on_cases:
  obtains (absent) "c \<notin> set s" "partition_on c s = (s, False, [])"
  | (present) h t where "s = h @ c # t" "c \<notin> set h" "partition_on c s = (h, True, t)"
  by (cases "c \<in> set s") (auto dest: split_list_first)

text \<open>The characters of a date: no colon, no line break, never a bare end.\<close>

lemma all_digits_set: "all_digits n s \<Longrightarrow> c \<in> set s \<Longrightarrow> is_digit c"
  by (simp add: all_digits_def list_all_iff)

lemma is_digit_ne [simp]: "\<not> is_digit (CHR '':'')" "\<not> is_digit (CHR ''-'')" "\<not> is_digit (CHR 0x0A)"
  by (simp_all add: is_digit_def)

lemma set_split_at: "c \<in> set s \<Longrightarrow> c \<in> set (take n s) \<or> c \<in> set (drop n s)"
  by (metis Un_iff append_take_drop_id set_append)

lemma dated_chars: "dated s \<Longrightarrow> c \<in> set s \<Longrightarrow> is_digit c \<or> c = CHR ''-''"
proof -
  assume s: "dated s" and c: "c \<in> set s"
  have four: "all_digits 4 (take 4 s)"
    using s by (simp add: dated_def)
  have rest: "c \<in> set (drop 4 s) \<Longrightarrow> is_digit c \<or> c = CHR ''-''"
  proof (cases "drop 4 s")
    case (Cons x r)
    assume "c \<in> set (drop 4 s)"
    then consider "c = x" | "c \<in> set r"
      using Cons by auto
    then show ?thesis
    proof cases
      case 1
      then show ?thesis
        using s Cons by (auto simp: dated_def all_digits_def split: if_splits)
    next
      case 2
      have r: "drop 2 r = take 1 (drop 2 r) @ drop 3 r"
        by (metis append_take_drop_id drop_drop numeral_2_eq_2 numeral_3_eq_3 One_nat_def plus_1_eq_Suc)
      show ?thesis
        using s Cons 2 set_split_at [of c r 2] r
        by (auto simp: dated_def dest: all_digits_set split: if_splits)
    qed
  qed simp
  show ?thesis
    using set_split_at [OF c, of 4] all_digits_set [OF four] rest by blast
qed

lemma snapshot_head: "snapshot_at d \<Longrightarrow> \<exists>t. d = CHR ''-'' # t"
  by (auto simp: snapshot_at_def split: list.splits)

lemma snapshot_chars:
  assumes "snapshot_at d" and "c \<in> set d"
  shows "is_digit c \<or> c \<in> set ''-preview-''"
proof -
  obtain t where d: "d = CHR ''-'' # t"
    using snapshot_head [OF assms(1)] by blast
  from assms(1) d consider "dated t" | "take 8 t = ''preview-''" "dated (drop 8 t)"
    by (auto simp: snapshot_at_def)
  then show ?thesis
  proof cases
    case 1
    then show ?thesis using assms(2) d dated_chars [OF 1] by auto
  next
    case 2
    then show ?thesis
      using assms(2) d dated_chars [OF 2(2)] set_split_at [of c t 8] by auto
  qed
qed

lemma snapshot_no_colon: "snapshot_at d \<Longrightarrow> CHR '':'' \<notin> set d \<and> CHR 0x0A \<notin> set d"
  using snapshot_chars [of d "CHR '':''"] snapshot_chars [of d "CHR 0x0A"] by auto

lemma cut_snapshot_split: "\<exists>d. s = cut_snapshot s @ d \<and> date_suffix d"
proof (induction s)
  case (Cons c s)
  then show ?case
    by (cases "snapshot_at (c # s)") (auto simp: date_suffix_def)
qed (simp add: date_suffix_def)

text \<open>
  What the theorem needs of the book, checked entry by entry: no dash of a model's name starts
  anything that a date appended to it could complete.
\<close>

fun plain_dashes :: "string \<Rightarrow> bool" where
  "plain_dashes [] \<longleftrightarrow> True"
| "plain_dashes (c # s) \<longleftrightarrow>
     (c = CHR ''-'' \<longrightarrow> \<not> all_digits 4 (take 4 s) \<and> take 7 s \<noteq> ''preview'') \<and> plain_dashes s"

lemma not_dated_append:
  assumes "\<not> all_digits 4 (take 4 u)" and "d = [] \<or> (\<exists>t. d = CHR ''-'' # t)"
  shows "\<not> dated (u @ d)"
proof
  assume "dated (u @ d)"
  then have four: "all_digits 4 (take 4 (u @ d))"
    by (simp add: dated_def)
  show False
  proof (cases "4 \<le> length u")
    case True
    then show ?thesis using four assms(1) by simp
  next
    case False
    then obtain t where t: "d = CHR ''-'' # t"
      using four assms(2) by (auto simp: all_digits_def)
    have "CHR ''-'' \<in> set (take 4 (u @ d))"
      using False t by (cases "4 - length u") auto
    then show ?thesis by (metis all_digits_set [OF four] is_digit_ne(2))
  qed
qed

lemma not_preview_append:
  assumes "take 7 u \<noteq> ''preview''" and "d = [] \<or> (\<exists>t. d = CHR ''-'' # t)"
  shows "take 8 (u @ d) \<noteq> ''preview-''"
proof
  assume pre: "take 8 (u @ d) = ''preview-''"
  show False
  proof (cases "7 \<le> length u")
    case True
    then have "take 7 u = take 7 (take 8 (u @ d))" by simp
    then have "take 7 u = take 7 ''preview-''" unfolding pre .
    then show ?thesis using assms(1) by simp
  next
    case False
    have "length (take 8 (u @ d)) = 8"
      unfolding pre by simp
    then obtain t where t: "d = CHR ''-'' # t"
      using assms(2) False by (auto simp: min_def split: if_splits)
    have "take 8 (u @ d) ! length u = CHR ''-''" "length u < 7"
      using False t by (simp_all add: nth_append)
    moreover have "\<forall>i<7. ''preview-'' ! i \<noteq> CHR ''-''"
      by (simp add: All_less_Suc eval_nat_numeral)
    ultimately show ?thesis using pre by simp
  qed
qed

lemma cut_snapshot_plain:
  "plain_dashes base \<Longrightarrow> date_suffix d \<Longrightarrow> cut_snapshot (base @ d) = base"
proof (induction base)
  case Nil
  then show ?case by (cases d) (auto simp: date_suffix_def)
next
  case (Cons c u)
  have d: "d = [] \<or> (\<exists>t. d = CHR ''-'' # t)"
    using Cons.prems snapshot_head by (auto simp: date_suffix_def)
  have "\<not> snapshot_at (c # u @ d)"
    using Cons.prems not_dated_append [OF _ d, of u] not_preview_append [OF _ d, of u]
    by (auto simp: snapshot_at_def)
  then show ?case using Cons by simp
qed

lemma book_entries:
  "list_all (\<lambda>((prov, base), p). plain_dashes base \<and> base \<noteq> [] \<and> CHR '':'' \<notin> set base
     \<and> CHR 0x0A \<notin> set base \<and> prov \<notin> set free_providers) price_book"
  by code_simp

lemma book_model:
  assumes "map_of price_book (prov, base) = Some p"
  shows "plain_dashes base" "base \<noteq> []" "CHR '':'' \<notin> set base" "CHR 0x0A \<notin> set base"
    "prov \<notin> set free_providers"
  using book_entries map_of_SomeD [OF assms] by (auto simp: list_all_iff)

lemma undate_book:
  assumes base: "map_of price_book (prov, base) = Some p" and d: "date_suffix d"
  shows "undate (base @ d) = base"
proof -
  have "CHR 0x0A \<notin> set (base @ d)"
    using book_model(4) [OF base] d snapshot_no_colon by (auto simp: date_suffix_def)
  then have "last (base @ d) \<noteq> CHR 0x0A"
    using book_model(2) [OF base] by (metis Nil_is_append_conv last_in_set)
  then show ?thesis
    using cut_snapshot_plain [OF book_model(1) [OF base] d] by (simp add: undate_def)
qed

lemma undate_found:
  assumes "map_of price_book (prov, undate s) = Some p"
  shows "\<exists>d. s = undate s @ d \<and> date_suffix d"
proof -
  have "undate s = cut_snapshot s"
    using book_model(4) [OF assms] by (auto simp: undate_def split: if_splits)
  then show ?thesis using cut_snapshot_split by simp
qed

text \<open>A dated name is no entry of its own.\<close>

lemma book_undated:
  assumes "map_of price_book (prov, base) = Some p"
    and "map_of price_book (prov, base @ d) = Some q" and "date_suffix d"
  shows "d = []"
  using undate_book [OF assms(1,3)] undate_book [OF assms(2), of "[]"]
  by (simp add: date_suffix_def)

lemma price_for_variant_iff:
  assumes "prov \<notin> set free_providers" and "map_of price_book (prov, model) = None"
  shows "price_for_variant prov model = Some p \<longleftrightarrow> priced_as prov model p"
proof
  assume lhs: "price_for_variant prov model = Some p"
  have found: "\<exists>b d. base = b @ d \<and> date_suffix d \<and> map_of price_book (prov, b) = Some p"
    if "(case map_of price_book (prov, base) of Some p \<Rightarrow> Some p
         | None \<Rightarrow> if undate base \<noteq> base then map_of price_book (prov, undate base) else None)
       = Some p" for base
  proof (cases "map_of price_book (prov, base)")
    case None
    then have "map_of price_book (prov, undate base) = Some p"
      using that by (simp split: if_splits)
    then show ?thesis using undate_found by blast
  next
    case (Some q)
    then show ?thesis using that
      by (intro exI [of _ base] exI [of _ "[]"]) (simp add: date_suffix_def)
  qed
  show "priced_as prov model p"
  proof (cases rule: partition_on_cases [of "CHR '':''" model])
    case absent
    then show ?thesis
      using lhs found [of model] assms(1)
      by (fastforce simp: price_for_variant_def priced_as_def route_suffix_def)
  next
    case (present h t)
    show ?thesis
    proof (cases "t = ''free''")
      case True
      then show ?thesis
        using lhs present assms(1) by (auto simp: price_for_variant_def priced_as_def)
    next
      case False
      then obtain b d where bd: "h = b @ d" "date_suffix d" "map_of price_book (prov, b) = Some p"
        using lhs present found [of h] by (auto simp: price_for_variant_def split: if_splits)
      have "t \<in> set routing_suffixes"
        using lhs present False by (auto simp: price_for_variant_def split: if_splits)
      then have "model = b @ d @ CHR '':'' # t \<and> route_suffix (CHR '':'' # t)"
        using present bd by (simp add: route_suffix_def)
      then show ?thesis using bd assms(1) unfolding priced_as_def by auto
    qed
  qed
next
  assume "priced_as prov model p"
  then consider h where "model = h @ CHR '':'' # ''free''" "CHR '':'' \<notin> set h" "p = free_price"
    | b d r where "model = b @ d @ r" "date_suffix d" "route_suffix r"
      "map_of price_book (prov, b) = Some p"
    using assms(1) by (auto simp: priced_as_def)
  then show "price_for_variant prov model = Some p"
  proof cases
    case 1
    then show ?thesis by (simp add: price_for_variant_def)
  next
    case 2
    have base: "(case map_of price_book (prov, b @ d) of Some p \<Rightarrow> Some p
        | None \<Rightarrow> if undate (b @ d) \<noteq> b @ d then map_of price_book (prov, undate (b @ d)) else None)
        = Some p"
      using 2(2,4) book_undated [OF 2(4)] undate_book [OF 2(4,2)]
      by (cases "d = []") (auto split: option.splits)
    have colon: "CHR '':'' \<notin> set (b @ d)"
      using book_model(3) [OF 2(4)] 2(2) snapshot_no_colon by (auto simp: date_suffix_def)
    show ?thesis
    proof (cases r)
      case Nil
      then show ?thesis using base colon 2(1) by (simp add: price_for_variant_def)
    next
      case (Cons c s)
      then have "c = CHR '':''" "s \<in> set routing_suffixes" "s \<noteq> ''free''"
        using 2(3) by (auto simp: route_suffix_def routing_suffixes_def)
      then show ?thesis
        using base partition_on_first [OF colon, of s] 2(1) Cons
        by (simp add: price_for_variant_def)
    qed
  qed
qed

lemma price_for_iff:
  "price_for prov model = Some p \<longleftrightarrow> priced_as (canonical_provider prov) model p"
proof (cases "canonical_provider prov \<in> set free_providers")
  case True
  then show ?thesis by (auto simp: price_for_def priced_as_def)
next
  case False
  show ?thesis
  proof (cases "map_of price_book (canonical_provider prov, model)")
    case None
    then show ?thesis
      using price_for_variant_iff [OF False None] False by (simp add: price_for_def Let_def)
  next
    case (Some q)
    have "priced_as (canonical_provider prov) model p \<longleftrightarrow> p = q"
    proof
      assume "priced_as (canonical_provider prov) model p"
      then obtain b d r where m: "model = b @ d @ r" "date_suffix d" "route_suffix r"
        "map_of price_book (canonical_provider prov, b) = Some p"
        using False book_model(3) [OF Some] by (auto simp: priced_as_def)
      have "r = []"
        using m(1,3) book_model(3) [OF Some] by (auto simp: route_suffix_def)
      moreover have "d = []"
        using book_undated [OF m(4)] Some m(1,2) \<open>r = []\<close> by auto
      ultimately show "p = q" using m Some by simp
    next
      assume "p = q"
      then show "priced_as (canonical_provider prov) model p"
        using Some False unfolding priced_as_def
        by (simp add: date_suffix_def route_suffix_def) (metis append_Nil2)
    qed
    then show ?thesis using Some False by (auto simp: price_for_def)
  qed
qed

text \<open>C14: What a call is priced at. \<open>price_for\<close> decides exactly the specification \<open>priced_as\<close>: a
  response's model gets the price of the book's model it is a dated snapshot or a routed variant
  of, the price zero when it is routed as free or comes from the stub, and no price otherwise. In
  particular a longer name (a lite, image or realtime sibling) is never billed at the rate of the
  shorter one.\<close>
theorem price_for_is_exact:
  "price_for prov model = Some p \<longleftrightarrow> priced_as (canonical_provider prov) model p"
  by (rule price_for_iff)

section \<open>Who a call is for\<close>

datatype call_site = Answer | Condense | Alias_intent | Ingest | Eval | Self_check | Unknown_site

datatype paid_by = Platform | User_key

record billing =
  bill_user :: "user_id option"
  bill_paid_by :: paid_by

definition nobody :: billing where
  "nobody = \<lparr>bill_user = None, bill_paid_by = Platform\<rparr>"

text \<open>
  The context variables of one task. \<open>call_site\<close> and \<open>billed_to\<close> set one for the body of a block
  and restore the old value on every exit: the block's body is a function of the context.
\<close>

record ambience =
  amb_site :: call_site
  amb_billing :: billing
  amb_request :: string

definition in_call_site :: "call_site \<Rightarrow> (ambience \<Rightarrow> 'a \<times> ambience) \<Rightarrow> ambience \<Rightarrow> 'a \<times> ambience" where
  "in_call_site site body a =
     (case body (a\<lparr>amb_site := site\<rparr>) of (r, a') \<Rightarrow> (r, a'\<lparr>amb_site := amb_site a\<rparr>))"

definition billed_to ::
    "user_id option \<Rightarrow> paid_by \<Rightarrow> (ambience \<Rightarrow> 'a \<times> ambience) \<Rightarrow> ambience \<Rightarrow> 'a \<times> ambience" where
  "billed_to u paid body a =
     (case body (a\<lparr>amb_billing := \<lparr>bill_user = u, bill_paid_by = paid\<rparr>\<rparr>) of
        (r, a') \<Rightarrow> (r, a'\<lparr>amb_billing := amb_billing a\<rparr>))"

text \<open>Nesting restores: after a labelled block inside a labelled block the outer label is back.\<close>

lemma in_call_site_restores [simp]: "amb_site (snd (in_call_site site body a)) = amb_site a"
  by (simp add: in_call_site_def split: prod.splits)

lemma billed_to_restores [simp]: "amb_billing (snd (billed_to u paid body a)) = amb_billing a"
  by (simp add: billed_to_def split: prod.splits)

section \<open>Embedding usage\<close>

record embedding_usage =
  eu_tokens :: int
  eu_requests :: int
  eu_reported :: int

definition no_usage :: embedding_usage where
  "no_usage = \<lparr>eu_tokens = 0, eu_requests = 0, eu_reported = 0\<rparr>"

definition fully_reported :: "embedding_usage \<Rightarrow> bool" where
  "fully_reported u \<longleftrightarrow> eu_requests u > 0 \<and> eu_reported u = eu_requests u"

text \<open>The collector in force is an option: with none installed the report is dropped.\<close>

definition report_embedding_usage ::
    "int option \<Rightarrow> int \<Rightarrow> embedding_usage option \<Rightarrow> embedding_usage option" where
  "report_embedding_usage tokens reqs collector =
     (case collector of
        None \<Rightarrow> None
      | Some u \<Rightarrow>
          let u = u\<lparr>eu_requests := eu_requests u + max 1 reqs\<rparr> in
          (case tokens of
             None \<Rightarrow> Some u
           | Some n \<Rightarrow>
               if n \<le> 0 then Some u
               else Some (u\<lparr>eu_tokens := eu_tokens u + n, eu_reported := eu_reported u + 1\<rparr>)))"

section \<open>Token counts\<close>

definition chars_per_token :: int where
  "chars_per_token = 4"

record llm_result =
  res_text :: string
  res_input :: int
  res_output :: int
  res_model :: string
  res_provider :: string

definition resolve_tokens :: "llm_result \<Rightarrow> int \<Rightarrow> int \<Rightarrow> int \<times> int \<times> bool" where
  "resolve_tokens res prompt_chars max_tokens =
     (if res_input res > 0 \<or> res_output res > 0 then (res_input res, res_output res, False)
      else (max 1 (prompt_chars div chars_per_token),
            if res_text res \<noteq> [] then max 1 (int (length (res_text res)) div chars_per_token)
            else max_tokens,
            True))"

definition resolve_embedding_tokens :: "embedding_usage \<Rightarrow> int \<Rightarrow> int \<times> bool" where
  "resolve_embedding_tokens u chars =
     (let estimate = max 1 (chars div chars_per_token) in
      if fully_reported u then (eu_tokens u, False) else (max estimate (eu_tokens u), True))"

section \<open>The row of a call\<close>

datatype call_kind = Llm | Embedding

record provider_call =
  pc_at :: timestamp
  pc_user :: "user_id option"
  pc_paid_by :: paid_by
  pc_kind :: call_kind
  pc_site :: call_site
  pc_provider :: string
  pc_model :: string
  pc_input :: int
  pc_output :: int
  pc_attempts :: int
  pc_cost :: usd
  pc_rates :: "(usd \<times> usd) option"
  pc_priced :: bool
  pc_estimated :: bool
  pc_request :: "string option"

definition build_call ::
    "ambience \<Rightarrow> timestamp \<Rightarrow> call_kind \<Rightarrow> string \<Rightarrow> string \<Rightarrow> int \<Rightarrow> int \<Rightarrow> int \<Rightarrow> bool
       \<Rightarrow> string option \<Rightarrow> call_site option \<Rightarrow> provider_call" where
  "build_call a now kind provider model i out attempts estimated request site =
     (let price = price_for provider model in
      \<lparr>pc_at = now, pc_user = bill_user (amb_billing a), pc_paid_by = bill_paid_by (amb_billing a),
       pc_kind = kind, pc_site = (case site of Some s \<Rightarrow> s | None \<Rightarrow> amb_site a),
       pc_provider = provider, pc_model = model,
       pc_input = max 0 i, pc_output = max 0 out, pc_attempts = max 1 attempts,
       pc_cost = (case price of Some p \<Rightarrow> cost_for p i out | None \<Rightarrow> 0),
       pc_rates = map_option (\<lambda>p. (input_per_1m p, output_per_1m p)) price,
       pc_priced = (price \<noteq> None), pc_estimated = estimated, pc_request = request\<rparr>)"

text \<open>The ambient request id, with the empty one normalised away.\<close>

definition current_request_id :: "ambience \<Rightarrow> string option" where
  "current_request_id a = (if amb_request a = [] then None else Some (amb_request a))"

definition llm_call :: "ambience \<Rightarrow> timestamp \<Rightarrow> llm_result \<Rightarrow> int \<Rightarrow> int \<Rightarrow> provider_call" where
  "llm_call a now res prompt_chars max_tokens =
     (case resolve_tokens res prompt_chars max_tokens of (i, out, est) \<Rightarrow>
        build_call a now Llm (res_provider res) (res_model res) i out 1 est
          (current_request_id a) None)"

definition embedding_call ::
    "ambience \<Rightarrow> timestamp \<Rightarrow> string \<Rightarrow> string \<Rightarrow> embedding_usage \<Rightarrow> int \<Rightarrow> call_site \<Rightarrow> provider_call" where
  "embedding_call a now provider model u chars default_site =
     (case resolve_embedding_tokens u chars of (i, est) \<Rightarrow>
        build_call a now Embedding (canonical_provider provider) model i 0 (max 1 (eu_requests u)) est
          (current_request_id a)
          (Some (if amb_site a = Unknown_site then default_site else amb_site a)))"

text \<open>\<open>Numeric(14, 6)\<close>: a cost is stored to the nearest millionth of a dollar, halves upwards.\<close>

definition numeric6 :: "usd \<Rightarrow> usd" where
  "numeric6 x = of_int \<lfloor>x * 1000000 + 1 / 2\<rfloor> / 1000000"

lemma numeric6_close: "\<bar>numeric6 x - x\<bar> \<le> 1 / 2000000"
proof -
  have "of_int \<lfloor>x * 1000000 + 1 / 2\<rfloor> \<le> x * 1000000 + 1 / 2"
    "x * 1000000 + 1 / 2 < of_int \<lfloor>x * 1000000 + 1 / 2\<rfloor> + 1"
    using floor_correct [of "x * 1000000 + 1 / 2"] by simp_all
  then have "numeric6 x - x \<le> 1 / 2000000" "x - numeric6 x \<le> 1 / 2000000"
    by (simp_all add: numeric6_def field_simps)
  then show ?thesis by linarith
qed

lemma numeric6_mono: "x \<le> y \<Longrightarrow> numeric6 x \<le> numeric6 y"
  by (simp add: numeric6_def divide_right_mono floor_mono)

lemma numeric6_nonneg: "0 \<le> x \<Longrightarrow> 0 \<le> numeric6 x"
  by (simp add: numeric6_def)

section \<open>What the meter records\<close>

text \<open>The usage one call collects: the reports of its provider requests, in order.\<close>

definition collected :: "(int option \<times> int) list \<Rightarrow> embedding_usage" where
  "collected reports =
     the (foldl (\<lambda>u (tokens, reqs). report_embedding_usage tokens reqs u) (Some no_usage) reports)"

lemma report_without_collector [simp]: "report_embedding_usage tokens reqs None = None"
  by (simp add: report_embedding_usage_def)

definition usage_ok :: "embedding_usage \<Rightarrow> bool" where
  "usage_ok u \<longleftrightarrow> 0 \<le> eu_reported u \<and> eu_reported u \<le> eu_requests u \<and> eu_reported u \<le> eu_tokens u"

lemma report_keeps_usage_ok:
  "usage_ok u \<Longrightarrow> \<exists>u'. report_embedding_usage tokens reqs (Some u) = Some u' \<and> usage_ok u'
     \<and> eu_tokens u \<le> eu_tokens u' \<and> eu_requests u + max 1 reqs = eu_requests u'"
  by (auto simp: report_embedding_usage_def usage_ok_def Let_def split: option.splits)

lemma collected_from:
  "usage_ok u \<Longrightarrow> \<exists>u'. foldl (\<lambda>u (tokens, reqs). report_embedding_usage tokens reqs u) (Some u) reports
     = Some u' \<and> usage_ok u' \<and> eu_requests u' = eu_requests u + (\<Sum>(t, r)\<leftarrow>reports. max 1 r)"
proof (induction reports arbitrary: u)
  case (Cons rep reports)
  obtain t r where rep: "rep = (t, r)" by force
  obtain u' where u': "report_embedding_usage t r (Some u) = Some u'" "usage_ok u'"
    "eu_requests u + max 1 r = eu_requests u'"
    using report_keeps_usage_ok [OF Cons.prems] by blast
  then show ?case
    using Cons.IH [OF u'(2)] rep by auto
qed simp

lemma collected_usage_ok: "usage_ok (collected reports)"
  and collected_requests: "eu_requests (collected reports) = (\<Sum>(t, r)\<leftarrow>reports. max 1 r)"
  using collected_from [of no_usage reports] by (auto simp: collected_def usage_ok_def no_usage_def)

lemma resolve_embedding_tokens_pos: "1 \<le> fst (resolve_embedding_tokens (collected reports) chars)"
  using collected_usage_ok [of reports]
  by (auto simp: resolve_embedding_tokens_def fully_reported_def usage_ok_def Let_def)

lemma resolve_tokens_pos:
  assumes "resolve_tokens res n m = (i, out, est)" and "0 \<le> res_input res" and "0 \<le> res_output res"
    and "0 < m"
  shows "0 \<le> i" "0 \<le> out" "0 < i \<or> 0 < out" "est \<longleftrightarrow> res_input res = 0 \<and> res_output res = 0"
  using assms by (auto simp: resolve_tokens_def split: if_splits)

lemma cost_for_pos:
  assumes "0 \<le> i" and "0 \<le> out" and "0 < i \<or> 0 < out" and "0 < input_per_1m p" and "0 < output_per_1m p"
  shows "0 < cost_for p i out"
proof -
  have "0 \<le> of_int i * input_per_1m p" "0 \<le> of_int out * output_per_1m p"
    using assms by simp_all
  moreover have "0 < of_int i * input_per_1m p \<or> 0 < of_int out * output_per_1m p"
    using assms by auto
  ultimately show ?thesis by (auto simp: cost_for_def)
qed

lemma paid_call_is_never_free_parts:
  assumes price: "price_for (res_provider res) (res_model res) = Some p"
    and rates: "0 < input_per_1m p" "0 < output_per_1m p"
    and counts: "0 \<le> res_input res" "0 \<le> res_output res" "0 < max_tokens"
  shows "0 < pc_cost (llm_call a now res prompt_chars max_tokens)"
    and "pc_estimated (llm_call a now res prompt_chars max_tokens) \<longleftrightarrow>
           res_input res = 0 \<and> res_output res = 0"
    and "\<exists>i est. resolve_embedding_tokens (collected reports) chars = (i, est) \<and> 1 \<le> i
           \<and> eu_tokens (collected reports) \<le> i
           \<and> (est \<longleftrightarrow> \<not> fully_reported (collected reports)) \<and> (est \<longrightarrow> chars div 4 \<le> i)"
proof -
  obtain i out est where t: "resolve_tokens res prompt_chars max_tokens = (i, out, est)"
    using prod_cases3 by blast
  note pos = resolve_tokens_pos [OF t counts]
  show "0 < pc_cost (llm_call a now res prompt_chars max_tokens)"
    using cost_for_pos [OF pos(1-3) rates] price t by (simp add: llm_call_def build_call_def)
  show "pc_estimated (llm_call a now res prompt_chars max_tokens) \<longleftrightarrow>
      res_input res = 0 \<and> res_output res = 0"
    using pos(4) t by (simp add: llm_call_def build_call_def Let_def)
  show "\<exists>i est. resolve_embedding_tokens (collected reports) chars = (i, est) \<and> 1 \<le> i
      \<and> eu_tokens (collected reports) \<le> i
      \<and> (est \<longleftrightarrow> \<not> fully_reported (collected reports)) \<and> (est \<longrightarrow> chars div 4 \<le> i)"
    using resolve_embedding_tokens_pos [of reports chars]
    by (auto simp: resolve_embedding_tokens_def Let_def chars_per_token_def)
qed


definition demo_result :: llm_result where
  "demo_result = \<lparr>res_text = ''See [1].'', res_input = 0, res_output = 0,
     res_model = ''openai/gpt-4o-mini-2024-07-18:floor'', res_provider = ''router''\<rparr>"

definition demo_ambience :: ambience where
  "demo_ambience = \<lparr>amb_site = Unknown_site, amb_billing = nobody, amb_request = []\<rparr>"

lemma demo_price: "price_for (res_provider demo_result) (res_model demo_result)
    = Some (token_price (15 / 100) (60 / 100))"
  by code_simp


text \<open>
  The column is coarser than the computed cost: the query embedding of twenty reported tokens is
  charged, but is stored as zero dollars.
\<close>

definition demo_query_embedding :: provider_call where
  "demo_query_embedding = embedding_call demo_ambience
     0 ''openrouter'' ''openai/text-embedding-3-small'' (collected [(Some 20, 1)]) 80 Answer"

lemma short_query_is_stored_free:
  "pc_priced demo_query_embedding \<and> \<not> pc_estimated demo_query_embedding
     \<and> pc_input demo_query_embedding = 20
     \<and> 0 < pc_cost demo_query_embedding \<and> numeric6 (pc_cost demo_query_embedding) = 0"
  by code_simp

text \<open>A request that succeeded on its second attempt reports its tokens and is still an estimate.\<close>

lemma retried_request_is_an_estimate:
  "resolve_embedding_tokens (collected [(Some 20, 2)]) 400 = (100, True)"
  by code_simp

text \<open>Every paid call's row says at least one attempt, and prices exactly when it has rates.\<close>

lemma build_call_row:
  "pc_attempts (build_call a now k prov m i out n e r s) \<ge> 1"
  "pc_input (build_call a now k prov m i out n e r s) \<ge> 0"
  "pc_output (build_call a now k prov m i out n e r s) \<ge> 0"
  "pc_priced (build_call a now k prov m i out n e r s) \<longleftrightarrow> pc_rates (build_call a now k prov m i out n e r s) \<noteq> None"
  "\<not> pc_priced (build_call a now k prov m i out n e r s) \<Longrightarrow> pc_cost (build_call a now k prov m i out n e r s) = 0"
  by (auto simp: build_call_def Let_def)

text \<open>The label of an embedding is its method's unless the block around it says otherwise.\<close>

lemma embedding_call_site:
  "pc_site (embedding_call a now prov m u chars s) = (if amb_site a = Unknown_site then s else amb_site a)"
  by (simp add: embedding_call_def build_call_def Let_def split: prod.splits)

text \<open>Rates are never negative, so neither is the cost of a call.\<close>

lemma book_rates:
  "list_all (\<lambda>(k, p). 0 \<le> input_per_1m p \<and> 0 \<le> output_per_1m p) price_book"
  by code_simp

lemma price_for_nonneg:
  "price_for prov model = Some p \<Longrightarrow> 0 \<le> input_per_1m p \<and> 0 \<le> output_per_1m p"
proof -
  assume "price_for prov model = Some p"
  then have "p = free_price \<or> (\<exists>k. map_of price_book k = Some p)"
    by (auto simp: price_for_iff priced_as_def split: if_splits)
  then show ?thesis
    using book_rates map_of_SomeD
    by (fastforce simp: free_price_def token_price_def list_all_iff)
qed

end
