(* ===== verification/Embedding_Clients.thy ===== *)
theory Embedding_Clients
  imports Provider_Http Pricing Index_Promotion
begin

text \<open>
  The embedders: the OpenRouter and Gemini clients of \<open>app/embeddings/openrouter.py\<close> and
  \<open>gemini.py\<close>, the stub and null embedders and the factory. A client is given the server it talks
  to: what the n-th request of the run gets, for the inputs it carries. A call returns its outcome,
  the usage it reported to the meter and the number of the next request. Log lines and the exact
  URLs and headers are not modelled.
\<close>

section \<open>Errors\<close>

datatype unavailable_reason =
    Empty_text | Too_long | Malformed_item | Missing_array | Non_numeric | Wrong_dim | Wrong_count
  | Transport_error | Error_status | Non_json_body | Request_timed_out

text \<open>
  \<open>EmbedderUnavailable\<close> with its status code and the verdict on the account, or another exception
  that no handler of the client turns into one.
\<close>

datatype escape = Attribute_error | Overflow_error | Decode_error

datatype emb_error = Unavailable unavailable_reason "nat option" bool | Escaped escape

definition unavailable :: "unavailable_reason \<Rightarrow> emb_error" where
  "unavailable why = Unavailable why None False"

definition unavailable_statuses :: "nat list" where
  "unavailable_statuses = [408, 429, 500, 502, 503, 504]"

section \<open>One request with its retries\<close>

text \<open>Seconds slept before an attempt.\<close>

definition backoff :: "rat \<Rightarrow> nat \<Rightarrow> rat" where
  "backoff base attempt = (if attempt > 0 \<and> base > 0 then base * 2 ^ (attempt - 1) else 0)"

text \<open>
  The loop of \<open>_post\<close>: \<open>attempt\<close> requests were made, \<open>left\<close> may still be, \<open>final\<close> is what is raised
  when none is left. The result is the body with the number of requests it took, and the number of
  requests made either way.
\<close>

fun post_from ::
    "(nat \<Rightarrow> body \<Rightarrow> bool) \<Rightarrow> (nat \<Rightarrow> http_reply) \<Rightarrow> nat \<Rightarrow> emb_error \<Rightarrow> nat \<Rightarrow> (emb_error + json) \<times> nat" where
  "post_from refused reply attempt final 0 = (Inl final, attempt)"
| "post_from refused reply attempt final (Suc left) =
     (case reply attempt of
        Timed_out \<Rightarrow> post_from refused reply (attempt + 1) (unavailable Request_timed_out) left
      | Transport_failed \<Rightarrow> (Inl (unavailable Transport_error), attempt + 1)
      | Replied status b \<Rightarrow>
          if status \<in> set unavailable_statuses then
            post_from refused reply (attempt + 1) (Unavailable Error_status (Some status) False) left
          else if status \<ge> 400 then
            (Inl (Unavailable Error_status (Some status) (refused status b)), attempt + 1)
          else (case b of
                  Not_json \<Rightarrow> (Inl (unavailable Non_json_body), attempt + 1)
                | Undecodable \<Rightarrow> (Inl (Escaped Decode_error), attempt + 1)
                | Json j \<Rightarrow> (Inr j, attempt + 1)))"

type_synonym report = "int option \<times> int"
type_synonym 'a call = "(emb_error + 'a) \<times> report list \<times> nat"

section \<open>OpenRouter\<close>

fun first_count :: "obj \<Rightarrow> string list \<Rightarrow> int option" where
  "first_count usage [] = None"
| "first_count usage (key # keys) =
     (case jget usage key of
        JInt i \<Rightarrow> if i > 0 then Some i else first_count usage keys
      | _ \<Rightarrow> first_count usage keys)"

definition prompt_tokens :: "obj \<Rightarrow> int option" where
  "prompt_tokens body =
     (case jget body ''usage'' of
        JObj usage \<Rightarrow> first_count usage [''prompt_tokens'', ''total_tokens'']
      | _ \<Rightarrow> None)"

definition openrouter_refused :: "nat \<Rightarrow> body \<Rightarrow> bool" where
  "openrouter_refused status b \<longleftrightarrow> status \<in> {401, 402}"

definition openrouter_post :: "nat \<Rightarrow> (nat \<Rightarrow> http_reply) \<Rightarrow> obj call" where
  "openrouter_post max_retries reply =
     (case post_from openrouter_refused reply 0 (unavailable Request_timed_out) (max_retries + 1) of
        (Inl e, k) \<Rightarrow> (Inl e, [], k)
      | (Inr (JObj d), k) \<Rightarrow> (Inr d, [(prompt_tokens d, int k)], k)
      | (Inr _, k) \<Rightarrow> (Inl (Escaped Attribute_error), [], k))"

text \<open>\<open>[float(v) for v in values]\<close>\<close>

fun float_list :: "json list \<Rightarrow> emb_error + pyfloat list" where
  "float_list [] = Inr []"
| "float_list (v # vs) =
     (case coerce_float v of
        Bad_value \<Rightarrow> Inl (unavailable Non_numeric)
      | Overflowed \<Rightarrow> Inl (Escaped Overflow_error)
      | Coerced x \<Rightarrow> and_then (float_list vs) (\<lambda>xs. Inr (x # xs)))"

definition extract_from :: "string \<Rightarrow> nat \<Rightarrow> json \<Rightarrow> emb_error + pyfloat list" where
  "extract_from key width item =
     (case item of
        JObj d \<Rightarrow>
          (case jget d key of
             JArr values \<Rightarrow>
               if values = [] then Inl (unavailable Missing_array)
               else and_then (float_list values)
                 (\<lambda>v. if length v \<noteq> width then Inl (unavailable Wrong_dim) else Inr v)
           | _ \<Rightarrow> Inl (unavailable Missing_array))
      | _ \<Rightarrow> Inl (unavailable Malformed_item))"

definition extract_vector :: "nat \<Rightarrow> json \<Rightarrow> emb_error + pyfloat list" where
  "extract_vector width item = extract_from ''embedding'' width item"

fun extract_all :: "(json \<Rightarrow> emb_error + pyfloat list) \<Rightarrow> json list \<Rightarrow> emb_error + pyfloat list list" where
  "extract_all extract [] = Inr []"
| "extract_all extract (r # rs) =
     and_then (extract r) (\<lambda>v. and_then (extract_all extract rs) (\<lambda>vs. Inr (v # vs)))"

text \<open>The indices of the rows; \<open>None\<close> when one of them is not a number (the \<open>except\<close> of the source).\<close>

fun read_indices :: "json list \<Rightarrow> escape + int list option" where
  "read_indices [] = Inr (Some [])"
| "read_indices (r # rs) =
     (case r of
        JObj d \<Rightarrow>
          (case coerce_int (jget d ''index'') of
             Bad_value \<Rightarrow> Inr None
           | Overflowed \<Rightarrow> Inl Overflow_error
           | Coerced i \<Rightarrow> and_then (read_indices rs) (\<lambda>is. Inr (map_option ((#) i) is)))
      | _ \<Rightarrow> Inl Attribute_error)"

definition place_rows :: "int list \<Rightarrow> json list \<Rightarrow> json list" where
  "place_rows idx rows =
     foldl (\<lambda>out (i, row). out[nat i := row]) (replicate (length rows) JNull) (zip idx rows)"

definition order_by_index :: "json list \<Rightarrow> escape + json list" where
  "order_by_index rows =
     and_then (read_indices rows)
       (\<lambda>found. case found of
          None \<Rightarrow> Inr rows
        | Some idx \<Rightarrow>
            if sort idx \<noteq> map int [0..<length rows] then Inr rows else Inr (place_rows idx rows))"

text \<open>The body of a sub-batch read: the count check, the order and the vectors.\<close>

definition openrouter_vectors :: "nat \<Rightarrow> nat \<Rightarrow> obj \<Rightarrow> emb_error + pyfloat list list" where
  "openrouter_vectors width n d =
     (case jget d ''data'' of
        JArr rows \<Rightarrow>
          if length rows \<noteq> n then Inl (unavailable Wrong_count)
          else (case order_by_index rows of
                  Inl x \<Rightarrow> Inl (Escaped x)
                | Inr ordered \<Rightarrow> extract_all (extract_vector width) ordered)
      | _ \<Rightarrow> Inl (unavailable Missing_array))"

type_synonym server = "string list \<Rightarrow> nat \<Rightarrow> http_reply"

record emb_config =
  ec_dim :: nat
  ec_retries :: nat

definition openrouter_inputs :: "emb_config \<Rightarrow> server \<Rightarrow> string list \<Rightarrow> nat \<Rightarrow> pyfloat list list call" where
  "openrouter_inputs cfg server inputs n =
     (case openrouter_post (ec_retries cfg) (\<lambda>k. server inputs (n + k)) of
        (Inl e, reports, k) \<Rightarrow> (Inl e, reports, n + k)
      | (Inr d, reports, k) \<Rightarrow> (openrouter_vectors (ec_dim cfg) (length inputs) d, reports, n + k))"

definition max_input_chars :: nat where
  "max_input_chars = 8000"

definition guard_input :: "string \<Rightarrow> emb_error + unit" where
  "guard_input text =
     (if text = [] \<or> strip text = [] then Inl (unavailable Empty_text)
      else if length text > max_input_chars then Inl (unavailable Too_long)
      else Inr ())"

fun guard_all :: "string list \<Rightarrow> emb_error + unit" where
  "guard_all [] = Inr ()"
| "guard_all (t # ts) = and_then (guard_input t) (\<lambda>_. guard_all ts)"

text \<open>\<open>for start in range(0, len(texts), step)\<close>: the batches in order, the first failure ends the loop.\<close>

function embed_batches ::
    "(string list \<Rightarrow> nat \<Rightarrow> pyfloat list list call) \<Rightarrow> nat \<Rightarrow> string list \<Rightarrow> nat \<Rightarrow> pyfloat list list call" where
  "embed_batches batch step texts n =
     (if texts = [] \<or> step = 0 then (Inr [], [], n)
      else (case batch (take step texts) n of
              (Inl e, reports, n') \<Rightarrow> (Inl e, reports, n')
            | (Inr vs, reports, n') \<Rightarrow>
                (case embed_batches batch step (drop step texts) n' of
                   (Inl e, later, n'') \<Rightarrow> (Inl e, reports @ later, n'')
                 | (Inr ws, later, n'') \<Rightarrow> (Inr (vs @ ws), reports @ later, n''))))"
  by pat_completeness auto
termination
  by (relation "measure (\<lambda>(_, _, texts, _). length texts)") auto

declare embed_batches.simps [simp del]

definition openrouter_batch_size :: nat where
  "openrouter_batch_size = 96"

definition openrouter_documents :: "emb_config \<Rightarrow> server \<Rightarrow> string list \<Rightarrow> nat \<Rightarrow> pyfloat list list call" where
  "openrouter_documents cfg server texts n =
     (if texts = [] then (Inr [], [], n)
      else (case guard_all texts of
              Inl e \<Rightarrow> (Inl e, [], n)
            | Inr _ \<Rightarrow> embed_batches (openrouter_inputs cfg server) openrouter_batch_size texts n))"

definition openrouter_embed :: "emb_config \<Rightarrow> server \<Rightarrow> string \<Rightarrow> nat \<Rightarrow> pyfloat list call" where
  "openrouter_embed cfg server text n =
     (case guard_input text of
        Inl e \<Rightarrow> (Inl e, [], n)
      | Inr _ \<Rightarrow>
          (case openrouter_inputs cfg server [text] n of
             (Inl e, reports, n') \<Rightarrow> (Inl e, reports, n')
           | (Inr vs, reports, n') \<Rightarrow> (Inr (hd vs), reports, n')))"

section \<open>Gemini\<close>

definition account_refusal_statuses :: "nat list" where
  "account_refusal_statuses = [401, 402, 403]"

definition key_refusal_reasons :: "string list" where
  "key_refusal_reasons = [''API_KEY_INVALID'', ''API_KEY_EXPIRED'']"

definition names_a_bad_key :: "json \<Rightarrow> bool" where
  "names_a_bad_key b =
     (case b of
        JObj d \<Rightarrow>
          (case jget d ''error'' of
             JObj e \<Rightarrow>
               (case jget e ''details'' of
                  JArr details \<Rightarrow>
                    (\<exists>x\<in>set details. case x of
                       JObj detail \<Rightarrow>
                         (case jget detail ''reason'' of
                            JStr reason \<Rightarrow> reason \<in> set key_refusal_reasons
                          | _ \<Rightarrow> False)
                     | _ \<Rightarrow> False)
                | _ \<Rightarrow> False)
           | _ \<Rightarrow> False)
      | _ \<Rightarrow> False)"

definition is_account_refusal :: "nat \<Rightarrow> body \<Rightarrow> bool" where
  "is_account_refusal status b =
     (if status \<in> set account_refusal_statuses then True
      else if status \<noteq> 400 then False
      else (case b of Json j \<Rightarrow> names_a_bad_key j | _ \<Rightarrow> False))"

text \<open>No usage block: the request is reported without a token count, whatever the body is.\<close>

definition gemini_post :: "nat \<Rightarrow> (nat \<Rightarrow> http_reply) \<Rightarrow> json call" where
  "gemini_post max_retries reply =
     (case post_from is_account_refusal reply 0 (unavailable Request_timed_out) (max_retries + 1) of
        (Inl e, k) \<Rightarrow> (Inl e, [], k)
      | (Inr j, k) \<Rightarrow> (Inr j, [(None, int k)], k))"

definition gemini_get :: "json \<Rightarrow> string \<Rightarrow> emb_error + json" where
  "gemini_get j key = (case j of JObj d \<Rightarrow> Inr (jget d key) | _ \<Rightarrow> Inl (Escaped Attribute_error))"

definition gemini_vectors :: "nat \<Rightarrow> nat \<Rightarrow> json \<Rightarrow> emb_error + pyfloat list list" where
  "gemini_vectors width n j =
     and_then (gemini_get j ''embeddings'')
       (\<lambda>e. case e of
          JArr items \<Rightarrow>
            if length items \<noteq> n then Inl (unavailable Wrong_count)
            else extract_all (extract_from ''values'' width) items
        | _ \<Rightarrow> Inl (unavailable Missing_array))"

definition gemini_batch :: "emb_config \<Rightarrow> server \<Rightarrow> string list \<Rightarrow> nat \<Rightarrow> pyfloat list list call" where
  "gemini_batch cfg server inputs n =
     (case gemini_post (ec_retries cfg) (\<lambda>k. server inputs (n + k)) of
        (Inl e, reports, k) \<Rightarrow> (Inl e, reports, n + k)
      | (Inr j, reports, k) \<Rightarrow> (gemini_vectors (ec_dim cfg) (length inputs) j, reports, n + k))"

definition gemini_batch_size :: nat where
  "gemini_batch_size = 100"

definition gemini_documents :: "emb_config \<Rightarrow> server \<Rightarrow> string list \<Rightarrow> nat \<Rightarrow> pyfloat list list call" where
  "gemini_documents cfg server texts n =
     (if texts = [] then (Inr [], [], n)
      else (case guard_all texts of
              Inl e \<Rightarrow> (Inl e, [], n)
            | Inr _ \<Rightarrow> embed_batches (gemini_batch cfg server) gemini_batch_size texts n))"

text \<open>A query has an endpoint of its own, so a server of its own.\<close>

definition gemini_embed :: "emb_config \<Rightarrow> server \<Rightarrow> string \<Rightarrow> nat \<Rightarrow> pyfloat list call" where
  "gemini_embed cfg server text n =
     (case guard_input text of
        Inl e \<Rightarrow> (Inl e, [], n)
      | Inr _ \<Rightarrow>
          (case gemini_post (ec_retries cfg) (\<lambda>k. server [text] (n + k)) of
             (Inl e, reports, k) \<Rightarrow> (Inl e, reports, n + k)
           | (Inr j, reports, k) \<Rightarrow>
               (and_then (gemini_get j ''embedding'') (extract_from ''values'' (ec_dim cfg)), reports, n + k)))"

section \<open>Offline embedders and the factory\<close>

text \<open>\<open>sha\<close> is the SHA-256 digest of the text as its 32 bytes.\<close>

definition stub_raw :: "(string \<Rightarrow> int list) \<Rightarrow> nat \<Rightarrow> string \<Rightarrow> rat list" where
  "stub_raw sha width text =
     map (\<lambda>i. of_int (sha text ! (i mod length (sha text)) - 128) / 128) [0..<width]"

definition stub_norm :: "rat list \<Rightarrow> real" where
  "stub_norm raw =
     (let norm = sqrt (of_rat (\<Sum>x\<leftarrow>raw. x * x)) in if norm = 0 then 1 else norm)"

definition stub_vector :: "(string \<Rightarrow> int list) \<Rightarrow> nat \<Rightarrow> string \<Rightarrow> real list" where
  "stub_vector sha width text =
     (if text = [] then replicate width 0
      else let raw = stub_raw sha width text in map (\<lambda>x. of_rat x / stub_norm raw) raw)"

definition null_documents :: "string list \<Rightarrow> 'v option list" where
  "null_documents texts = replicate (length texts) None"

record embedder_settings =
  es_provider :: string
  es_model :: string
  es_dim :: nat
  es_environment :: string
  es_gemini_key :: "string option"
  es_router_key :: "string option"
  es_retries :: nat

datatype embedder =
    Stub_embedder nat | Gemini_embedder emb_config | Openrouter_embedder emb_config
  | Metered_embedder embedder string string

datatype embedder_config_error = Unknown_embedder | Wrong_embedding_dim | Stub_embedder_in_production | No_embedder_key

definition allowed_embedding_providers :: "string list" where
  "allowed_embedding_providers = [''stub'', ''gemini'', ''openrouter'']"

definition pgvector_column_dim :: nat where
  "pgvector_column_dim = 1536"

definition validate_embedder_provider :: "embedder_settings \<Rightarrow> embedder_config_error + unit" where
  "validate_embedder_provider s =
     (if es_provider s \<notin> set allowed_embedding_providers then Inl Unknown_embedder
      else if es_dim s \<noteq> pgvector_column_dim then Inl Wrong_embedding_dim
      else if es_environment s = ''production'' \<and> es_provider s = ''stub'' then Inl Stub_embedder_in_production
      else Inr ())"

definition set_key :: "string option \<Rightarrow> bool" where
  "set_key k \<longleftrightarrow> k \<noteq> None \<and> k \<noteq> Some []"

definition build_embedder :: "embedder_settings \<Rightarrow> embedder_config_error + embedder" where
  "build_embedder s =
     (let cfg = \<lparr>ec_dim = es_dim s, ec_retries = es_retries s\<rparr> in
      if es_provider s = ''gemini'' then
        (if set_key (es_gemini_key s) then Inr (Gemini_embedder cfg) else Inl No_embedder_key)
      else if es_provider s = ''openrouter'' then
        (if set_key (es_router_key s) then Inr (Openrouter_embedder cfg) else Inl No_embedder_key)
      else Inr (Stub_embedder (es_dim s)))"

definition metered_embedder :: "embedder \<Rightarrow> embedder_settings \<Rightarrow> embedder" where
  "metered_embedder e s =
     (case e of Stub_embedder _ \<Rightarrow> e | _ \<Rightarrow> Metered_embedder e (es_provider s) (es_model s))"

definition configured_embedder_identity :: "embedder_settings \<Rightarrow> embedder_identity" where
  "configured_embedder_identity s =
     \<lparr>emb_provider = Some (es_provider s), emb_model = Some (es_model s), emb_dim = Some (int (es_dim s))\<rparr>"

definition get_embedder ::
    "embedder_settings \<Rightarrow> embedder option \<Rightarrow> (embedder_config_error + embedder) \<times> embedder option" where
  "get_embedder s cached =
     (case cached of
        Some e \<Rightarrow> (Inr e, cached)
      | None \<Rightarrow>
          (case build_embedder s of
             Inl e \<Rightarrow> (Inl e, None)
           | Inr e \<Rightarrow> (Inr (metered_embedder e s), Some (metered_embedder e s))))"

lemma production_embedder_is_metered:
  assumes "validate_embedder_provider s = Inr ()" "es_environment s = ''production''"
    and "fst (get_embedder s None) = Inr e"
  shows "\<exists>paid. e = Metered_embedder paid (es_provider s) (es_model s) \<and> build_embedder s = Inr paid
    \<and> es_dim s = pgvector_column_dim"
  using assms
  by (auto simp: validate_embedder_provider_def allowed_embedding_providers_def get_embedder_def
      build_embedder_def metered_embedder_def Let_def split: if_splits sum.splits)

lemma stub_vector_unit:
  assumes "text \<noteq> []" and "\<exists>x\<in>set (stub_raw sha width text). x \<noteq> 0"
  shows "(\<Sum>x\<leftarrow>stub_vector sha width text. x * x) = 1"
proof -
  define raw where "raw = stub_raw sha width text"
  define q where "q = (\<Sum>x\<leftarrow>raw. x * x)"
  have sq: "(\<Sum>x\<leftarrow>xs. (of_rat x / n) * (of_rat x / n)) = of_rat (\<Sum>x\<leftarrow>xs. x * x) / (n * n)" for xs :: "rat list" and n :: real
    by (induction xs) (simp_all add: of_rat_add of_rat_mult add_divide_distrib)
  have nonneg: "0 \<le> (\<Sum>x\<leftarrow>xs. x * x)" for xs :: "rat list"
    by (induction xs) auto
  have "0 < (\<Sum>x\<leftarrow>xs. x * x)" if "\<exists>x\<in>set xs. x \<noteq> 0" for xs :: "rat list"
    using that
  proof (induction xs)
    case (Cons a xs)
    have "0 \<le> a * a" "a \<noteq> 0 \<Longrightarrow> 0 < a * a" by (simp_all add: zero_less_mult_iff, linarith)
    then show ?case
      using Cons nonneg [of xs] by (cases "a = 0") (auto intro: add_pos_nonneg)
  qed simp
  then have q: "0 < q" using assms(2) by (simp add: q_def raw_def)
  then have "stub_norm raw * stub_norm raw = of_rat q" "stub_norm raw \<noteq> 0"
    by (simp_all add: stub_norm_def Let_def q_def [symmetric])
  then have "(\<Sum>x\<leftarrow>raw. (of_rat x / stub_norm raw) * (of_rat x / stub_norm raw)) = 1"
    using q sq [of "stub_norm raw" raw] by (simp only: q_def [symmetric]) simp
  then show ?thesis
    using assms(1) by (simp add: stub_vector_def Let_def raw_def comp_def)
qed

section \<open>The retry loop ends\<close>

lemma post_from_bounds:
  "post_from refused reply attempt final left = (r, k) \<Longrightarrow> attempt \<le> k \<and> k \<le> attempt + left \<and> (left > 0 \<longrightarrow> attempt < k)"
proof (induction refused reply attempt final left rule: post_from.induct)
  case (2 refused reply attempt final left)
  then show ?case
    by (fastforce split: http_reply.splits body.splits if_splits)
qed simp

definition transient :: "http_reply \<Rightarrow> bool" where
  "transient r \<longleftrightarrow> (case r of Timed_out \<Rightarrow> True | Replied s b \<Rightarrow> s \<in> set unavailable_statuses | _ \<Rightarrow> False)"

text \<open>Only a transient reply is answered by another request.\<close>

lemma post_from_retries:
  "post_from refused reply attempt final left = (r, k) \<Longrightarrow> attempt \<le> j \<Longrightarrow> j + 1 < k \<Longrightarrow> transient (reply j)"
proof (induction refused reply attempt final left arbitrary: j rule: post_from.induct)
  case (2 refused reply attempt final left)
  show ?case
  proof (cases "j = attempt")
    case True
    then show ?thesis
      using 2(3,5) by (cases "reply attempt") (auto simp: transient_def split: if_splits body.splits)
  next
    case False
    then have j: "attempt + 1 \<le> j" using 2(4) by simp
    show ?thesis
    proof (cases "reply attempt")
      case Timed_out
      then show ?thesis using 2(1) [OF Timed_out _ j 2(5)] 2(3) by simp
    next
      case (Replied s b)
      show ?thesis
      proof (cases "s \<in> set unavailable_statuses")
        case True
        then show ?thesis using 2(2) [OF Replied True _ j 2(5)] 2(3) Replied by simp
      qed (use 2(3,5) j Replied in \<open>auto split: if_splits body.splits\<close>)
    qed (use 2(3,5) j in auto)
  qed
qed simp

lemma post_from_answers:
  assumes "\<forall>j<m. transient (reply (attempt + j))" "m < left"
    and "reply (attempt + m) = Replied s (Json v)" "s < 400"
  shows "post_from refused reply attempt final left = (Inr v, attempt + m + 1)"
  using assms
proof (induction m arbitrary: attempt final left)
  case 0
  have "s \<notin> set unavailable_statuses" using 0(4) by (auto simp: unavailable_statuses_def)
  with 0 show ?case by (cases left) auto
next
  case (Suc m)
  then obtain l where l: "left = Suc l" "m < l" by (cases left) auto
  have "\<forall>j<m. transient (reply (attempt + 1 + j))"
    using Suc(2) by (auto dest: spec [of _ "Suc j" for j])
  note ih = Suc.IH [OF this l(2)] Suc(4,5)
  have "transient (reply attempt)" using Suc(2) by (auto dest: spec [of _ 0])
  then show ?case
    using ih l(1) by (auto simp: transient_def split: http_reply.splits)
qed

text \<open>The time slept doubles with each retry.\<close>

lemma backoff_total:
  "base > 0 \<Longrightarrow> (\<Sum>attempt<Suc n. backoff base attempt) = base * (2 ^ n - 1)"
  by (induction n) (auto simp: backoff_def algebra_simps)

section \<open>One vector per text\<close>

lemma float_list_length: "float_list vs = Inr xs \<Longrightarrow> length xs = length vs"
  by (induction vs arbitrary: xs) (auto simp: and_then_Inr_iff split: coerced.splits)

lemma extract_from_length: "extract_from key width r = Inr v \<Longrightarrow> length v = width"
  by (auto simp: extract_from_def and_then_Inr_iff split: json.splits if_splits)

lemma extract_all_Inr:
  "extract_all f rs = Inr vs \<longleftrightarrow> list_all2 (\<lambda>r v. f r = Inr v) rs vs"
  by (induction rs arbitrary: vs) (auto simp: and_then_Inr_iff list_all2_Cons1)

lemma read_indices_length: "read_indices rs = Inr (Some idx) \<Longrightarrow> length idx = length rs"
  by (induction rs arbitrary: idx) (auto simp: and_then_Inr_iff split: json.splits coerced.splits)

lemma place_rows_length [simp]: "length (place_rows idx rows) = length rows"
proof -
  have "length (foldl (\<lambda>out (i, row). out[nat i := row]) out ps) = length out" for out and ps :: "(int \<times> json) list"
    by (induction ps arbitrary: out) auto
  then show ?thesis by (simp add: place_rows_def)
qed

lemma order_by_index_length: "order_by_index rows = Inr out \<Longrightarrow> length out = length rows"
  by (auto simp: order_by_index_def and_then_Inr_iff split: option.splits if_splits)

definition vectors_ok :: "nat \<Rightarrow> nat \<Rightarrow> pyfloat list list \<Rightarrow> bool" where
  "vectors_ok width n vs \<longleftrightarrow> length vs = n \<and> (\<forall>v\<in>set vs. length v = width)"

lemma extract_all_ok:
  "extract_all (extract_from key width) rs = Inr vs \<Longrightarrow> vectors_ok width (length rs) vs"
proof -
  assume "extract_all (extract_from key width) rs = Inr vs"
  then have l: "list_all2 (\<lambda>r v. extract_from key width r = Inr v) rs vs"
    by (simp only: extract_all_Inr)
  then have "list_all2 (\<lambda>r v. length v = width) rs vs"
    by (rule list_all2_mono) (rule extract_from_length)
  then show ?thesis
    unfolding vectors_ok_def list_all2_conv_all_nth by (metis in_set_conv_nth)
qed

lemma openrouter_vectors_ok:
  assumes "openrouter_vectors width n d = Inr vs" shows "vectors_ok width n vs"
proof -
  from assms obtain rows out where "length rows = n" "order_by_index rows = Inr out"
    "extract_all (extract_from ''embedding'' width) out = Inr vs"
    unfolding openrouter_vectors_def extract_vector_def [abs_def]
    by (cases "jget d ''data''") (auto split: if_splits sum.splits)
  then show ?thesis using extract_all_ok order_by_index_length by metis
qed

lemma gemini_vectors_ok:
  assumes "gemini_vectors width n j = Inr vs" shows "vectors_ok width n vs"
proof -
  from assms obtain e where e: "gemini_get j ''embeddings'' = Inr e"
    "(case e of JArr items \<Rightarrow> if length items \<noteq> n then Inl (unavailable Wrong_count)
        else extract_all (extract_from ''values'' width) items | _ \<Rightarrow> Inl (unavailable Missing_array)) = Inr vs"
    unfolding gemini_vectors_def and_then_Inr_iff by blast
  from e(2) obtain items where "length items = n" "extract_all (extract_from ''values'' width) items = Inr vs"
    by (cases e) (auto split: if_splits)
  then show ?thesis using extract_all_ok by metis
qed

section \<open>Batches\<close>

text \<open>What every call keeps: as many requests as the retries allow, and a report that is no more.\<close>

definition call_ok :: "nat \<Rightarrow> nat \<Rightarrow> nat \<Rightarrow> 'a call \<Rightarrow> bool" where
  "call_ok n batches retries c =
     (case c of (r, reports, n') \<Rightarrow>
        n \<le> n' \<and> n' \<le> n + batches * (retries + 1) \<and> (\<Sum>(t, k)\<leftarrow>reports. k) \<le> int (n' - n)
        \<and> ((\<exists>v. r = Inr v) \<longrightarrow> (\<Sum>(t, k)\<leftarrow>reports. k) = int (n' - n)))"

lemma openrouter_inputs_ok:
  "call_ok n 1 (ec_retries cfg) (openrouter_inputs cfg server inputs n)
   \<and> (fst (openrouter_inputs cfg server inputs n) = Inr vs \<longrightarrow> vectors_ok (ec_dim cfg) (length inputs) vs)"
proof -
  obtain r k where p: "post_from openrouter_refused (\<lambda>k. server inputs (n + k)) 0 (unavailable Request_timed_out)
      (ec_retries cfg + 1) = (r, k)"
    by (rule prod.exhaust)
  have k: "k \<le> ec_retries cfg + 1" using post_from_bounds [OF p] by simp
  show ?thesis
  proof (cases r)
    case (Inl e)
    then show ?thesis using p k by (simp add: openrouter_inputs_def openrouter_post_def call_ok_def)
  next
    case (Inr j)
    then show ?thesis using p k openrouter_vectors_ok
      by (cases j) (auto simp: openrouter_inputs_def openrouter_post_def call_ok_def)
  qed
qed

lemma gemini_batch_ok:
  "call_ok n 1 (ec_retries cfg) (gemini_batch cfg server inputs n)
   \<and> (fst (gemini_batch cfg server inputs n) = Inr vs \<longrightarrow> vectors_ok (ec_dim cfg) (length inputs) vs)"
proof -
  obtain r k where p: "post_from is_account_refusal (\<lambda>k. server inputs (n + k)) 0 (unavailable Request_timed_out)
      (ec_retries cfg + 1) = (r, k)"
    by (rule prod.exhaust)
  have k: "k \<le> ec_retries cfg + 1" using post_from_bounds [OF p] by simp
  show ?thesis
  proof (cases r)
    case (Inl e)
    then show ?thesis using p k by (simp add: gemini_batch_def gemini_post_def call_ok_def)
  next
    case (Inr j)
    then show ?thesis using p k gemini_vectors_ok
      by (auto simp: gemini_batch_def gemini_post_def call_ok_def)
  qed
qed

definition batch_count :: "nat \<Rightarrow> nat \<Rightarrow> nat" where
  "batch_count step n = (n + step - 1) div step"

lemma batch_count_step: "0 < n \<Longrightarrow> 0 < step \<Longrightarrow> batch_count step n = Suc (batch_count step (n - step))"
proof (cases "n \<le> step")
  case True
  assume "0 < n" "0 < step"
  then show ?thesis using True by (simp add: batch_count_def div_nat_eqI)
next
  case False
  assume "0 < step"
  moreover have "n + step - 1 = (n - step + step - 1) + step" using False by simp
  ultimately show ?thesis unfolding batch_count_def by (metis div_add_self2 not_gr0 Suc_eq_plus1)
qed

text \<open>
  The contract of a client's sub-batch request, from which the loop over the batches gets the same
  for a whole document.
\<close>

locale batch_client =
  fixes batch :: "string list \<Rightarrow> nat \<Rightarrow> pyfloat list list call"
    and width :: nat and retries :: nat
  assumes batch_ok: "call_ok n 1 retries (batch inputs n)"
    and batch_vectors: "fst (batch inputs n) = Inr vs \<Longrightarrow> vectors_ok width (length inputs) vs"
begin

lemma batches_ok:
  assumes "0 < step"
  shows "call_ok n (batch_count step (length texts)) retries (embed_batches batch step texts n)"
proof (induction texts arbitrary: n rule: length_induct)
  case (1 texts)
  show ?case
  proof (cases "texts = []")
    case True
    then show ?thesis by (subst embed_batches.simps) (simp add: call_ok_def)
  next
    case False
    obtain r reports n' where b: "batch (take step texts) n = (r, reports, n')"
      by (rule prod_cases3)
    obtain r2 later n'' where l: "embed_batches batch step (drop step texts) n' = (r2, later, n'')"
      by (rule prod_cases3)
    have c: "batch_count step (length texts) = Suc (batch_count step (length (drop step texts)))"
      using batch_count_step [of "length texts" step] False assms by simp
    have first: "call_ok n 1 retries (r, reports, n')"
      using batch_ok [of n "take step texts"] b by simp
    have rest: "call_ok n' (batch_count step (length (drop step texts))) retries (r2, later, n'')"
      using 1 [rule_format, of "drop step texts" n'] l False assms by simp
    have "n'' \<le> n + (retries + 1 + batch_count step (length (drop step texts)) * (retries + 1))"
      using first rest by (simp add: call_ok_def)
    then have "n' \<le> n + batch_count step (length texts) * (retries + 1)"
      "n'' \<le> n + batch_count step (length texts) * (retries + 1)" "n \<le> n'" "n' \<le> n''"
      using first rest unfolding c by (simp_all add: call_ok_def)
    then show ?thesis
      using first rest b l False assms
      by (subst embed_batches.simps) (auto simp: call_ok_def of_nat_diff split: sum.splits)
  qed
qed

lemma batches_vectors:
  assumes "0 < step" and "fst (embed_batches batch step texts n) = Inr vs"
  shows "vectors_ok width (length texts) vs"
  using assms(2)
proof (induction texts arbitrary: n vs rule: length_induct)
  case (1 texts)
  show ?case
  proof (cases "texts = []")
    case True
    then show ?thesis using 1(2) by (subst (asm) embed_batches.simps) (simp add: vectors_ok_def)
  next
    case False
    obtain r reports n' where b: "batch (take step texts) n = (r, reports, n')"
      by (rule prod_cases3)
    obtain r2 later n'' where l: "embed_batches batch step (drop step texts) n' = (r2, later, n'')"
      by (rule prod_cases3)
    obtain us ws where r: "r = Inr us" "r2 = Inr ws" "vs = us @ ws"
      using 1(2) b l False assms(1) by (subst (asm) embed_batches.simps) (auto split: sum.splits)
    have "vectors_ok width (length (take step texts)) us"
      using batch_vectors [of "take step texts" n us] b r by simp
    moreover have "vectors_ok width (length (drop step texts)) ws"
      using 1(1) [rule_format, of "drop step texts" n' ws] l r False assms(1) by simp
    ultimately show ?thesis using r(3) by (auto simp: vectors_ok_def)
  qed
qed

end

interpretation openrouter: batch_client "openrouter_inputs cfg server" "ec_dim cfg" "ec_retries cfg" for cfg server
  by unfold_locales (use openrouter_inputs_ok in blast)+

interpretation gemini: batch_client "gemini_batch cfg server" "ec_dim cfg" "ec_retries cfg" for cfg server
  by unfold_locales (use gemini_batch_ok in blast)+

lemma call_ok_none [simp]: "call_ok n m retries (Inl e, [], n)" "call_ok n m retries (Inr v, [], n)"
  by (simp_all add: call_ok_def)

lemma documents_ok:
  "call_ok n (batch_count 96 (length texts)) (ec_retries cfg) (openrouter_documents cfg server texts n)"
  "call_ok n (batch_count 100 (length texts)) (ec_retries cfg) (gemini_documents cfg server texts n)"
  using openrouter.batches_ok [of 96 n texts cfg server] gemini.batches_ok [of 100 n texts cfg server]
  by (auto simp: openrouter_documents_def gemini_documents_def openrouter_batch_size_def gemini_batch_size_def
      split: sum.splits)

lemma documents_vectors:
  "fst (openrouter_documents cfg server texts n) = Inr vs \<Longrightarrow> vectors_ok (ec_dim cfg) (length texts) vs"
  "fst (gemini_documents cfg server texts n) = Inr vs \<Longrightarrow> vectors_ok (ec_dim cfg) (length texts) vs"
  using openrouter.batches_vectors [of 96 cfg server texts n vs] gemini.batches_vectors [of 100 cfg server texts n vs]
  by (auto simp: openrouter_documents_def gemini_documents_def openrouter_batch_size_def gemini_batch_size_def
      vectors_ok_def split: sum.splits if_splits)

lemma embedding_ends_parts:
  fixes cfg :: emb_config and server :: server and texts :: "string list" and n :: nat
  shows "call_ok n ((length texts + 95) div 96) (ec_retries cfg) (openrouter_documents cfg server texts n)"
    and "call_ok n ((length texts + 99) div 100) (ec_retries cfg) (gemini_documents cfg server texts n)"
    and "fst (openrouter_documents cfg server texts n) = Inr vs \<Longrightarrow> vectors_ok (ec_dim cfg) (length texts) vs"
    and "fst (gemini_documents cfg server texts n) = Inr vs \<Longrightarrow> vectors_ok (ec_dim cfg) (length texts) vs"
    and "post_from refused reply 0 final (ec_retries cfg + 1) = (r, k) \<Longrightarrow> j + 1 < k \<Longrightarrow> transient (reply j)"
proof -
  show "call_ok n ((length texts + 95) div 96) (ec_retries cfg) (openrouter_documents cfg server texts n)"
    and "call_ok n ((length texts + 99) div 100) (ec_retries cfg) (gemini_documents cfg server texts n)"
    using documents_ok [of n texts cfg server] by (simp_all add: batch_count_def add.commute)
  show "fst (openrouter_documents cfg server texts n) = Inr vs \<Longrightarrow> vectors_ok (ec_dim cfg) (length texts) vs"
    and "fst (gemini_documents cfg server texts n) = Inr vs \<Longrightarrow> vectors_ok (ec_dim cfg) (length texts) vs"
    using documents_vectors by blast+
  show "post_from refused reply 0 final (ec_retries cfg + 1) = (r, k) \<Longrightarrow> j + 1 < k \<Longrightarrow> transient (reply j)"
    using post_from_retries [of refused reply 0 final "ec_retries cfg + 1" r k j] by blast
qed

text \<open>C22: Embedding a document ends, whatever the provider does. The two clients make at most one
  request and its retries for each sub-batch, ask again only after a transient reply, report to the
  meter exactly the requests they made when they succeed and never more than they made, and a
  success has one vector for each text, each of the configured width.\<close>
theorem embedding_ends:
  fixes cfg :: emb_config and server :: server and texts :: "string list" and n :: nat
  shows "(call_ok n ((length texts + 95) div 96) (ec_retries cfg) (openrouter_documents cfg server texts n))
     \<and> (call_ok n ((length texts + 99) div 100) (ec_retries cfg) (gemini_documents cfg server texts n))
     \<and> ((fst (openrouter_documents cfg server texts n) = Inr vs) \<longrightarrow> (vectors_ok (ec_dim cfg) (length texts) vs))
     \<and> ((fst (gemini_documents cfg server texts n) = Inr vs) \<longrightarrow> (vectors_ok (ec_dim cfg) (length texts) vs))
     \<and> ((post_from refused reply 0 final (ec_retries cfg + 1) = (r, k)) \<longrightarrow> (j + 1 < k) \<longrightarrow> (transient (reply j)))"
  by (intro conjI impI embedding_ends_parts(1,2))
    (erule embedding_ends_parts(3), erule embedding_ends_parts(4), erule (1) embedding_ends_parts(5))

definition demo_embedder :: emb_config where
  "demo_embedder = \<lparr>ec_dim = 2, ec_retries = 1\<rparr>"

text \<open>A server that times out on even requests and answers in reverse order on odd ones.\<close>

definition demo_row :: "string \<Rightarrow> nat \<Rightarrow> json" where
  "demo_row text i =
     JObj [(''index'', JInt (int i)), (''embedding'', JArr [JInt (int (length text)), JFloat (1 / 2)])]"

definition demo_server :: server where
  "demo_server inputs n =
     (if even n then Timed_out
      else Replied 200 (Json (JObj
        [(''data'', JArr (rev (map2 demo_row inputs [0..<length inputs]))),
         (''usage'', JObj [(''prompt_tokens'', JInt 7)])])))"

theorem embedding_ends_witness:
  "vectors_ok 2 2 [[Finite 1, Finite (1 / 2)], [Finite 3, Finite (1 / 2)]]
   \<and> call_ok 0 1 1 (openrouter_documents demo_embedder demo_server [''a'', ''bcd''] 0)
   \<and> transient (demo_server [''a''] 0)"
proof -
  have d: "openrouter_documents demo_embedder demo_server [''a'', ''bcd''] 0
      = (Inr [[Finite 1, Finite (1 / 2)], [Finite 3, Finite (1 / 2)]], [(Some 7, 2)], 2)"
    by code_simp
  have p: "post_from openrouter_refused (demo_server [''a'']) 0 (unavailable Request_timed_out) (ec_retries demo_embedder + 1)
      = (Inr (JObj [(''data'', JArr [demo_row ''a'' 0]), (''usage'', JObj [(''prompt_tokens'', JInt 7)])]), 2)"
    by code_simp
  show ?thesis
    using embedding_ends [of 0 "[''a'', ''bcd'']" demo_embedder demo_server "[[Finite 1, Finite (1 / 2)], [Finite 3, Finite (1 / 2)]]"]
      embedding_ends [THEN conjunct2, THEN conjunct2, THEN conjunct2, THEN conjunct2, THEN mp, OF p] d
    by (simp add: demo_embedder_def numeral_2_eq_2)
qed

section \<open>Every text gets its own vector\<close>

lemma place_rows_nth:
  assumes "length idx = length rows" "distinct idx" "set idx = int ` {..<length rows}" "k < length rows"
  shows "place_rows idx rows ! nat (idx ! k) = rows ! k"
proof -
  have "foldl (\<lambda>out (i, row). out[nat i := row]) out (zip js rs) ! nat (js ! k) = rs ! k"
    if "length js = length rs" "distinct js" "\<forall>i\<in>set js. 0 \<le> i \<and> i < int (length out)" "k < length rs"
    for out js k and rs :: "json list"
    using that
  proof (induction js rs arbitrary: out k rule: list_induct2)
    case (Cons i js r rs)
    have keep: "foldl (\<lambda>out (i, row). out[nat i := row]) out' (zip js rs) ! nat i = out' ! nat i" for out'
    proof -
      have "foldl (\<lambda>out (i, row). out[nat i := row]) out' ps ! m = out' ! m"
        if "\<forall>p\<in>set ps. nat (fst p) \<noteq> m" for ps :: "(int \<times> json) list" and m and out'
        using that by (induction ps arbitrary: out') auto
      moreover have "\<forall>p\<in>set (zip js rs). nat (fst p) \<noteq> nat i"
        using Cons(3,4) by (auto dest!: set_zip_leftD) (metis eq_nat_nat_iff)
      ultimately show ?thesis by blast
    qed
    show ?case
    proof (cases k)
      case 0
      have "nat i < length out" using Cons(4) by auto
      then show ?thesis using 0 keep [of "out[nat i := r]"] by simp
    next
      case (Suc m)
      then show ?thesis using Cons(2) [of "out[nat i := r]" m] Cons(3-5) by simp
    qed
  qed simp
  from this [of idx rows "replicate (length rows) JNull" k] show ?thesis
    using assms by (auto simp: place_rows_def)
qed

text \<open>Rows that carry their index are put in the order of the request.\<close>

lemma order_by_index_permutes:
  assumes "list_all2 (\<lambda>i r. \<exists>d. r = JObj d \<and> coerce_int (jget d ''index'') = Coerced (int i)) js rows"
    and "mset js = mset [0..<length rows]"
  obtains out where "order_by_index rows = Inr out" "length out = length rows"
    "\<forall>k<length rows. out ! (js ! k) = rows ! k"
proof -
  have len: "length js = length rows" using assms(1) by (rule list_all2_lengthD)
  have "read_indices rows = Inr (Some (map int js))"
    using assms(1) by (induction js rows rule: list_all2_induct) auto
  moreover have "sort (map int js) = map int [0..<length rows]"
  proof (rule properties_for_sort)
    show "mset (map int [0..<length rows]) = mset (map int js)"
      by (simp only: mset_map assms(2))
    show "sorted (map int [0..<length rows])"
      by (auto simp: sorted_iff_nth_mono)
  qed
  ultimately have o: "order_by_index rows = Inr (place_rows (map int js) rows)"
    by (simp add: order_by_index_def)
  have s: "set js = {..<length rows}"
    unfolding mset_eq_setD [OF assms(2)] set_upt by (rule lessThan_atLeast0 [symmetric])
  have d: "distinct js"
    unfolding mset_eq_imp_distinct_iff [OF assms(2)] by (rule distinct_upt)
  show thesis
  proof (rule that [OF o])
    show "\<forall>k<length rows. place_rows (map int js) rows ! (js ! k) = rows ! k"
      using place_rows_nth [of "map int js" rows] s d len by (auto simp: distinct_map)
  qed simp
qed

text \<open>A body that carries the vectors of the inputs, each row with the index of its input, in any order.\<close>

definition carries :: "nat \<Rightarrow> (string \<Rightarrow> pyfloat list) \<Rightarrow> string list \<Rightarrow> obj \<Rightarrow> bool" where
  "carries width enc inputs d \<longleftrightarrow>
     (\<exists>rows js. jget d ''data'' = JArr rows \<and> length rows = length inputs \<and> mset js = mset [0..<length inputs]
       \<and> list_all2 (\<lambda>i r. (\<exists>q. r = JObj q \<and> coerce_int (jget q ''index'') = Coerced (int i))
            \<and> extract_vector width r = Inr (enc (inputs ! i))) js rows)"

lemma openrouter_vectors_carried:
  assumes "carries width enc inputs d"
  shows "openrouter_vectors width (length inputs) d = Inr (map enc inputs)"
proof -
  obtain rows js where r: "jget d ''data'' = JArr rows" "length rows = length inputs"
    "mset js = mset [0..<length rows]"
    "list_all2 (\<lambda>i r. \<exists>q. r = JObj q \<and> coerce_int (jget q ''index'') = Coerced (int i)) js rows"
    "list_all2 (\<lambda>i r. extract_vector width r = Inr (enc (inputs ! i))) js rows"
    using assms unfolding carries_def by (auto intro: list_all2_mono)
  obtain out where out: "order_by_index rows = Inr out" "length out = length rows"
    "\<forall>k<length rows. out ! (js ! k) = rows ! k"
    using order_by_index_permutes [OF r(4,3)] by blast
  have "list_all2 (\<lambda>r v. extract_vector width r = Inr v) out (map enc inputs)"
    unfolding list_all2_conv_all_nth
  proof (intro conjI allI impI)
    show "length out = length (map enc inputs)" using out(2) r(2) by simp
    fix i assume i: "i < length out"
    have len: "length js = length rows" using r(4) by (rule list_all2_lengthD)
    have "i \<in> set js" using mset_eq_setD [OF r(3)] i out(2) by simp
    then obtain k where k: "k < length rows" "js ! k = i" using len by (metis in_set_conv_nth)
    then have "out ! i = rows ! k" using out(3) by blast
    then show "extract_vector width (out ! i) = Inr (map enc inputs ! i)"
      using r(5) k i out(2) r(2) by (auto simp: list_all2_conv_all_nth)
  qed
  then show ?thesis
    using r(1,2) out(1) by (simp add: openrouter_vectors_def extract_all_Inr)
qed

text \<open>A server that answers within the retries: transient replies, then such a body.\<close>

definition answers_in_time :: "emb_config \<Rightarrow> (string \<Rightarrow> pyfloat list) \<Rightarrow> server \<Rightarrow> bool" where
  "answers_in_time cfg enc server \<longleftrightarrow>
     (\<forall>inputs n. \<exists>m s d. m \<le> ec_retries cfg \<and> s < 400 \<and> (\<forall>j<m. transient (server inputs (n + j)))
        \<and> server inputs (n + m) = Replied s (Json (JObj d)) \<and> carries (ec_dim cfg) enc inputs d)"

lemma openrouter_inputs_answered:
  assumes "answers_in_time cfg enc server"
  shows "fst (openrouter_inputs cfg server inputs n) = Inr (map enc inputs)"
proof -
  obtain m s d where m: "m \<le> ec_retries cfg" "s < 400" "\<forall>j<m. transient (server inputs (n + j))"
    "server inputs (n + m) = Replied s (Json (JObj d))" "carries (ec_dim cfg) enc inputs d"
    using assms unfolding answers_in_time_def by blast
  have "post_from openrouter_refused (\<lambda>k. server inputs (n + k)) 0 (unavailable Request_timed_out) (ec_retries cfg + 1)
      = (Inr (JObj d), 0 + m + 1)"
    by (rule post_from_answers) (use m in simp_all)
  then show ?thesis
    using openrouter_vectors_carried [OF m(5)] by (simp add: openrouter_inputs_def openrouter_post_def)
qed

lemma embed_batches_map:
  assumes "0 < step" and "\<And>inputs n. fst (batch inputs n) = Inr (map enc inputs)"
  shows "fst (embed_batches batch step texts n) = Inr (map enc texts)"
proof (induction texts arbitrary: n rule: length_induct)
  case (1 texts)
  obtain r reports n' where b: "batch (take step texts) n = (r, reports, n')"
    by (rule prod_cases3)
  then have r: "r = Inr (map enc (take step texts))" using assms(2) [of "take step texts" n] by simp
  obtain r2 later n'' where l: "embed_batches batch step (drop step texts) n' = (r2, later, n'')"
    by (rule prod_cases3)
  have "r2 = Inr (map enc (drop step texts))" if "texts \<noteq> []"
    using 1 [rule_format, of "drop step texts" n'] l that assms(1) by simp
  then show ?case
    using b r l assms(1) by (subst embed_batches.simps) (auto simp: map_append [symmetric])
qed

lemma guard_all_iff: "guard_all ts = Inr () \<longleftrightarrow> (\<forall>t\<in>set ts. guard_input t = Inr ())"
  by (induction ts) (auto simp: and_then_Inr_iff)

lemma openrouter_documents_aligned:
  assumes "answers_in_time cfg enc server" and "\<forall>t\<in>set texts. guard_input t = Inr ()"
  shows "fst (openrouter_documents cfg server texts n) = Inr (map enc texts)"
    and "texts \<noteq> [] \<Longrightarrow> fst (openrouter_embed cfg server (hd texts) n) = Inr (enc (hd texts))"
proof -
  show "fst (openrouter_documents cfg server texts n) = Inr (map enc texts)"
    using embed_batches_map [of openrouter_batch_size "openrouter_inputs cfg server" enc texts n]
      openrouter_inputs_answered [OF assms(1)] assms(2) guard_all_iff [of texts]
    by (simp add: openrouter_documents_def openrouter_batch_size_def)
  assume "texts \<noteq> []"
  then have "guard_input (hd texts) = Inr ()" using assms(2) by simp
  then show "fst (openrouter_embed cfg server (hd texts) n) = Inr (enc (hd texts))"
    using openrouter_inputs_answered [OF assms(1), of "[hd texts]" n]
    by (auto simp: openrouter_embed_def split: prod.splits sum.splits)
qed

lemma vectors_stay_with_their_texts_parts:
  assumes "answers_in_time cfg enc server" and "\<forall>t\<in>set texts. guard_input t = Inr ()"
  shows "fst (openrouter_documents cfg server texts n) = Inr (map enc texts)"
    and "texts \<noteq> [] \<Longrightarrow> fst (openrouter_embed cfg server (hd texts) n) = Inr (enc (hd texts))"
  using openrouter_documents_aligned [OF assms] by blast+


definition demo_vector :: "string \<Rightarrow> pyfloat list" where
  "demo_vector t = [Finite (of_int (int (length t))), Finite (1 / 2)]"

text \<open>A server that times out on even requests and answers in reverse order on odd ones.\<close>

definition short_server :: server where
  "short_server inputs n =
     (if even n then Timed_out
      else Replied 200 (Json (JObj
        [(''data'', JArr (map2 (\<lambda>t i. JObj [(''index'', JInt (int i)), (''embedding'', JArr [JFloat (of_nat (length t)), JFloat (1 / 2)])])
            (rev inputs) (rev [0..<length inputs])))])))"

lemma short_server_answers:
  "answers_in_time demo_embedder demo_vector short_server"
  unfolding answers_in_time_def
proof (intro allI)
  fix inputs :: "string list" and n :: nat
  let ?row = "\<lambda>(t::string) i. JObj [(''index'', JInt (int i)), (''embedding'', JArr [JFloat (of_nat (length t)), JFloat (1 / 2)])]"
  let ?rows = "map2 ?row (rev inputs) (rev [0..<length inputs])"
  have "map2 ?row (rev inputs) (rev [0..<length inputs]) = rev (map2 ?row inputs [0..<length inputs])"
    by (simp add: rev_map zip_rev)
  moreover have "list_all2 (\<lambda>i r. (\<exists>q. r = JObj q \<and> coerce_int (jget q ''index'') = Coerced (int i))
      \<and> extract_vector 2 r = Inr (demo_vector (inputs ! i))) (rev [0..<length inputs]) (rev (map2 ?row inputs [0..<length inputs]))"
    unfolding list_all2_rev
    by (auto simp: list_all2_conv_all_nth extract_vector_def extract_from_def demo_vector_def)
  ultimately have c: "carries (ec_dim demo_embedder) demo_vector inputs [(''data'', JArr ?rows)]"
    unfolding carries_def demo_embedder_def
    by (intro exI [of _ ?rows] exI [of _ "rev [0..<length inputs]"]) simp
  show "\<exists>m s d. m \<le> ec_retries demo_embedder \<and> s < 400 \<and> (\<forall>j<m. transient (short_server inputs (n + j)))
        \<and> short_server inputs (n + m) = Replied s (Json (JObj d)) \<and> carries (ec_dim demo_embedder) demo_vector inputs d"
    by (intro exI [of _ "if even n then 1 else 0"] exI [of _ 200] exI [of _ "[(''data'', JArr ?rows)]"])
      (use c in \<open>simp add: short_server_def transient_def demo_embedder_def\<close>)
qed


text \<open>A row that is not an object, or an index that is infinite, leaves the client as an exception of
  another kind, which no handler of \<open>EmbedderUnavailable\<close> catches.\<close>

lemma malformed_row_escapes:
  "openrouter_vectors width 1 [(''data'', JArr [JStr s])] = Inl (Escaped Attribute_error)"
  "openrouter_vectors width 1 [(''data'', JArr [JObj [(''index'', JInf neg)]])] = Inl (Escaped Overflow_error)"
  "extract_vector width (JObj [(''embedding'', JArr [JInt float_limit])]) = Inl (Escaped Overflow_error)"
  by (simp_all add: openrouter_vectors_def order_by_index_def extract_vector_def extract_from_def float_limit_def)

lemma gemini_positional:
  assumes "post_from is_account_refusal (\<lambda>k. server inputs (n + k)) 0 (unavailable Request_timed_out) (ec_retries cfg + 1)
      = (Inr (JObj d), k)"
    and "jget d ''embeddings'' = JArr items"
    and "list_all2 (\<lambda>t r. extract_from ''values'' (ec_dim cfg) r = Inr (enc t)) inputs items"
  shows "gemini_batch cfg server inputs n = (Inr (map enc inputs), [(None, int k)], n + k)"
proof -
  have "list_all2 (\<lambda>r v. extract_from ''values'' (ec_dim cfg) r = Inr v) items (map enc inputs)"
    using assms(3) by (auto simp: list_all2_conv_all_nth)
  then show ?thesis
    using assms(1,2) list_all2_lengthD [OF assms(3)]
    by (simp add: gemini_batch_def gemini_post_def gemini_vectors_def gemini_get_def extract_all_Inr)
qed

end
