(* ===== verification/Regex.thy ===== *)
theory Regex
  imports Prelude
begin

text \<open>
  Regular expressions with Python's matching order. An expression denotes the list of the ways it can
  match at a place, the preferred one first, as a backtracking matcher tries them; a place is the
  text before it, reversed, and the text after it. \<open>re.match\<close> takes the first way, \<open>re.search\<close> the
  first place that has one, \<open>re.finditer\<close> goes on after each match. A pattern compiled with
  \<open>IGNORECASE\<close> is written with classes that ignore case.
\<close>

section \<open>Characters\<close>

definition is_word :: "char \<Rightarrow> bool" where
  "is_word c \<longleftrightarrow> (let n = of_char c :: nat in
     (48 \<le> n \<and> n \<le> 57) \<or> (65 \<le> n \<and> n \<le> 90) \<or> n = 95 \<or> (97 \<le> n \<and> n \<le> 122)
     \<or> n \<in> {170, 178, 179, 181, 185, 186, 188, 189, 190} \<or> (192 \<le> n \<and> n \<noteq> 215 \<and> n \<noteq> 247))"

lemma is_word_bits [code]:
  "is_word (Char b0 b1 b2 b3 b4 b5 b6 b7) =
    (if b6 then (if b7 then \<not> (b0 \<and> b1 \<and> b2 \<and> b4 \<and> \<not> b3)
         else (b0 \<or> b1 \<or> b2 \<or> b3 \<or> b4) \<and> \<not> (b3 \<and> b4 \<and> (b2 \<or> b0 \<and> b1))
             \<or> (b0 \<and> b1 \<and> b2 \<and> b3 \<and> b4 \<and> \<not> b5))
     else b5 \<and> (if b7 then (b3 \<and> (b1 \<and> \<not> b0 \<and> \<not> b2 \<or> b4 \<and> (b0 \<and> \<not> b1 \<and> \<not> b2 \<or> b2 \<and> \<not> (b0 \<and> b1))))
            \<or> (\<not> b3 \<and> b4 \<and> (b1 \<and> \<not> b2 \<or> b2 \<and> b0 \<and> \<not> b1))
         else b4 \<and> \<not> (b3 \<and> (b2 \<or> b1))))"
  by (cases b0; cases b1; cases b2; cases b3; cases b4; cases b5; cases b6; cases b7)
    (simp_all add: is_word_def)

definition is_letter :: "char \<Rightarrow> bool" where
  "is_letter c \<longleftrightarrow> (let n = of_char c :: nat in (65 \<le> n \<and> n \<le> 90) \<or> (97 \<le> n \<and> n \<le> 122))"

definition is_upper :: "char \<Rightarrow> bool" where
  "is_upper c \<longleftrightarrow> (let n = of_char c :: nat in 65 \<le> n \<and> n \<le> 90)"

definition upper_char :: "char \<Rightarrow> char" where
  "upper_char c = (let n = of_char c :: nat in if 97 \<le> n \<and> n \<le> 122 then char_of (n - 32) else c)"

definition boundary :: "string \<Rightarrow> bool" where
  "boundary rest \<longleftrightarrow> (case rest of [] \<Rightarrow> True | c # _ \<Rightarrow> \<not> is_word c)"

section \<open>Expressions\<close>

datatype regex =
    Class "char \<Rightarrow> bool"
  | Eps
  | Seq regex regex
  | Alt regex regex
  | Star regex
  | Boundary            \<comment> \<open>\<open>\b\<close>\<close>
  | Not_behind "char \<Rightarrow> bool" \<comment> \<open>a lookbehind for one character\<close>
  | Not_ahead regex
  | Text_start | Text_end

type_synonym place = "string \<times> string"

definition at_boundary :: "place \<Rightarrow> bool" where
  "at_boundary x \<longleftrightarrow> boundary (fst x) \<noteq> boundary (snd x)"

text \<open>\<open>$\<close> also matches before a line break that ends the text.\<close>

definition at_end :: "place \<Rightarrow> bool" where
  "at_end x \<longleftrightarrow> snd x = [] \<or> snd x = [CHR 0x0A]"

function ends :: "regex \<Rightarrow> place \<Rightarrow> place list" where
  "ends (Class P) x = (case snd x of [] \<Rightarrow> [] | c # s \<Rightarrow> if P c then [(c # fst x, s)] else [])"
| "ends Eps x = [x]"
| "ends (Seq a b) x = concat (map (ends b) (ends a x))"
| "ends (Alt a b) x = ends a x @ ends b x"
| "ends (Star a) x =
     concat (map (\<lambda>y. if length (snd y) < length (snd x) then ends (Star a) y else []) (ends a x)) @ [x]"
| "ends Boundary x = (if at_boundary x then [x] else [])"
| "ends (Not_behind P) x = (case fst x of [] \<Rightarrow> [x] | c # _ \<Rightarrow> if P c then [] else [x])"
| "ends (Not_ahead a) x = (if ends a x = [] then [x] else [])"
| "ends Text_start x = (if fst x = [] then [x] else [])"
| "ends Text_end x = (if at_end x then [x] else [])"
  by pat_completeness auto
termination
  by (relation "measures [size \<circ> fst, length \<circ> snd \<circ> snd]") auto

declare ends.simps(5) [simp del]

fun seqs :: "regex list \<Rightarrow> regex" where
  "seqs [] = Eps"
| "seqs [r] = r"
| "seqs (r # rs) = Seq r (seqs rs)"

fun alts :: "regex list \<Rightarrow> regex" where
  "alts [] = Class (\<lambda>_. False)"
| "alts [r] = r"
| "alts (r # rs) = Alt r (alts rs)"

definition opt :: "regex \<Rightarrow> regex" where
  "opt r = Alt r Eps"

definition plus :: "regex \<Rightarrow> regex" where
  "plus r = Seq r (Star r)"

fun times :: "nat \<Rightarrow> regex \<Rightarrow> regex" where
  "times 0 r = Eps"
| "times (Suc n) r = Seq r (times n r)"

text \<open>\<open>r{n,}\<close>, and \<open>r{n,m}\<close> greedily.\<close>

definition at_least :: "nat \<Rightarrow> regex \<Rightarrow> regex" where
  "at_least n r = Seq (times n r) (Star r)"

fun up_to :: "nat \<Rightarrow> regex \<Rightarrow> regex" where
  "up_to 0 r = Eps"
| "up_to (Suc n) r = opt (Seq r (up_to n r))"

definition between :: "nat \<Rightarrow> nat \<Rightarrow> regex \<Rightarrow> regex" where
  "between n m r = Seq (times n r) (up_to (m - n) r)"

definition lit :: "string \<Rightarrow> regex" where
  "lit s = seqs (map (\<lambda>c. Class ((=) c)) s)"

text \<open>A literal under \<open>IGNORECASE\<close>.\<close>

definition ilit :: "string \<Rightarrow> regex" where
  "ilit s = seqs (map (\<lambda>c. Class (\<lambda>d. lower_char d = lower_char c)) s)"

definition one_of :: "string \<Rightarrow> char \<Rightarrow> bool" where
  "one_of s c \<longleftrightarrow> c \<in> set s"

definition spaces :: regex where
  "spaces = plus (Class py_isspace)"

section \<open>Matching\<close>

definition match_here :: "regex \<Rightarrow> place \<Rightarrow> nat option" where
  "match_here r x = (case ends r x of [] \<Rightarrow> None | y # _ \<Rightarrow> Some (length (snd x) - length (snd y)))"

definition re_match :: "regex \<Rightarrow> string \<Rightarrow> bool" where
  "re_match r s \<longleftrightarrow> match_here r ([], s) \<noteq> None"

text \<open>The whole text; a match that ends earlier is followed by a retry, so any way counts.\<close>

definition re_fullmatch :: "regex \<Rightarrow> string \<Rightarrow> bool" where
  "re_fullmatch r s \<longleftrightarrow> (\<exists>y\<in>set (ends r ([], s)). snd y = [])"

text \<open>The first place, as the characters before it, and the length of the match there.\<close>

fun find_from :: "regex \<Rightarrow> string \<Rightarrow> string \<Rightarrow> (nat \<times> nat) option" where
  "find_from r passed [] = map_option (Pair 0) (match_here r (passed, []))"
| "find_from r passed (c # s) =
     (case match_here r (passed, c # s) of
        Some n \<Rightarrow> Some (0, n)
      | None \<Rightarrow> map_option (\<lambda>(i, n). (Suc i, n)) (find_from r (c # passed) s))"

definition re_search :: "regex \<Rightarrow> string \<Rightarrow> bool" where
  "re_search r s \<longleftrightarrow> find_from r [] s \<noteq> None"

text \<open>
  The spans of the matches from a place on, for an expression that matches no empty text (an empty
  match is passed over by one character).
\<close>

function spans_from :: "regex \<Rightarrow> nat \<Rightarrow> string \<Rightarrow> string \<Rightarrow> (nat \<times> nat) list" where
  "spans_from r pos passed s =
     (case find_from r passed s of
        None \<Rightarrow> []
      | Some (i, n) \<Rightarrow>
          (pos + i, pos + i + n)
            # (let k = max 1 (i + n) in
               if s = [] then [] else spans_from r (pos + k) (rev (take k s) @ passed) (drop k s)))"
  by pat_completeness auto
termination
  by (relation "measure (\<lambda>(_, _, _, s). length s)") auto

declare spans_from.simps [simp del]

definition re_spans :: "regex \<Rightarrow> string \<Rightarrow> (nat \<times> nat) list" where
  "re_spans r s = spans_from r 0 [] s"

text \<open>\<open>re.sub\<close> with the replacement of a matched text.\<close>

function sub_from :: "regex \<Rightarrow> (string \<Rightarrow> string) \<Rightarrow> string \<Rightarrow> string \<Rightarrow> string" where
  "sub_from r f passed s =
     (case find_from r passed s of
        None \<Rightarrow> s
      | Some (i, n) \<Rightarrow>
          (let k = max 1 (i + n) in
           take i s @ f (take n (drop i s))
             @ (if n = 0 then take 1 (drop i s) else [])
             @ (if s = [] then [] else sub_from r f (rev (take k s) @ passed) (drop k s))))"
  by pat_completeness auto
termination
  by (relation "measure (\<lambda>(_, _, _, s). length s)") auto

declare sub_from.simps [simp del]

definition re_sub :: "regex \<Rightarrow> (string \<Rightarrow> string) \<Rightarrow> string \<Rightarrow> string" where
  "re_sub r f s = sub_from r f [] s"

section \<open>Laws\<close>

text \<open>A match takes a prefix of the text.\<close>

lemma ends_advance: "y \<in> set (ends r x) \<Longrightarrow> \<exists>u. snd x = u @ snd y \<and> fst y = rev u @ fst x"
proof (induction r x arbitrary: y rule: ends.induct)
  case (3 a b x)
  then obtain z where z: "z \<in> set (ends a x)" "y \<in> set (ends b z)" by auto
  from 3(1) [OF z(1)] obtain u where "snd x = u @ snd z" "fst z = rev u @ fst x" by (elim exE conjE)
  moreover from 3(2) [OF z] obtain v where "snd z = v @ snd y" "fst y = rev v @ fst z" by (elim exE conjE)
  ultimately show ?case by (intro exI [of _ "u @ v"]) simp
next
  case (5 a x)
  show ?case
  proof (cases "y = x")
    case False
    then obtain z where z: "z \<in> set (ends a x)" "length (snd z) < length (snd x)" "y \<in> set (ends (Star a) z)"
      using 5(3) by (auto simp: ends.simps(5) [of a x] split: if_splits)
    from 5(1) [OF z(1)] obtain u where "snd x = u @ snd z" "fst z = rev u @ fst x" by (elim exE conjE)
    moreover from 5(2) [OF z] obtain v where "snd z = v @ snd y" "fst y = rev v @ fst z" by (elim exE conjE)
    ultimately show ?thesis by (intro exI [of _ "u @ v"]) simp
  qed simp
qed (auto split: list.splits if_splits)

lemma match_here_length: "match_here r (p, s) = Some n \<Longrightarrow> n \<le> length s"
  by (auto simp: match_here_def split: list.splits)

lemma find_from_bounds: "find_from r p s = Some (i, n) \<Longrightarrow> i + n \<le> length s"
  by (induction r p s arbitrary: i n rule: find_from.induct)
    (auto dest: match_here_length split: option.splits)

lemma find_from_some: "find_from r p s \<noteq> None \<longleftrightarrow> (\<exists>u v. s = u @ v \<and> match_here r (rev u @ p, v) \<noteq> None)"
proof (induction r p s rule: find_from.induct)
  case (2 r p c s)
  have split: "c # s = u @ v \<longleftrightarrow> u = [] \<and> v = c # s \<or> (\<exists>u'. u = c # u' \<and> s = u' @ v)" for u v
    by (auto simp: Cons_eq_append_conv)
  have cut: "(\<exists>u v. c # s = u @ v \<and> Q u v) \<longleftrightarrow> Q [] (c # s) \<or> (\<exists>u v. s = u @ v \<and> Q (c # u) v)" for Q
    unfolding split by blast
  have "(\<exists>u v. c # s = u @ v \<and> match_here r (rev u @ p, v) \<noteq> None) \<longleftrightarrow>
      match_here r (p, c # s) \<noteq> None \<or> (\<exists>u v. s = u @ v \<and> match_here r (rev u @ c # p, v) \<noteq> None)"
    by (simp add: cut [of "\<lambda>u v. match_here r (rev u @ p, v) \<noteq> None"] del: not_None_eq)
  then show ?case using 2 by (auto split: option.splits)
qed simp

lemma re_search_iff: "re_search r s \<longleftrightarrow> (\<exists>u v. s = u @ v \<and> match_here r (rev u, v) \<noteq> None)"
  using find_from_some [of r "[]" s] by (simp add: re_search_def)

lemma re_search_spans: "re_search r s \<longleftrightarrow> re_spans r s \<noteq> []"
  unfolding re_search_def re_spans_def by (subst spans_from.simps) (auto split: option.splits)

lemma re_sub_unmatched: "\<not> re_search r s \<Longrightarrow> re_sub r f s = s"
  unfolding re_search_def re_sub_def by (cases "find_from r [] s") (simp_all add: sub_from.simps)

text \<open>
  A match that a character cannot disturb: the text may go on after it. \<open>stops_at c\<close> are the
  expressions no way of which passes \<open>c\<close>; \<open>persists c\<close> are those whose ways remain when the text
  goes on with \<open>c\<close>.
\<close>

fun stops_at :: "char \<Rightarrow> regex \<Rightarrow> bool" where
  "stops_at c (Class P) \<longleftrightarrow> \<not> P c"
| "stops_at c (Seq a b) \<longleftrightarrow> stops_at c a \<and> stops_at c b"
| "stops_at c (Alt a b) \<longleftrightarrow> stops_at c a \<and> stops_at c b"
| "stops_at c (Star a) \<longleftrightarrow> stops_at c a"
| "stops_at c (Not_ahead a) \<longleftrightarrow> stops_at c a"
| "stops_at c Boundary \<longleftrightarrow> \<not> is_word c"
| "stops_at c Text_end \<longleftrightarrow> False"
| "stops_at c r \<longleftrightarrow> True"

fun persists :: "char \<Rightarrow> regex \<Rightarrow> bool" where
  "persists c (Seq a b) \<longleftrightarrow> persists c a \<and> persists c b"
| "persists c (Alt a b) \<longleftrightarrow> persists c a \<and> persists c b"
| "persists c (Star a) \<longleftrightarrow> persists c a"
| "persists c (Not_ahead a) \<longleftrightarrow> stops_at c a"
| "persists c Boundary \<longleftrightarrow> \<not> is_word c"
| "persists c Text_end \<longleftrightarrow> False"
| "persists c r \<longleftrightarrow> True"

definition go_on :: "string \<Rightarrow> place \<Rightarrow> place" where
  "go_on t x = (fst x, snd x @ t)"

lemma go_on_simps [simp]: "fst (go_on t x) = fst x" "snd (go_on t x) = snd x @ t"
  by (simp_all add: go_on_def)

lemma boundary_append: "\<not> is_word c \<Longrightarrow> boundary (s @ c # t) = boundary s"
  by (cases s) (simp_all add: boundary_def)

lemma ends_stops_at: "stops_at c r \<Longrightarrow> ends r (go_on (c # t) x) = map (go_on (c # t)) (ends r x)"
proof (induction r x rule: ends.induct)
  case (5 a x)
  have "map (\<lambda>y. if length (snd y) < length (snd (go_on (c # t) x)) then ends (Star a) y else []) (ends a (go_on (c # t) x))
      = map (map (go_on (c # t)) \<circ> (\<lambda>y. if length (snd y) < length (snd x) then ends (Star a) y else [])) (ends a x)"
    using 5 by (auto simp: map_concat)
  then show ?case
    by (subst (1 2) ends.simps(5)) (simp add: map_concat)
next
  case (3 a b x)
  then have "map (ends b) (ends a (go_on (c # t) x)) = map (map (go_on (c # t)) \<circ> ends b) (ends a x)"
    by auto
  then show ?case by (simp add: map_concat)
qed (auto simp: at_boundary_def boundary_append go_on_def split: list.splits)

lemma ends_persists:
  "persists c r \<Longrightarrow> y \<in> set (ends r x) \<Longrightarrow> go_on (c # t) y \<in> set (ends r (go_on (c # t) x))"
proof (induction r x arbitrary: y rule: ends.induct)
  case (5 a x)
  show ?case
  proof (cases "y = x")
    case True
    then show ?thesis by (subst ends.simps(5)) simp
  next
    case False
    then obtain z where z: "z \<in> set (ends a x)" "length (snd z) < length (snd x)" "y \<in> set (ends (Star a) z)"
      using 5(4) by (auto simp: ends.simps(5) [of a x] split: if_splits)
    have "persists c a" using 5(3) by simp
    then have "go_on (c # t) z \<in> set (ends a (go_on (c # t) x))" using 5(1) z(1) by blast
    moreover have "go_on (c # t) y \<in> set (ends (Star a) (go_on (c # t) z))" using 5(2) z 5(3) by blast
    ultimately show ?thesis
      by (subst ends.simps(5)) (use z(2) in \<open>auto intro!: bexI [of _ "go_on (c # t) z"]\<close>)
  qed
next
  case (3 a b x)
  then obtain z where z: "z \<in> set (ends a x)" "y \<in> set (ends b z)" by auto
  with 3 have "go_on (c # t) z \<in> set (ends a (go_on (c # t) x))" "go_on (c # t) y \<in> set (ends b (go_on (c # t) z))"
    by (simp_all del: go_on_simps)
  then show ?case unfolding ends.simps by (auto intro!: bexI [of _ "go_on (c # t) z"])
next
  case (8 a x)
  then show ?case by (auto simp: ends_stops_at split: if_splits)
qed (auto simp: at_boundary_def boundary_append go_on_def split: list.splits if_splits)

lemma re_search_ends: "re_search r s \<longleftrightarrow> (\<exists>u v. s = u @ v \<and> ends r (rev u, v) \<noteq> [])"
proof -
  have "match_here r x \<noteq> None \<longleftrightarrow> ends r x \<noteq> []" for x
    by (simp add: match_here_def split: list.split)
  then show ?thesis by (simp add: re_search_iff)
qed

lemma re_search_persists:
  assumes "persists c r" and "re_search r s"
  shows "re_search r (s @ c # t)"
proof -
  from assms(2) obtain u v y where "s = u @ v" "y \<in> set (ends r (rev u, v))"
    unfolding re_search_ends by (metis list.set_intros(1) neq_Nil_conv)
  then have "s @ c # t = u @ (v @ c # t)" "ends r (rev u, v @ c # t) \<noteq> []"
    using ends_persists [OF assms(1), of y "(rev u, v)" t] by (auto simp: go_on_def)
  then show ?thesis unfolding re_search_ends by blast
qed

lemma find_from_match:
  "find_from r p s = Some (i, n) \<Longrightarrow> match_here r (rev (take i s) @ p, drop i s) = Some n"
  by (induction r p s arbitrary: i n rule: find_from.induct) (auto split: option.splits)

end
