(* ===== verification/Routing.thy ===== *)
theory Routing
  imports Regex
begin

text \<open>
  How a question is routed: \<open>guardrails/domain.py\<close> (which product it is about, and the rewriting of
  the product's misheard names), \<open>routing/intent.py\<close> (what kind of question it is), the bare
  greeting of \<open>answer/orchestrator.py\<close>, and the follow-up rewriting of \<open>answer/memory.py\<close>. The
  patterns are regular expressions as data, in the order of the source. Code points above 255 are
  not characters of the model, so the curly apostrophes of the self-reference rules are the straight
  one here.
\<close>

section \<open>Patterns\<close>

text \<open>A phrase: words separated by white space, ignoring case.\<close>

fun phrase :: "string list \<Rightarrow> regex" where
  "phrase [] = Eps"
| "phrase [w] = ilit w"
| "phrase (w # ws) = Seq (ilit w) (Seq spaces (phrase ws))"

definition whole :: "regex \<Rightarrow> regex" where
  "whole r = seqs [Boundary, r, Boundary]"

section \<open>Domains\<close>

datatype domain = Claude_api | Claude_code | Codex | Gemini_api | Citevyn | Unsupported | General

definition allowed_domains :: "domain list" where
  "allowed_domains = [Claude_api, Claude_code, Codex, Gemini_api, Citevyn]"

definition domain_value :: "domain \<Rightarrow> string" where
  "domain_value d = (case d of
     Claude_api \<Rightarrow> ''claude_api'' | Claude_code \<Rightarrow> ''claude_code'' | Codex \<Rightarrow> ''codex''
   | Gemini_api \<Rightarrow> ''gemini_api'' | Citevyn \<Rightarrow> ''citevyn'' | Unsupported \<Rightarrow> ''unsupported''
   | General \<Rightarrow> ''general'')"

definition is_unsupported :: "domain \<Rightarrow> bool" where
  "is_unsupported d \<longleftrightarrow> d = Unsupported"

definition alias_gap :: "char \<Rightarrow> bool" where
  "alias_gap = one_of [CHR '' '', CHR 0x09, CHR ''-'']"

definition citevyn_aliases :: "regex list" where
  "citevyn_aliases =
     map ilit [''citevin'', ''citewin'', ''sitevyn'', ''sitevin'', ''sitewin'', ''sightvyn'', ''sightvin'', ''sightwin'']
     @ map (\<lambda>w. seqs [ilit w, Class alias_gap, ilit ''vyn'']) [''cite'', ''site'', ''sight'']"

definition identifier_char :: "char \<Rightarrow> bool" where
  "identifier_char c \<longleftrightarrow> is_word c \<or> one_of ''./@:=-'' c"

text \<open>The lookahead: a run of identifier characters that ends in a word character.\<close>

definition identifier_follows :: regex where
  "identifier_follows = Seq (Star (Class identifier_char)) (Class is_word)"

definition citevyn_re :: regex where
  "citevyn_re =
     Alt (whole (ilit ''citevyn''))
         (seqs [Not_behind identifier_char, Boundary, alts citevyn_aliases, Boundary, Not_ahead identifier_follows])"

definition gap :: regex where
  "gap = plus (Class (\<lambda>c. py_isspace c \<or> c = CHR ''-''))"

definition product_patterns :: "(domain \<times> regex) list" where
  "product_patterns =
     [(Claude_code, whole (seqs [ilit ''claude'', gap, ilit ''code''])),
      (Claude_api, whole (seqs [ilit ''claude'', gap, ilit ''api''])),
      (Gemini_api, seqs [Boundary, ilit ''gemini'', opt (Seq gap (ilit ''api'')), Boundary]),
      (Codex, whole (ilit ''codex''))]"

definition domain_patterns :: "(domain \<times> regex) list" where
  "domain_patterns = (Citevyn, citevyn_re) # product_patterns @ [(Claude_api, whole (ilit ''claude''))]"

definition classify_domain :: "string \<Rightarrow> domain" where
  "classify_domain question =
     (if strip question = [] then Unsupported
      else (case List.find (\<lambda>(d, p). re_search p question) domain_patterns of
              None \<Rightarrow> Unsupported
            | Some (d, p) \<Rightarrow> d))"

section \<open>Several products in one question\<close>

text \<open>The patterns without the \<open>citevyn\<close> one and without the bare product-family name.\<close>

definition multihop_patterns :: "(domain \<times> regex) list" where
  "multihop_patterns = product_patterns"

definition overlaps :: "nat \<times> nat \<Rightarrow> nat \<times> nat \<Rightarrow> bool" where
  "overlaps a b \<longleftrightarrow> fst a < snd b \<and> fst b < snd a"

definition take_span :: "domain \<Rightarrow> nat \<times> nat \<Rightarrow> (nat \<times> nat) list \<times> domain list \<Rightarrow> (nat \<times> nat) list \<times> domain list" where
  "take_span d s = (\<lambda>(spans, ds).
     if \<exists>t\<in>set spans. overlaps s t then (spans, ds)
     else (spans @ [s], if d \<in> set ds then ds else ds @ [d]))"

definition take_pattern :: "string \<Rightarrow> domain \<times> regex \<Rightarrow> (nat \<times> nat) list \<times> domain list \<Rightarrow> (nat \<times> nat) list \<times> domain list" where
  "take_pattern question = (\<lambda>(d, p). fold (take_span d) (re_spans p question))"

definition classify_domains :: "string \<Rightarrow> domain list" where
  "classify_domains question =
     (if strip question = [] then []
      else if re_search citevyn_re question then [Citevyn]
      else snd (fold (take_pattern question) multihop_patterns ([], [])))"

section \<open>Names of the product\<close>

definition canonical_product_name :: string where
  "canonical_product_name = ''CiteVyn''"

definition canonicalize_product_name :: "string \<Rightarrow> string" where
  "canonicalize_product_name question =
     (if question = [] then question else re_sub citevyn_re (\<lambda>_. canonical_product_name) question)"

definition citevyn_ambiguous_re :: regex where
  "citevyn_ambiguous_re = whole (seqs [alts (map ilit [''cite'', ''site'', ''sight'']), spaces, ilit ''win''])"

definition contains_ambiguous_citevyn_alias :: "string \<Rightarrow> bool" where
  "contains_ambiguous_citevyn_alias text \<longleftrightarrow> text \<noteq> [] \<and> re_search citevyn_ambiguous_re text"

definition canonicalize_ambiguous_alias :: "string \<Rightarrow> string" where
  "canonicalize_ambiguous_alias text =
     (if text = [] then text else re_sub citevyn_ambiguous_re (\<lambda>_. canonical_product_name) text)"

definition apos :: string where
  "apos = [CHR 0x27]"

definition self_reference_opener :: regex where
  "self_reference_opener =
     opt (seqs [alts (map ilit [''hi'', ''hey'', ''hello'', ''ok'', ''okay'', ''so'', ''well'', ''um'']),
       Boundary, plus (Class (\<lambda>c. py_isspace c \<or> c = CHR '',''))])"

definition self_reference_rules :: "(regex list \<times> string) list" where
  "self_reference_rules =
     [([phrase [''who'', ''are'', ''you''],
        seqs [ilit ''who'', Alt spaces (lit apos), ilit ''re'', spaces, ilit ''you''],
        phrase [''what'', ''are'', ''you''],
        seqs [phrase [''who'', ''am'', ''i''], spaces, alts (map ilit [''talking'', ''speaking'', ''chatting'']), spaces,
          alts (map ilit [''to'', ''with''])],
        seqs [ilit ''what'', Alt (Seq (lit apos) (ilit ''s'')) (Seq spaces (ilit ''is'')), spaces, phrase [''your'', ''name'']],
        phrase [''tell'', ''me'', ''about'', ''yourself''],
        phrase [''introduce'', ''yourself'']],
       ''What is CiteVyn?''),
      ([phrase [''what'', ''can'', ''you'', ''do''],
        phrase [''what'', ''do'', ''you'', ''do''],
        phrase [''what'', ''are'', ''you'', ''for''],
        Seq (phrase [''how'', ''can'', ''you'', ''help'']) (opt (Seq spaces (ilit ''me''))),
        seqs [phrase [''what'', ''can'', ''you'', ''help''], spaces, opt (Seq (ilit ''me'') spaces), ilit ''with''],
        ilit ''help''],
       ''What can CiteVyn do?''),
      ([Seq (phrase [''what'', ''do'', ''you'', ''know'']) (opt (Seq spaces (ilit ''about''))),
        phrase [''what'', ''do'', ''you'', ''cover''],
        seqs [ilit ''what'', spaces, ilit ''topic'', opt (ilit ''s''), spaces, phrase [''do'', ''you'', ''cover'']],
        phrase [''what'', ''can'', ''you'', ''answer''],
        Seq (phrase [''what'', ''can'', ''i'', ''ask'']) (opt (Seq spaces (ilit ''you''))),
        seqs [ilit ''what'', spaces, ilit ''source'', opt (ilit ''s''), spaces, phrase [''do'', ''you'', ''use'']]],
       ''What does CiteVyn cover?'')]"

definition closing_char :: "char \<Rightarrow> bool" where
  "closing_char c \<longleftrightarrow> py_isspace c \<or> one_of '',.!?'' c"

definition self_reference_re :: "regex list \<Rightarrow> regex" where
  "self_reference_re phrasings =
     seqs [Text_start, Star (Class py_isspace), self_reference_opener, alts phrasings, Star (Class closing_char), Text_end]"

definition canonicalize_self_reference :: "string \<Rightarrow> string" where
  "canonicalize_self_reference question =
     (if strip question = [] then question
      else (case List.find (\<lambda>(ps, c). re_match (self_reference_re ps) question) self_reference_rules of
              None \<Rightarrow> question
            | Some (ps, c) \<Rightarrow> c))"

section \<open>Greetings\<close>

definition greeting_re :: regex where
  "greeting_re =
     seqs [Text_start, Star (Class py_isspace),
       alts (map ilit [''hi'', ''hello'', ''hey'', ''heya'', ''hiya'', ''howdy'', ''yo'', ''sup'', ''greetings'']
         @ [Seq (opt (Seq (ilit ''good'') spaces)) (alts (map ilit [''morning'', ''afternoon'', ''evening'']))]),
       Star (Seq (plus (Class (\<lambda>c. py_isspace c \<or> c = CHR '','')))
         (alts (map ilit [''there'', ''citevyn'', ''sitevyn'', ''team'', ''folks'', ''everyone'', ''all'', ''bot'', ''assistant'', ''user'']))),
       Star (Class closing_char), Text_end]"

definition is_greeting :: "string \<Rightarrow> bool" where
  "is_greeting question \<longleftrightarrow> re_match greeting_re question"

section \<open>Intents\<close>

datatype intent = Faq | Exact_lookup | How_to | Clarify | No_answer | Greeting | Unsupported_intent

definition intent_value :: "intent \<Rightarrow> string" where
  "intent_value i = (case i of
     Faq \<Rightarrow> ''faq'' | Exact_lookup \<Rightarrow> ''exact_lookup'' | How_to \<Rightarrow> ''how_to'' | Clarify \<Rightarrow> ''clarify''
   | No_answer \<Rightarrow> ''no_answer'' | Greeting \<Rightarrow> ''greeting'' | Unsupported_intent \<Rightarrow> ''unsupported'')"

definition how_to_re :: regex where
  "how_to_re = whole (alts
     [Seq (ilit ''how'') (opt (Seq spaces (alts (map ilit [''do'', ''can'', ''should'', ''to''])))),
      ilit ''configure'', phrase [''set'', ''up''], ilit ''setup'', ilit ''install'', ilit ''enable'', ilit ''disable''])"

text \<open>\<open>[A-Z][A-Z0-9_]{2,}\<close>, under \<open>IGNORECASE\<close>: letters of either case.\<close>

definition env_name :: regex where
  "env_name = Seq (Class is_letter) (at_least 2 (Class (\<lambda>c. is_letter c \<or> is_digit c \<or> c = CHR ''_'')))"

definition exact_lookup_re :: regex where
  "exact_lookup_re = alts
     [seqs [lit ''--'', Class is_letter, plus (Class (\<lambda>c. is_letter c \<or> is_digit c \<or> c = CHR ''-''))],
      seqs [Boundary, env_name, lit ''='', plus (Class (\<lambda>c. \<not> py_isspace c))],
      seqs [lit ''$'', env_name, Boundary],
      seqs [lit [CHR 0x60], plus (Class (\<lambda>c. c \<noteq> CHR 0x60 \<and> c \<noteq> CHR 0x0A)), lit [CHR 0x60]],
      seqs [Boundary, alts [ilit ''env'', phrase [''environment'', ''variable'']], spaces,
        opt (Class (one_of [CHR 0x60, CHR 0x27, CHR 0x22])), env_name]]"

definition bare_env_var_re :: regex where
  "bare_env_var_re = whole (seqs
     [Class is_upper, Star (Class (\<lambda>c. is_upper c \<or> is_digit c)), lit ''_'',
      at_least 2 (Class (\<lambda>c. is_upper c \<or> is_digit c \<or> c = CHR ''_''))])"

text \<open>\<open>question.split()\<close>: the words between white space.\<close>

function py_split :: "string \<Rightarrow> string list" where
  "py_split s = (let t = lstrip s in
     if t = [] then [] else takeWhile (\<lambda>c. \<not> py_isspace c) t # py_split (dropWhile (\<lambda>c. \<not> py_isspace c) t))"
  by pat_completeness auto
termination
proof (relation "measure length")
  fix s t :: string
  assume t: "t = lstrip s" "t \<noteq> []"
  then obtain c u where c: "t = c # u" "\<not> py_isspace c"
    unfolding lstrip_def by (metis hd_dropWhile list.exhaust list.sel(1))
  then have "length (dropWhile (\<lambda>c. \<not> py_isspace c) t) \<le> length u" by (simp add: length_dropWhile_le)
  moreover have "length t \<le> length s" using t(1) by (simp add: lstrip_def length_dropWhile_le)
  ultimately show "(dropWhile (\<lambda>c. \<not> py_isspace c) t, s) \<in> measure length" using c(1) by simp
qed simp

declare py_split.simps [simp del]

definition classify_intent :: "string \<Rightarrow> domain \<Rightarrow> intent" where
  "classify_intent question d =
     (if d = Unsupported then Unsupported_intent
      else if strip question = [] then Clarify
      else if re_search exact_lookup_re question then Exact_lookup
      else if re_search bare_env_var_re question then Exact_lookup
      else if re_search how_to_re question then How_to
      else if length (py_split question) \<le> 2 then Clarify
      else Faq)"

definition should_skip_retrieval :: "intent \<Rightarrow> bool" where
  "should_skip_retrieval i \<longleftrightarrow> i \<in> {Unsupported_intent, Clarify}"

section \<open>Follow-ups\<close>

definition anaphora_re :: regex where
  "anaphora_re = whole (alts
     (map ilit [''it'', ''its'', ''it'' @ apos @ ''s'', ''that'', ''those'', ''these'', ''them'', ''they'', ''their'', ''this'']
      @ [phrase [''the'', ''other''], phrase [''the'', ''others''], ilit ''another'', phrase [''the'', ''rest''],
         phrase [''the'', ''same''],
         seqs [phrase [''one'', ''of''], spaces, alts (map ilit [''them'', ''those''])]]))"

definition ellipsis_re :: regex where
  "ellipsis_re = seqs [Text_start, Star (Class py_isspace),
     alts (map ilit [''and'', ''or'', ''but'', ''so'']
       @ [phrase [''what'', ''about''], phrase [''how'', ''about''], phrase [''what'', ''else''],
          seqs [ilit ''any'', spaces, ilit ''other'', opt (ilit ''s'')]]),
     Boundary]"

definition is_anaphoric_followup :: "string \<Rightarrow> bool" where
  "is_anaphoric_followup question \<longleftrightarrow> re_search anaphora_re question \<or> re_search ellipsis_re question"

definition build_contextual_query :: "string \<Rightarrow> string list \<Rightarrow> string" where
  "build_contextual_query question prior =
     (if classify_domain question \<noteq> Unsupported then question
      else if \<not> is_anaphoric_followup question then question
      else (case List.find (\<lambda>p. classify_domain p \<noteq> Unsupported) prior of
              None \<Rightarrow> question
            | Some p \<Rightarrow> p @ '' '' @ question))"

section \<open>Follow-ups reach the product they lean on\<close>

lemma strip_empty_iff: "strip s = [] \<longleftrightarrow> (\<forall>c\<in>set s. py_isspace c)"
proof -
  have "c \<in> set s \<Longrightarrow> \<not> py_isspace c \<Longrightarrow> c \<in> set (dropWhile py_isspace s)" for c
    by (metis UnE set_append set_takeWhileD takeWhile_dropWhile_id)
  then show ?thesis
    by (auto simp: strip_def lstrip_def dropWhile_eq_Nil_conv dest: set_dropWhileD)
qed

lemma domain_pattern_routes: "(d, p) \<in> set domain_patterns \<Longrightarrow> d \<noteq> Unsupported"
  by (auto simp: domain_patterns_def product_patterns_def)

lemma classify_routes:
  "classify_domain q \<noteq> Unsupported \<longleftrightarrow> strip q \<noteq> [] \<and> (\<exists>(d, p)\<in>set domain_patterns. re_search p q)"
proof (cases "List.find (\<lambda>(d, p). re_search p q) domain_patterns")
  case None
  then have "\<forall>(d, p)\<in>set domain_patterns. \<not> re_search p q" by auto
  with None show ?thesis by (auto simp: classify_domain_def simp del: find_None_iff_set)
next
  case (Some e)
  from find_Some_iff_nth [OF this] have "e \<in> set domain_patterns" "re_search (snd e) q"
    by (simp_all add: case_prod_beta)
  moreover have "fst e \<noteq> Unsupported"
    using \<open>e \<in> set domain_patterns\<close> domain_pattern_routes [of "fst e" "snd e"] by simp
  ultimately show ?thesis using Some by (auto simp: classify_domain_def case_prod_beta)
qed

lemma pattern_persists: "(d, p) \<in> set domain_patterns \<Longrightarrow> persists (CHR '' '') p"
  by (auto simp: domain_patterns_def product_patterns_def whole_def citevyn_re_def citevyn_aliases_def ilit_def
      gap_def plus_def opt_def identifier_follows_def identifier_char_def one_of_def is_word_def)

lemma contextual_query_routes:
  assumes "classify_domain p \<noteq> Unsupported"
  shows "classify_domain (p @ '' '' @ q) \<noteq> Unsupported"
proof -
  from assms obtain d r where "(d, r) \<in> set domain_patterns" "re_search r p" "strip p \<noteq> []"
    unfolding classify_routes by blast
  then have "re_search r (p @ '' '' @ q)" "strip (p @ '' '' @ q) \<noteq> []"
    using re_search_persists [OF pattern_persists] by (auto simp: strip_empty_iff)
  then show ?thesis using \<open>(d, r) \<in> set domain_patterns\<close> unfolding classify_routes by blast
qed

lemma find_first_split:
  "List.find P xs = Some x \<Longrightarrow> \<exists>newer older. xs = newer @ x # older \<and> (\<forall>y\<in>set newer. \<not> P y) \<and> P x"
proof (induction xs)
  case (Cons y ys)
  show ?case
  proof (cases "P y")
    case True
    with Cons show ?thesis by (intro exI [of _ "[]"] exI [of _ ys]) auto
  next
    case False
    with Cons obtain newer older where "ys = newer @ x # older" "\<forall>y\<in>set newer. \<not> P y" "P x" by auto
    with False show ?thesis by (intro exI [of _ "y # newer"] exI [of _ older]) auto
  qed
qed simp

text \<open>C26: A follow-up is rewritten only under the three gates, and then it is answerable. When the
  contextual query differs from the question, the question itself names no product and leans on
  earlier turns, the text put before it is the latest earlier question that names a product, every
  later one names none, and the rewritten query never routes to the unsupported refusal.\<close>
theorem followup_leans_on_the_latest_product_turn:
  assumes "build_contextual_query q prior \<noteq> q"
  shows "classify_domain q = Unsupported \<and> is_anaphoric_followup q
    \<and> (\<exists>newer p older. prior = newer @ p # older \<and> (\<forall>r\<in>set newer. classify_domain r = Unsupported)
         \<and> classify_domain p \<noteq> Unsupported \<and> build_contextual_query q prior = p @ '' '' @ q)
    \<and> classify_domain (build_contextual_query q prior) \<noteq> Unsupported"
proof -
  from assms obtain p where u: "classify_domain q = Unsupported" "is_anaphoric_followup q"
    and p: "List.find (\<lambda>p. classify_domain p \<noteq> Unsupported) prior = Some p"
    by (auto simp: build_contextual_query_def simp del: find_None_iff_set split: if_splits option.splits)
  then have b: "build_contextual_query q prior = p @ '' '' @ q"
    by (simp add: build_contextual_query_def)
  from find_first_split [OF p] u b contextual_query_routes show ?thesis by auto
qed

lemma demo_followup:
  "classify_domain ''it'' = Unsupported" "is_anaphoric_followup ''it''"
  "classify_domain ''Codex'' = Codex"
  by code_simp+

theorem followup_leans_on_the_latest_product_turn_witness:
  "classify_domain (build_contextual_query ''it'' [''Codex'', ''Gemini'']) \<noteq> Unsupported"
  by (rule followup_leans_on_the_latest_product_turn [THEN conjunct2, THEN conjunct2, THEN conjunct2])
    (simp add: build_contextual_query_def demo_followup)

section \<open>Canonical names keep the route\<close>

lemma all_chars: "c \<in> set (map char_of [0..<256::nat])"
  using UNIV_I [of c] unfolding UNIV_char_of_nat by simp

lemma is_word_lower: "is_word (lower_char c) = is_word c"
proof -
  have "\<forall>c\<in>set (map char_of [0..<256::nat]). is_word (lower_char c) = is_word c"
    by code_simp
  then show ?thesis
    using all_chars [of c] by blast
qed

definition starts_with_word :: "regex \<Rightarrow> bool" where
  "starts_with_word r \<longleftrightarrow> (\<forall>x y. y \<in> set (ends r x) \<longrightarrow> (\<exists>c s. snd x = c # s \<and> is_word c))"

definition ends_with_word :: "regex \<Rightarrow> bool" where
  "ends_with_word r \<longleftrightarrow> (\<forall>x y. y \<in> set (ends r x) \<longrightarrow> (\<exists>c s. fst y = c # s \<and> is_word c))"

lemma starts_with_word_intros:
  "starts_with_word a \<Longrightarrow> starts_with_word (Seq a b)"
  "starts_with_word a \<Longrightarrow> starts_with_word b \<Longrightarrow> starts_with_word (Alt a b)"
  "(\<And>c. P c \<Longrightarrow> is_word c) \<Longrightarrow> starts_with_word (Class P)"
  by (fastforce simp: starts_with_word_def split: list.splits)+

lemma ends_with_word_intros:
  "ends_with_word b \<Longrightarrow> ends_with_word (Seq a b)"
  "ends_with_word a \<Longrightarrow> ends_with_word b \<Longrightarrow> ends_with_word (Alt a b)"
  "(\<And>c. P c \<Longrightarrow> is_word c) \<Longrightarrow> ends_with_word (Class P)"
  by (fastforce simp: ends_with_word_def split: list.splits)+

lemma ilit_words:
  assumes "w \<noteq> []" and "\<forall>c\<in>set w. is_word c"
  shows "starts_with_word (ilit w)" and "ends_with_word (ilit w)"
proof -
  have c: "lower_char d = lower_char c \<Longrightarrow> is_word c \<Longrightarrow> is_word d" for c d
    by (metis is_word_lower)
  have "w \<noteq> [] \<Longrightarrow> \<forall>c\<in>set w. is_word c \<Longrightarrow> starts_with_word (ilit w) \<and> ends_with_word (ilit w)"
    unfolding ilit_def
  proof (induction w rule: induct_list012)
    case (2 a)
    then show ?case by (auto intro!: starts_with_word_intros ends_with_word_intros intro: c)
  next
    case (3 a b w)
    then have "starts_with_word (Class (\<lambda>d. lower_char d = lower_char a))"
      by (auto intro!: starts_with_word_intros intro: c)
    with 3 show ?case by (simp add: starts_with_word_intros(1) ends_with_word_intros(1))
  qed simp
  with assms show "starts_with_word (ilit w)" "ends_with_word (ilit w)" by auto
qed

lemma alts_words:
  "rs \<noteq> [] \<Longrightarrow> \<forall>r\<in>set rs. starts_with_word r \<Longrightarrow> starts_with_word (alts rs)"
  "rs \<noteq> [] \<Longrightarrow> \<forall>r\<in>set rs. ends_with_word r \<Longrightarrow> ends_with_word (alts rs)"
  by (induction rs rule: alts.induct) (auto intro: starts_with_word_intros ends_with_word_intros)

lemma alias_words: "\<forall>r\<in>set citevyn_aliases. starts_with_word r \<and> ends_with_word r"
  by (simp add: citevyn_aliases_def is_word_bits starts_with_word_intros(1) ends_with_word_intros(1) ilit_words)

text \<open>Every match of the product's name is a stretch of its own between two word boundaries.\<close>

lemma whole_bounds:
  assumes "y \<in> set (ends (Seq Boundary (Seq r (Seq Boundary k))) x)" "starts_with_word r" "ends_with_word r"
    and k: "\<And>z y. y \<in> set (ends k z) \<Longrightarrow> y = z"
  shows "boundary (fst x) \<and> \<not> boundary (snd x) \<and> boundary (snd y) \<and> length (snd y) < length (snd x)"
proof -
  from assms(1) have x: "at_boundary x" "y \<in> set (ends (Seq r (Seq Boundary k)) x)"
    unfolding ends.simps(3) [of Boundary] ends.simps(6) by (cases "at_boundary x"; simp)+
  then obtain z where z: "z \<in> set (ends r x)" "y \<in> set (ends (Seq Boundary k) z)"
    unfolding ends.simps(3) [of r] by auto
  then have "at_boundary z" "y \<in> set (ends k z)"
    unfolding ends.simps(3) [of Boundary] ends.simps(6) by (cases "at_boundary z"; simp)+
  with k [of y z] z x have y: "y \<in> set (ends r x)" "at_boundary x" "at_boundary y" by simp_all
  then obtain c s d t where c: "snd x = c # s" "is_word c" "fst y = d # t" "is_word d"
    using assms(2,3) unfolding starts_with_word_def ends_with_word_def by meson
  then have n: "\<not> boundary (snd x)" "\<not> boundary (fst y)" by (simp_all add: boundary_def)
  with y have b: "boundary (fst x)" "boundary (snd y)" by (simp_all add: at_boundary_def)
  with n have "fst y \<noteq> fst x" by metis
  with ends_advance [OF y(1)] have "length (snd y) < length (snd x)" by auto
  with n b show ?thesis by simp
qed

lemma ends_Not_behind: "y \<in> set (ends (Seq (Not_behind P) r) x) \<Longrightarrow> y \<in> set (ends r x)"
  by (cases "fst x"; cases "P (hd (fst x))") simp_all

lemma citevyn_match_bounds:
  assumes "y \<in> set (ends citevyn_re x)"
  shows "boundary (fst x) \<and> \<not> boundary (snd x) \<and> boundary (snd y) \<and> length (snd y) < length (snd x)"
proof -
  have nn: "starts_with_word (ilit ''citevyn'')" "ends_with_word (ilit ''citevyn'')"
    by (simp_all add: ilit_words is_word_bits)
  have "citevyn_aliases \<noteq> []" by (simp add: citevyn_aliases_def)
  then have a: "starts_with_word (alts citevyn_aliases)" "ends_with_word (alts citevyn_aliases)"
    using alias_words by (simp_all add: alts_words)
  have e: "ends (Seq Boundary Eps) = ends Boundary" by (rule ext) simp
  have "y \<in> set (ends (Seq Boundary (Seq (ilit ''citevyn'') Boundary)) x)
      \<or> y \<in> set (ends (Seq (Not_behind identifier_char)
          (Seq Boundary (Seq (alts citevyn_aliases) (Seq Boundary (Not_ahead identifier_follows))))) x)"
    using assms unfolding citevyn_re_def whole_def seqs.simps ends.simps(4) set_append Un_iff .
  then consider "y \<in> set (ends (Seq Boundary (Seq (ilit ''citevyn'') (Seq Boundary Eps))) x)"
    | "y \<in> set (ends (Seq Boundary (Seq (alts citevyn_aliases) (Seq Boundary (Not_ahead identifier_follows)))) x)"
    unfolding ends.simps(3) [of "ilit _"] ends.simps(3) [of Boundary "Seq (ilit _) _"] e
    using ends_Not_behind by metis
  then show ?thesis
  proof cases
    case 1
    then show ?thesis by (rule whole_bounds [OF _ nn]) simp
  next
    case 2
    then show ?thesis by (rule whole_bounds [OF _ a]) (simp split: if_splits)
  qed
qed

text \<open>An expression each match of which is such a stretch.\<close>

definition name_re :: "regex \<Rightarrow> bool" where
  "name_re r \<longleftrightarrow> (\<forall>x y. y \<in> set (ends r x) \<longrightarrow>
     boundary (fst x) \<and> \<not> boundary (snd x) \<and> boundary (snd y) \<and> length (snd y) < length (snd x))"

lemma name_re_citevyn: "name_re citevyn_re"
  unfolding name_re_def using citevyn_match_bounds by blast

lemma name_re_whole: "starts_with_word r \<Longrightarrow> ends_with_word r \<Longrightarrow> name_re (whole r)"
  unfolding name_re_def whole_def seqs.simps
  by (intro allI impI whole_bounds [of _ r Eps]) simp_all

lemma name_found:
  assumes "name_re r" and "find_from r p s = Some (i, n)"
  shows "boundary (rev (take i s) @ p)" and "\<not> boundary (drop i s)" and "0 < n"
    and "boundary (drop (i + n) s)" and "i + n \<le> length s"
proof -
  from find_from_match [OF assms(2)] obtain y where y: "y \<in> set (ends r (rev (take i s) @ p, drop i s))"
    and n: "n = length (drop i s) - length (snd y)"
    by (auto simp: match_here_def split: list.splits)
  from ends_advance [OF y] obtain u where u: "drop i s = u @ snd y" by (elim exE conjE) simp
  then have "snd y = drop (length u) (drop i s)" and "n = length u" using n by simp_all
  then have "snd y = drop (i + n) s" by (simp add: add.commute)
  moreover have b: "boundary (rev (take i s) @ p) \<and> \<not> boundary (drop i s) \<and> boundary (snd y) \<and> length (snd y) < length (drop i s)"
    using assms(1) [unfolded name_re_def, rule_format, OF y] by simp
  ultimately show "boundary (drop (i + n) s)" by simp
  from b show "boundary (rev (take i s) @ p)" "\<not> boundary (drop i s)" by simp_all
  from b u \<open>n = length u\<close> show "0 < n" by simp
  show "i + n \<le> length s" by (rule find_from_bounds [OF assms(2)])
qed

lemmas citevyn_found = name_found [OF name_re_citevyn]

lemma boundary_sub_from:
  assumes "name_re r" and "boundary s"
  shows "boundary (sub_from r f p s)"
proof (cases "find_from r p s")
  case None
  with assms show ?thesis by (simp add: sub_from.simps)
next
  case (Some m)
  then obtain i n where m: "find_from r p s = Some (i, n)" by (cases m) auto
  with name_found(2) [OF assms(1)] assms(2) have "i \<noteq> 0" by (metis drop0)
  moreover have "s \<noteq> []" using name_found(3,5) [OF assms(1) m] by auto
  ultimately obtain c t j where "s = c # t" "i = Suc j" by (metis list.exhaust not0_implies_Suc)
  with m assms show ?thesis by (subst sub_from.simps) (simp add: boundary_def Let_def)
qed

lemma word_not_space: "is_word c \<Longrightarrow> \<not> py_isspace c"
proof -
  have "\<forall>c\<in>set (map char_of [0..<256::nat]). is_word c \<longrightarrow> \<not> py_isspace c"
    by code_simp
  then show "is_word c \<Longrightarrow> \<not> py_isspace c"
    using all_chars [of c] by blast
qed

lemma search_citevyn_routes: "re_search citevyn_re q \<Longrightarrow> classify_domain q = Citevyn \<and> classify_domains q = [Citevyn]"
proof -
  assume s: "re_search citevyn_re q"
  then obtain i n where m: "find_from citevyn_re [] q = Some (i, n)"
    by (auto simp: re_search_def)
  from citevyn_found(2) [OF m] obtain c t where "drop i q = c # t" "is_word c"
    by (auto simp: boundary_def split: list.splits)
  then have "c \<in> set (drop i q)" "\<not> py_isspace c" using word_not_space by simp_all
  then have "c \<in> set q" "\<not> py_isspace c" by (simp_all add: in_set_dropD)
  with s show ?thesis by (auto simp: classify_domain_def classify_domains_def domain_patterns_def strip_empty_iff)
qed

lemma canonical_name_found:
  assumes "boundary p" and "boundary w"
  shows "ends citevyn_re (p, canonical_product_name @ w) \<noteq> []"
  using assms
  by (simp add: citevyn_re_def whole_def ilit_def canonical_product_name_def at_boundary_def boundary_def
      lower_char_bits is_word_bits split: list.splits)

lemma named_search:
  assumes "name_re r" and "re_search r q"
  shows "re_search citevyn_re (re_sub r (\<lambda>_. canonical_product_name) q)"
proof -
  from assms(2) obtain i n where m: "find_from r [] q = Some (i, n)"
    by (auto simp: re_search_def)
  define w where "w = sub_from r (\<lambda>_. canonical_product_name) (rev (take (i + n) q)) (drop (i + n) q)"
  note found = name_found [OF assms(1) m]
  have q: "q \<noteq> []" and k: "max 1 (i + n) = i + n" using found(3,5) by auto
  then have "re_sub r (\<lambda>_. canonical_product_name) q = take i q @ canonical_product_name @ w"
    unfolding re_sub_def w_def
    by (subst sub_from.simps) (use found(3) m k in \<open>simp add: Let_def del: max_0L max_0R\<close>)
  moreover have "boundary w"
    unfolding w_def by (rule boundary_sub_from [OF assms(1) found(4)])
  ultimately show ?thesis
    using canonical_name_found [of "rev (take i q)" w] found(1)
    unfolding re_search_ends by auto
qed

lemma searched_not_empty: "name_re r \<Longrightarrow> re_search r q \<Longrightarrow> q \<noteq> []"
proof -
  assume r: "name_re r" and "re_search r q"
  then obtain i n where m: "find_from r [] q = Some (i, n)" by (auto simp: re_search_def)
  from name_found(3,5) [OF r m] show "q \<noteq> []" by auto
qed

lemma canonicalized_search: "re_search citevyn_re q \<Longrightarrow> re_search citevyn_re (canonicalize_product_name q)"
  using named_search [OF name_re_citevyn] searched_not_empty [OF name_re_citevyn] by (simp add: canonicalize_product_name_def)

lemma name_re_ambiguous: "name_re citevyn_ambiguous_re"
  unfolding citevyn_ambiguous_re_def
  by (rule name_re_whole) (auto intro!: starts_with_word_intros ends_with_word_intros ilit_words simp: is_word_bits)

text \<open>A misheard name that has been confirmed routes to the product.\<close>

lemma confirmed_alias_routes:
  assumes "contains_ambiguous_citevyn_alias q"
  shows "classify_domain (canonicalize_ambiguous_alias q) = Citevyn \<and> classify_domains (canonicalize_ambiguous_alias q) = [Citevyn]"
proof -
  have s: "q \<noteq> []" "re_search citevyn_ambiguous_re q" using assms by (simp_all add: contains_ambiguous_citevyn_alias_def)
  from search_citevyn_routes [OF named_search [OF name_re_ambiguous s(2)]] show ?thesis
    by (simp add: canonicalize_ambiguous_alias_def s(1))
qed



end
