(* ===== verification/Retrieval.thy ===== *)
theory Retrieval
  imports Index_Promotion Embedding_Clients Routing
begin

text \<open>
  The three retrieval arms (\<open>retrieval/exact.py\<close>, \<open>retrieval/keyword.py\<close>, \<open>retrieval/vector.py\<close>,
  \<open>retrieval/confidence.py\<close>) over the corpus tables. The order in which the database returns rows of a
  query without \<open>ORDER BY\<close> and the nearest-neighbour search of pgvector are arguments; \<open>LIKE\<close> is
  written out, with Postgres' escape rules. UUIDs are their text. An \<open>alnum\<close> character is a word
  character other than the underscore.
\<close>

section \<open>The corpus\<close>

datatype document_status = Doc_active | Doc_failed | Doc_deprecated

record document =
  dc_id :: string
  dc_index :: string
  dc_source :: string
  dc_url :: string
  dc_title :: string
  dc_status :: document_status
  dc_as_of :: "(int \<times> int \<times> int) option"

record chunk =
  ch_id :: string
  ch_doc :: string
  ch_area :: string
  ch_section :: string
  ch_heading :: string
  ch_parent :: "string option"
  ch_text :: string
  ch_summary :: string
  ch_order :: int
  ch_embedded :: bool

record exact_term =
  et_text :: string
  et_doc :: string
  et_chunk :: string

record corpus =
  documents :: "document list"
  chunks :: "chunk list"
  terms :: "exact_term list"

type_synonym located = "chunk \<times> document"

definition joined :: "corpus \<Rightarrow> located list" where
  "joined co = concat (map (\<lambda>c. map (Pair c) (filter (\<lambda>d. dc_id d = ch_doc c) (documents co))) (chunks co))"

definition readable :: "string option \<Rightarrow> document \<Rightarrow> bool" where
  "readable version d \<longleftrightarrow> dc_status d = Doc_active \<and> (case version of None \<Rightarrow> True | Some v \<Rightarrow> dc_index d = v)"

definition in_scope :: "string option \<Rightarrow> string option \<Rightarrow> located \<Rightarrow> bool" where
  "in_scope version area x \<longleftrightarrow>
     readable version (snd x) \<and> (case area of None \<Rightarrow> True | Some a \<Rightarrow> ch_area (fst x) = a)"

section \<open>Results of the arms\<close>

record retrieved_chunk =
  rc_id :: string
  rc_doc :: string
  rc_area :: string
  rc_source :: string
  rc_title :: string
  rc_section :: string
  rc_heading :: string
  rc_parent :: "string option"
  rc_text :: string
  rc_summary :: string
  rc_url :: string
  rc_score :: rat
  rc_index :: "string option"
  rc_as_of :: "(int \<times> int \<times> int) option"

definition to_chunk :: "rat \<Rightarrow> located \<Rightarrow> retrieved_chunk" where
  "to_chunk score = (\<lambda>(c, d).
     \<lparr>rc_id = ch_id c, rc_doc = ch_doc c, rc_area = ch_area c, rc_source = dc_source d, rc_title = dc_title d,
      rc_section = ch_section c, rc_heading = ch_heading c, rc_parent = ch_parent c, rc_text = ch_text c,
      rc_summary = ch_summary c, rc_url = dc_url d, rc_score = score, rc_index = Some (dc_index d),
      rc_as_of = dc_as_of d\<rparr>)"

section \<open>Exact terms\<close>

definition exact_rows :: "string option \<Rightarrow> corpus \<Rightarrow> string \<Rightarrow> located list" where
  "exact_rows version co normalized =
     concat (map (\<lambda>t. concat (map (\<lambda>c.
         map (Pair c) (filter (\<lambda>d. et_doc t = dc_id d \<and> readable version d) (documents co)))
       (filter (\<lambda>c. et_chunk t = ch_id c) (chunks co))))
       (filter (\<lambda>t. lower (et_text t) = normalized) (terms co)))"

text \<open>\<open>scan\<close> puts the rows of the query, which has no \<open>ORDER BY\<close>, in the order they come.\<close>

definition exact_retrieve ::
    "(located list \<Rightarrow> located list) \<Rightarrow> string option \<Rightarrow> corpus \<Rightarrow> string \<Rightarrow> string option \<Rightarrow> nat \<Rightarrow> retrieved_chunk list" where
  "exact_retrieve scan version co question area limit =
     (if strip question = [] then []
      else let rows = take (limit * 4) (scan (exact_rows version co (lower (strip question))));
               in_domain = (case area of None \<Rightarrow> [] | Some a \<Rightarrow> filter (\<lambda>x. ch_area (fst x) = a) rows);
               chosen = (if in_domain \<noteq> [] then in_domain else rows)
           in map (to_chunk 1) (take limit chosen))"

section \<open>Keywords\<close>

definition stopwords :: "string list" where
  "stopwords = [''the'', ''a'', ''an'', ''is'', ''are'', ''do'', ''does'', ''how'', ''what'', ''which'']"

definition rstrip_punctuation :: "string \<Rightarrow> string" where
  "rstrip_punctuation s = rev (dropWhile (one_of ''?!.,;:'') (rev s))"

definition is_alnum :: "char \<Rightarrow> bool" where
  "is_alnum c \<longleftrightarrow> is_word c \<and> c \<noteq> CHR ''_''"

definition query_tokens :: "string \<Rightarrow> string list" where
  "query_tokens question =
     filter (\<lambda>t. t \<noteq> [] \<and> t \<notin> set stopwords \<and> (\<exists>c\<in>set t. is_alnum c))
       (map rstrip_punctuation (py_split (lower question)))"

text \<open>\<open>LIKE\<close>: \<open>%\<close> is any text, \<open>_\<close> any character, and the escape takes the next character literally.\<close>

function like :: "char \<Rightarrow> string \<Rightarrow> string \<Rightarrow> bool" where
  "like e [] t = (t = [])"
| "like e (c # p) t =
     (if c = e then
        (case p of
           [] \<Rightarrow> False
         | d # p' \<Rightarrow> (case t of [] \<Rightarrow> False | x # t' \<Rightarrow> x = d \<and> like e p' t'))
      else if c = CHR ''%'' then like e p t \<or> (case t of [] \<Rightarrow> False | _ # t' \<Rightarrow> like e (c # p) t')
      else (case t of [] \<Rightarrow> False | x # t' \<Rightarrow> (c = CHR ''_'' \<or> x = c) \<and> like e p t'))"
  by pat_completeness auto
termination
  by (relation "measure (\<lambda>(e, p, t). length p + length t)") auto

declare like.simps(2) [simp del]

definition ilike :: "char \<Rightarrow> string \<Rightarrow> string \<Rightarrow> bool" where
  "ilike e pattern text \<longleftrightarrow> like e (lower pattern) (lower text)"

definition default_escape :: char where
  "default_escape = CHR 0x5C"

definition like_escape :: char where
  "like_escape = CHR ''/''"

definition replace_char :: "char \<Rightarrow> string \<Rightarrow> string \<Rightarrow> string" where
  "replace_char c r s = concat (map (\<lambda>x. if x = c then r else [x]) s)"

definition like_literal :: "string \<Rightarrow> string" where
  "like_literal token =
     ''%'' @ replace_char (CHR ''_'') [like_escape, CHR ''_'']
       (replace_char (CHR ''%'') [like_escape, CHR ''%'']
         (replace_char like_escape [like_escape, like_escape] token)) @ ''%''"

definition chunk_key :: "located \<Rightarrow> int \<times> string \<times> string" where
  "chunk_key x = (ch_order (fst x), ch_doc (fst x), ch_id (fst x))"

definition keyword_matches :: "string list \<Rightarrow> located list \<Rightarrow> located list" where
  "keyword_matches tokens scope =
     sort_key chunk_key
       (filter (\<lambda>x. \<exists>t\<in>set tokens. ilike default_escape (''%'' @ t @ ''%'') (ch_text (fst x))) scope)"

definition tokens_in_rows :: "string list \<Rightarrow> located list \<Rightarrow> nat" where
  "tokens_in_rows tokens rows =
     length (filter (\<lambda>t. \<exists>x\<in>set rows. sublist t (lower (ch_text (fst x)))) (remdups tokens))"

definition tokens_present_in_scope :: "string list \<Rightarrow> located list \<Rightarrow> nat" where
  "tokens_present_in_scope tokens scope =
     length (filter (\<lambda>t. \<exists>x\<in>set scope. ilike like_escape (like_literal t) (ch_text (fst x))) (remdups tokens))"

definition required_matches :: "string list \<Rightarrow> nat" where
  "required_matches tokens = max 1 (min 2 (length (remdups tokens)))"

definition keyword_retrieve ::
    "string option \<Rightarrow> corpus \<Rightarrow> string \<Rightarrow> string option \<Rightarrow> nat \<Rightarrow> retrieved_chunk list" where
  "keyword_retrieve version co question area limit =
     (let tokens = query_tokens question;
          scope = filter (in_scope version area) (joined co);
          rows = take limit (keyword_matches tokens scope)
      in if tokens = [] then []
         else if rows = [] then []
         else let matched = tokens_in_rows tokens rows;
                  matched' = (if matched < required_matches tokens \<and> length rows \<ge> limit
                              then tokens_present_in_scope tokens scope else matched)
              in if matched' < required_matches tokens then []
                 else map (to_chunk (1 / 2)) rows)"

section \<open>Vectors\<close>

definition is_confident_global_result :: "rat list \<Rightarrow> rat \<Rightarrow> rat \<Rightarrow> bool" where
  "is_confident_global_result scores min_top_score min_margin =
     (case scores of
        [] \<Rightarrow> False
      | best # rest \<Rightarrow>
          if best < min_top_score then False
          else (case rest of [] \<Rightarrow> True | runner_up # _ \<Rightarrow> best - runner_up \<ge> min_margin))"

definition similarity :: "rat \<Rightarrow> rat" where
  "similarity distance = max 0 (1 - distance)"

text \<open>\<open>search\<close> is pgvector's: the rows nearest to the vector with their cosine distances, nearest first.\<close>

type_synonym 'v search = "'v \<Rightarrow> located list \<Rightarrow> nat \<Rightarrow> (located \<times> rat) list"

definition vector_retrieve ::
    "bool \<Rightarrow> 'v search \<Rightarrow> (string \<Rightarrow> emb_error + 'v) \<Rightarrow> (rat \<times> rat) option \<Rightarrow> string option \<Rightarrow> corpus
       \<Rightarrow> string \<Rightarrow> string option \<Rightarrow> nat \<Rightarrow> emb_error + retrieved_chunk list" where
  "vector_retrieve wired search embedding confidence version co question area limit =
     (if \<not> wired then Inr []
      else and_then (embedding question) (\<lambda>v.
        let scope = filter (\<lambda>x. in_scope version area x \<and> ch_embedded (fst x)) (joined co);
            rows = search v scope limit;
            scores = map (\<lambda>(x, distance). similarity distance) rows
        in case (area, confidence) of
             (None, Some (min_top_score, min_margin)) \<Rightarrow>
               if is_confident_global_result scores min_top_score min_margin
               then Inr (map (\<lambda>(x, distance). to_chunk (similarity distance) x) rows)
               else Inr []
           | _ \<Rightarrow> Inr (map (\<lambda>(x, distance). to_chunk (similarity distance) x) rows)))"

section \<open>The keyword floor\<close>

text \<open>Where no character of the pattern is special, \<open>LIKE '%token%'\<close> is the substring test.\<close>

lemma like_percent_end: "e \<noteq> CHR ''%'' \<Longrightarrow> like e ''%'' t"
  by (induction t) (simp_all add: like.simps(2))

text \<open>A pattern that spells a token: some of its characters behind the escape.\<close>

fun spells :: "char \<Rightarrow> string \<Rightarrow> string \<Rightarrow> bool" where
  "spells e [] w \<longleftrightarrow> w = []"
| "spells e (c # p) w \<longleftrightarrow>
     (if c = e then (case p of [] \<Rightarrow> False | d # p' \<Rightarrow> (case w of [] \<Rightarrow> False | x # w' \<Rightarrow> x = d \<and> spells e p' w'))
      else c \<noteq> CHR ''%'' \<and> c \<noteq> CHR ''_'' \<and> (case w of [] \<Rightarrow> False | x # w' \<Rightarrow> x = c \<and> spells e p w'))"

lemma like_spells:
  "spells e p w \<Longrightarrow> e \<noteq> CHR ''%'' \<Longrightarrow> like e (p @ ''%'') t \<longleftrightarrow> prefix w t"
proof (induction e p w arbitrary: t rule: spells.induct)
  case (1 e w)
  then show ?case by (simp add: like_percent_end)
next
  case (2 e c p w)
  show ?case
  proof (cases "c = e")
    case True
    with 2(3) obtain d p' w' where "p = d # p'" "w = d # w'" "spells e p' w'"
      by (auto split: list.splits)
    with 2(1) [of d p' d w'] 2(4) True show ?thesis
      by (cases t) (auto simp: like.simps(2))
  next
    case False
    with 2(3) obtain w' where "w = c # w'" "spells e p w'" "c \<noteq> CHR ''%''" "c \<noteq> CHR ''_''"
      by (auto split: list.splits)
    with 2(2) [of c w'] 2(4) False show ?thesis
      by (cases t) (auto simp: like.simps(2))
  qed
qed

lemma like_around:
  assumes "spells e p w" and "e \<noteq> CHR ''%''"
  shows "like e (''%'' @ p @ ''%'') t \<longleftrightarrow> sublist w t"
proof (induction t)
  case Nil
  then show ?case using like_spells [OF assms, of "[]"] assms(2) by (simp add: like.simps(2))
next
  case (Cons x t)
  then show ?case using like_spells [OF assms, of "x # t"] assms(2)
    by (simp add: like.simps(2) sublist_Cons_right)
qed

lemma lower_special: "c \<in> {CHR ''%'', CHR ''_'', CHR ''/'', CHR 0x5C} \<Longrightarrow> lower_char d = c \<longleftrightarrow> d = c"
proof -
  have "\<forall>c\<in>{CHR ''%'', CHR ''_'', CHR ''/'', CHR 0x5C}. \<forall>d\<in>set (map char_of [0..<256::nat]). lower_char d = c \<longleftrightarrow> d = c"
    by code_simp
  then show "c \<in> {CHR ''%'', CHR ''_'', CHR ''/'', CHR 0x5C} \<Longrightarrow> lower_char d = c \<longleftrightarrow> d = c"
    using all_chars [of d] by blast
qed

lemma lower_fixed: "lower_char CHR ''%'' = CHR ''%''" "lower_char CHR ''_'' = CHR ''_''"
    "lower_char CHR ''/'' = CHR ''/''" "lower_char CHR 0x5C = CHR 0x5C"
  by (simp_all add: lower_char_bits)

lemma literal_spells:
  "spells like_escape (lower (replace_char (CHR ''_'') [like_escape, CHR ''_'']
       (replace_char (CHR ''%'') [like_escape, CHR ''%'']
         (replace_char like_escape [like_escape, like_escape] w)))) (lower w)"
  by (induction w) (auto simp: replace_char_def like_escape_def lower_def lower_special lower_fixed)

lemma like_literal_is_substring: "ilike like_escape (like_literal t) text \<longleftrightarrow> sublist (lower t) (lower text)"
proof -
  have l: "lower (a @ b) = lower a @ lower b" for a b by (simp add: lower_def)
  have p: "lower ''%'' = ''%''" by (simp add: lower_def lower_fixed)
  show ?thesis
    unfolding ilike_def like_literal_def l p
    by (rule like_around [OF literal_spells]) (simp add: like_escape_def)
qed

lemma lower_tokens:
  assumes "t \<in> set (query_tokens question)"
  shows "lower t = t"
proof -
  have split: "\<forall>w\<in>set (py_split s). set w \<subseteq> set s" for s
  proof (induction s rule: py_split.induct)
    case (1 s)
    have a: "set (lstrip s) \<subseteq> set s" by (auto simp: lstrip_def dest: set_dropWhileD)
    have b: "set (takeWhile P u) \<subseteq> set u" "set (dropWhile P u) \<subseteq> set u" for P and u :: string
      by (auto dest: set_dropWhileD set_takeWhileD)
    show ?case
    proof (cases "lstrip s = []")
      case False
      have "\<forall>w\<in>set (py_split (dropWhile (\<lambda>c. \<not> py_isspace c) (lstrip s))). set w \<subseteq> set s"
        using 1 [OF refl False] a b(2) by (meson order_trans)
      moreover have "set (takeWhile (\<lambda>c. \<not> py_isspace c) (lstrip s)) \<subseteq> set s"
        using a b(1) by (rule order_trans [rotated])
      ultimately show ?thesis by (subst py_split.simps) (simp add: Let_def)
    qed (simp add: py_split.simps)
  qed
  from assms obtain w where w: "w \<in> set (py_split (lower question))" "t = rstrip_punctuation w"
    by (auto simp: query_tokens_def)
  have "set t \<subseteq> set w" unfolding w(2) rstrip_punctuation_def by (auto dest: set_dropWhileD)
  also have "\<dots> \<subseteq> set (lower question)" using w(1) split by blast
  finally have "set t \<subseteq> set (lower question)" .
  then have "\<forall>c\<in>set t. lower_char c = c" by (auto simp: lower_def)
  then show ?thesis by (simp add: lower_def map_idI)
qed

lemma length_filter_imp: "(\<And>x. x \<in> set xs \<Longrightarrow> P x \<Longrightarrow> Q x) \<Longrightarrow> length (filter P xs) \<le> length (filter Q xs)"
  by (induction xs) auto

text \<open>The row query's own pattern matches wherever the token is, unless the token has an escape in it.\<close>

lemma like_prefix:
  "e \<notin> set w \<Longrightarrow> e \<noteq> CHR ''%'' \<Longrightarrow> prefix w t \<Longrightarrow> like e (w @ ''%'') t"
proof (induction w arbitrary: t)
  case Nil
  then show ?case by (simp add: like_percent_end)
next
  case (Cons c w)
  then obtain t' where t: "t = c # t'" "prefix w t'" by (cases t) auto
  with Cons have "like e (w @ ''%'') t'" by simp
  with t Cons(2,3) show ?case
    by (auto simp: like.simps(2) [of e c "w @ ''%''"] like.simps(2) [of e "CHR ''%''" "w @ ''%''" "c # t'"]
        like.simps(2) [of e "CHR ''%''" "w @ ''%''" t'])
qed

lemma like_sublist:
  "e \<notin> set w \<Longrightarrow> e \<noteq> CHR ''%'' \<Longrightarrow> sublist w t \<Longrightarrow> like e (''%'' @ w @ ''%'') t"
proof (induction t)
  case Nil
  then show ?case using like_prefix [of e w "[]"] by (simp add: like.simps(2))
next
  case (Cons x t)
  then show ?case using like_prefix [of e w "x # t"]
    by (auto simp: like.simps(2) [of e "CHR ''%''"] sublist_Cons_right)
qed

lemma keyword_floor:
  fixes version area :: "string option" and co :: corpus and question :: string and limit :: nat
  assumes limit: "0 < limit" and plain: "\<forall>t\<in>set (query_tokens question). default_escape \<notin> set t"
  defines "tokens \<equiv> query_tokens question"
    and "scope \<equiv> filter (in_scope version area) (joined co)"
  shows "keyword_retrieve version co question area limit =
    (if tokens_in_rows tokens scope < required_matches tokens then []
     else map (to_chunk (1 / 2)) (take limit (keyword_matches tokens scope)))"
proof -
  define M where "M = keyword_matches tokens scope"
  define rows where "rows = take limit M"
  have hit: "ilike default_escape (''%'' @ t @ ''%'') tx" if "t \<in> set tokens" "sublist t (lower tx)" for t tx
  proof -
    from that have t: "lower t = t" "default_escape \<notin> set t"
      using lower_tokens plain by (auto simp: tokens_def)
    then have "lower (''%'' @ t @ ''%'') = ''%'' @ t @ ''%''" by (simp add: lower_def lower_fixed)
    with like_sublist [OF t(2) _ that(2)] show ?thesis by (simp add: ilike_def default_escape_def)
  qed
  have sql: "tokens_present_in_scope tokens scope = tokens_in_rows tokens scope"
    unfolding tokens_present_in_scope_def tokens_in_rows_def like_literal_is_substring
    by (rule arg_cong [where f = length], rule filter_cong [OF refl]) (simp add: lower_tokens tokens_def)
  have M: "set M = {x\<in>set scope. \<exists>t\<in>set tokens. ilike default_escape (''%'' @ t @ ''%'') (ch_text (fst x))}"
    by (simp add: M_def keyword_matches_def)
  have "(\<exists>x\<in>set M. sublist t (lower (ch_text (fst x)))) \<longleftrightarrow> (\<exists>x\<in>set scope. sublist t (lower (ch_text (fst x))))"
    if "t \<in> set tokens" for t
    unfolding M using hit [OF that] that by blast
  then have all: "tokens_in_rows tokens M = tokens_in_rows tokens scope"
    unfolding tokens_in_rows_def
    by (intro arg_cong [where f = length] filter_cong [OF refl]) simp
  have "set rows \<subseteq> set M" by (simp add: rows_def set_take_subset)
  then have "tokens_in_rows tokens rows \<le> tokens_in_rows tokens M"
    unfolding tokens_in_rows_def by (intro length_filter_imp) blast
  then have le: "tokens_in_rows tokens rows \<le> tokens_in_rows tokens scope" by (simp add: all)
  show ?thesis
  proof (cases "tokens = [] \<or> rows = []")
    case True
    then have "tokens_in_rows tokens scope = 0"
      unfolding all [symmetric] using limit by (auto simp: tokens_in_rows_def rows_def)
    moreover have "1 \<le> required_matches tokens" by (simp add: required_matches_def)
    ultimately show ?thesis
      using True by (auto simp: keyword_retrieve_def Let_def tokens_def scope_def rows_def M_def)
  next
    case False
    have "tokens_in_rows tokens rows = tokens_in_rows tokens scope" if "length rows < limit"
      using that all by (simp add: rows_def min_def split: if_splits)
    with le False sql show ?thesis
      by (auto simp: keyword_retrieve_def Let_def tokens_def [symmetric] scope_def [symmetric] rows_def [symmetric]
          M_def [symmetric] not_less)
  qed
qed

text \<open>C27: The keyword arm's verdict does not depend on the row cap. For a positive cap and tokens
  without a backslash, the arm returns nothing exactly when fewer distinct tokens of the question than
  required (two, or the one there is) occur, as plain substrings and ignoring case, in the chunks it may
  read, and otherwise the first rows of the one total order: the windowed count, the second count over
  the whole scope, the wildcards of \<open>LIKE\<close> and the full window are all invisible in the verdict.\<close>
theorem keyword_floor_ignores_the_cap:
  assumes "0 < limit" and "\<forall>t\<in>set (query_tokens question). default_escape \<notin> set t"
  shows "keyword_retrieve version co question area limit =
    (let tokens = query_tokens question; scope = filter (in_scope version area) (joined co) in
     if tokens_in_rows tokens scope < required_matches tokens then []
     else map (to_chunk (1 / 2)) (take limit (keyword_matches tokens scope)))"
  unfolding Let_def by (rule keyword_floor [OF assms])

definition demo_document :: "string \<Rightarrow> string \<Rightarrow> document" where
  "demo_document i v = \<lparr>dc_id = i, dc_index = v, dc_source = ''codex-docs'', dc_url = ''https://x'', dc_title = ''Codex'',
     dc_status = Doc_active, dc_as_of = Some (2026, 7, 1)\<rparr>"

definition demo_chunk :: "string \<Rightarrow> string \<Rightarrow> int \<Rightarrow> string \<Rightarrow> string \<Rightarrow> chunk" where
  "demo_chunk i d n area tx = \<lparr>ch_id = i, ch_doc = d, ch_area = area, ch_section = '''', ch_heading = '''',
     ch_parent = None, ch_text = tx, ch_summary = '''', ch_order = n, ch_embedded = True\<rparr>"

definition demo_corpus :: corpus where
  "demo_corpus = \<lparr>documents = [demo_document ''d1'' ''v1''],
     chunks = [demo_chunk ''c1'' ''d1'' 0 ''codex'' ''Codex is a tool'', demo_chunk ''c2'' ''d1'' 1 ''codex'' ''rate limit''],
     terms = [\<lparr>et_text = ''--Model'', et_doc = ''d1'', et_chunk = ''c1''\<rparr>,
              \<lparr>et_text = ''--model'', et_doc = ''d1'', et_chunk = ''c1''\<rparr>]\<rparr>"

theorem keyword_floor_ignores_the_cap_witness:
  "keyword_retrieve None demo_corpus ''Codex limit?'' None 1
     = [to_chunk (1 / 2) (demo_chunk ''c1'' ''d1'' 0 ''codex'' ''Codex is a tool'', demo_document ''d1'' ''v1'')]"
proof -
  let ?q = "''Codex limit?''"
  have "\<forall>t\<in>set (query_tokens ?q). default_escape \<notin> set t" by code_simp
  moreover have "tokens_in_rows (query_tokens ?q) (filter (in_scope None None) (joined demo_corpus)) = 2"
    "required_matches (query_tokens ?q) = 2"
    "take 1 (keyword_matches (query_tokens ?q) (filter (in_scope None None) (joined demo_corpus)))
       = [(demo_chunk ''c1'' ''d1'' 0 ''codex'' ''Codex is a tool'', demo_document ''d1'' ''v1'')]"
    by code_simp+
  ultimately show ?thesis
    using keyword_floor_ignores_the_cap [of 1 ?q None demo_corpus None] by (simp add: Let_def)
qed

text \<open>A token with a backslash is an escape to the row query, so a chunk that contains it is not found.\<close>

lemma backslash_token_is_missed:
  "keyword_retrieve None
     (demo_corpus\<lparr>chunks := [demo_chunk ''c1'' ''d1'' 0 ''codex'' (''run C:'' @ [CHR 0x5C] @ ''tmp now'')]\<rparr>)
     (''C:'' @ [CHR 0x5C] @ ''tmp'') None 5 = []"
  by code_simp

text \<open>Two spellings of one term on one chunk: the exact arm returns the chunk twice.\<close>

lemma exact_arm_repeats_a_chunk:
  "map rc_id (exact_retrieve id None demo_corpus ''--model'' (Some ''codex'') 6) = [''c1'', ''c1'']"
  by code_simp

end
