(* ===== verification/Hybrid.thy ===== *)
theory Hybrid
  imports Retrieval
begin

text \<open>
  The hybrid retriever (\<open>retrieval/hybrid.py\<close>, \<open>retrieval/rerank.py\<close>): which arms run, how their hits
  are merged, ranked and cut, why a result must not be cached, and the fan-out over several products.
  The corpus and the index table are one snapshot for a retrieval. Each embedding call may end
  differently, so a retrieval that embeds several times takes a function from the number of the call;
  what it reports to the embedder's health record is returned beside its result.
\<close>

section \<open>Evidence\<close>

datatype retrieval_type = By_exact | By_keyword | By_vector | By_hybrid

record evidence_hit = retrieved_chunk +
  eh_type :: retrieval_type
  eh_rank :: nat

definition to_evidence :: "retrieval_type \<Rightarrow> nat \<Rightarrow> rat option \<Rightarrow> retrieved_chunk \<Rightarrow> evidence_hit" where
  "to_evidence ty rank base c =
     retrieved_chunk.extend (c\<lparr>rc_score := (case base of None \<Rightarrow> rc_score c | Some s \<Rightarrow> s)\<rparr>) (evidence_hit.fields ty rank)"

datatype vector_degrade = No_degrade | Embedder_mismatch | Arm_unavailable | Ambiguous_index

record retrieval_result =
  rr_hits :: "evidence_hit list"
  rr_degrade :: vector_degrade

text \<open>What is reported to \<open>query_health\<close>: a failure with its verdict on the account, or a success.\<close>

datatype health_report = Report_failure bool | Report_success

record 'v retriever =
  rt_version :: "string option"
  rt_identity :: "embedder_identity option"
  rt_wired :: bool
  rt_search :: "'v search"
  rt_confidence :: "(rat \<times> rat) option"
  rt_scan :: "located list \<Rightarrow> located list"

section \<open>Merging\<close>

definition add_score :: "rat \<Rightarrow> string \<Rightarrow> evidence_hit list \<Rightarrow> evidence_hit list" where
  "add_score s i hits = map (\<lambda>h. if rc_id h = i then h\<lparr>rc_score := rc_score h + s\<rparr> else h) hits"

definition merge_exact :: "retrieved_chunk \<Rightarrow> evidence_hit list \<Rightarrow> evidence_hit list" where
  "merge_exact c hits = tput rc_id (to_evidence By_exact 0 (Some 1) c) hits"

definition merge_keyword :: "retrieved_chunk \<Rightarrow> evidence_hit list \<Rightarrow> evidence_hit list" where
  "merge_keyword c hits =
     (if tget rc_id hits (rc_id c) \<noteq> None then add_score (1 / 2) (rc_id c) hits
      else hits @ [to_evidence By_keyword 0 (Some (1 / 2)) c])"

definition merge_vector :: "retrieved_chunk \<Rightarrow> evidence_hit list \<Rightarrow> evidence_hit list" where
  "merge_vector c hits =
     (if tget rc_id hits (rc_id c) \<noteq> None then add_score (rc_score c) (rc_id c) hits
      else hits @ [to_evidence By_vector 0 (Some (rc_score c)) c])"

definition merge_hits :: "retrieved_chunk list \<Rightarrow> retrieved_chunk list \<Rightarrow> retrieved_chunk list \<Rightarrow> evidence_hit list" where
  "merge_hits exact keyword vector =
     fold merge_vector vector (fold merge_keyword keyword (fold merge_exact exact []))"

definition by_score :: "evidence_hit list \<Rightarrow> evidence_hit list" where
  "by_score hits = sort_key (\<lambda>h. - rc_score h) hits"

definition rerank :: "int \<Rightarrow> evidence_hit list \<Rightarrow> evidence_hit list" where
  "rerank top_k hits = take (nat (max 0 top_k)) hits"

definition ranked :: "evidence_hit list \<Rightarrow> evidence_hit list" where
  "ranked hits = map (\<lambda>(i, h). h\<lparr>eh_rank := i\<rparr>) (enumerate 1 hits)"

section \<open>Why a result must not be cached\<close>

definition evidence_spans_indexes :: "evidence_hit list \<Rightarrow> bool" where
  "evidence_spans_indexes hits \<longleftrightarrow> length (remdups (concat (map (\<lambda>h. case rc_index h of None \<Rightarrow> [] | Some v \<Rightarrow> [v]) hits))) > 1"

definition active_index_ambiguous :: "'v retriever \<Rightarrow> index_db \<Rightarrow> bool" where
  "active_index_ambiguous rt db \<longleftrightarrow> rt_version rt = None \<and> ar_state (resolve_active_index db) = Ambiguous"

definition finalize :: "'v retriever \<Rightarrow> index_db \<Rightarrow> evidence_hit list \<Rightarrow> vector_degrade \<Rightarrow> retrieval_result" where
  "finalize rt db hits degrade =
     (if degrade = No_degrade \<and> (evidence_spans_indexes hits \<or> active_index_ambiguous rt db)
      then \<lparr>rr_hits = hits, rr_degrade = Ambiguous_index\<rparr>
      else \<lparr>rr_hits = hits, rr_degrade = degrade\<rparr>)"

definition active_index_stamp :: "'v retriever \<Rightarrow> index_db \<Rightarrow> index_stamp" where
  "active_index_stamp rt db =
     (case rt_version rt of
        Some v \<Rightarrow> (case get_version db v of None \<Rightarrow> No_stamp | Some r \<Rightarrow> Stamp (ix_embedder r))
      | None \<Rightarrow>
          (let res = resolve_active_index db in
           if ar_state res = Ambiguous then Ambiguous_stamp
           else (case ar_row res of None \<Rightarrow> No_stamp | Some r \<Rightarrow> Stamp (ix_embedder r))))"

definition vector_arm_degrade :: "'v retriever \<Rightarrow> index_db \<Rightarrow> vector_degrade" where
  "vector_arm_degrade rt db =
     (case rt_identity rt of
        None \<Rightarrow> No_degrade
      | Some identity \<Rightarrow>
          (let stamp = active_index_stamp rt db in
           if \<not> is_index_embedder_mismatch identity stamp then No_degrade
           else if stamp = Ambiguous_stamp then Ambiguous_index
           else Embedder_mismatch))"

definition degrade_precedence :: "vector_degrade list" where
  "degrade_precedence = [Ambiguous_index, Embedder_mismatch, Arm_unavailable]"

definition combine_degrades :: "vector_degrade list \<Rightarrow> vector_degrade" where
  "combine_degrades ds =
     (case List.find (\<lambda>r. r \<in> set ds) degrade_precedence of None \<Rightarrow> No_degrade | Some r \<Rightarrow> r)"

section \<open>One retrieval\<close>

text \<open>A result with what was reported to the health record on the way.\<close>

type_synonym 'a reported = "'a \<times> health_report list"

definition safe_vector_retrieve ::
    "'v retriever \<Rightarrow> (string \<Rightarrow> emb_error + 'v) \<Rightarrow> (rat \<times> rat) option \<Rightarrow> corpus \<Rightarrow> string \<Rightarrow> string option \<Rightarrow> nat
       \<Rightarrow> vector_degrade \<Rightarrow> (escape + retrieved_chunk list \<times> vector_degrade) reported" where
  "safe_vector_retrieve rt embedding confidence co question area limit arm_degrade =
     (if arm_degrade \<noteq> No_degrade then (Inr ([], arm_degrade), [])
      else (case vector_retrieve (rt_wired rt) (rt_search rt) embedding confidence (rt_version rt) co question area limit of
              Inl (Unavailable why status refused) \<Rightarrow> (Inr ([], Arm_unavailable), [Report_failure refused])
            | Inl (Escaped e) \<Rightarrow> (Inl e, [])
            | Inr hits \<Rightarrow> (Inr (hits, No_degrade), [Report_success])))"

definition retrieve_global ::
    "'v retriever \<Rightarrow> (string \<Rightarrow> emb_error + 'v) \<Rightarrow> index_db \<Rightarrow> corpus \<Rightarrow> string \<Rightarrow> nat \<Rightarrow> int
       \<Rightarrow> (escape + retrieval_result) reported" where
  "retrieve_global rt embedding db co question limit top_k =
     (case safe_vector_retrieve rt embedding (rt_confidence rt) co question None limit (vector_arm_degrade rt db) of
        (Inl e, reports) \<Rightarrow> (Inl e, reports)
      | (Inr (hits, degrade), reports) \<Rightarrow>
          (Inr (finalize rt db (ranked (rerank top_k
             (map (\<lambda>(i, h). to_evidence By_vector i None h) (enumerate 1 hits)))) degrade), reports))"

definition retrieve ::
    "'v retriever \<Rightarrow> (string \<Rightarrow> emb_error + 'v) \<Rightarrow> index_db \<Rightarrow> corpus \<Rightarrow> string \<Rightarrow> string option \<Rightarrow> intent \<Rightarrow> nat \<Rightarrow> nat
       \<Rightarrow> (escape + retrieval_result) reported" where
  "retrieve rt embedding db co question area intent limit top_k =
     (if area = None then retrieve_global rt embedding db co question limit (int top_k)
      else
        let exact = exact_retrieve (rt_scan rt) (rt_version rt) co question area;
            short = (if intent = Exact_lookup then exact top_k else [])
        in if short \<noteq> [] then
             (Inr (finalize rt db
                (take top_k (map (\<lambda>(i, h). to_evidence By_exact i None h) (enumerate 1 short))) No_degrade), [])
           else
             (case safe_vector_retrieve rt embedding None co question area limit (vector_arm_degrade rt db) of
                (Inl e, reports) \<Rightarrow> (Inl e, reports)
              | (Inr (vector_hits, degrade), reports) \<Rightarrow>
                  (let exact_hits = (if intent = Exact_lookup then [] else exact limit);
                       keyword_hits = keyword_retrieve (rt_version rt) co question area limit;
                       merged = take limit (by_score (merge_hits exact_hits keyword_hits vector_hits))
                   in (Inr (finalize rt db (ranked (rerank (int top_k) merged)) degrade), reports))))"

section \<open>Several products\<close>

definition max_multihop_domains :: nat where
  "max_multihop_domains = 3"

definition take_hit :: "evidence_hit \<Rightarrow> evidence_hit list \<Rightarrow> evidence_hit list" where
  "take_hit h merged = (if rc_id h \<in> rc_id ` set merged then merged else merged @ [h])"

definition round_robin_merge :: "evidence_hit list list \<Rightarrow> evidence_hit list" where
  "round_robin_merge per_area =
     fold (\<lambda>rank. fold (\<lambda>hits merged. if rank < length hits then take_hit (hits ! rank) merged else merged) per_area)
       [0..<fold max (map length per_area) 0] []"

definition area_count :: "string \<Rightarrow> evidence_hit list \<Rightarrow> nat" where
  "area_count a hits = length (filter (\<lambda>h. rc_area h = a) hits)"

text \<open>The last position whose product has more than one chunk.\<close>

definition spare_position :: "evidence_hit list \<Rightarrow> nat option" where
  "spare_position kept =
     List.find (\<lambda>i. area_count (rc_area (kept ! i)) kept > 1) (rev [0..<length kept])"

definition keep_area :: "evidence_hit list \<Rightarrow> nat \<Rightarrow> string \<Rightarrow> evidence_hit list \<Rightarrow> evidence_hit list" where
  "keep_area merged top_k area kept =
     (if \<exists>h\<in>set kept. rc_area h = area then kept
      else (case List.find (\<lambda>h. rc_area h = area) merged of
              None \<Rightarrow> kept
            | Some best \<Rightarrow>
                (case spare_position kept of
                   Some i \<Rightarrow> kept[i := best]
                 | None \<Rightarrow> if length kept < top_k then kept @ [best] else kept)))"

definition keep_each_area :: "evidence_hit list \<Rightarrow> evidence_hit list \<Rightarrow> string list \<Rightarrow> nat \<Rightarrow> evidence_hit list" where
  "keep_each_area reranked merged areas top_k = fold (keep_area merged top_k) areas reranked"

text \<open>The areas one after the other; \<open>embeds n\<close> is the embedder as the \<open>n\<close>-th of them finds it.\<close>

fun retrieve_areas ::
    "'v retriever \<Rightarrow> (nat \<Rightarrow> string \<Rightarrow> emb_error + 'v) \<Rightarrow> index_db \<Rightarrow> corpus \<Rightarrow> string \<Rightarrow> intent \<Rightarrow> nat \<Rightarrow> nat
       \<Rightarrow> nat \<Rightarrow> string list \<Rightarrow> (escape + retrieval_result list) reported" where
  "retrieve_areas rt embeds db co question intent limit top_k n [] = (Inr [], [])"
| "retrieve_areas rt embeds db co question intent limit top_k n (a # areas) =
     (case retrieve rt (embeds n) db co question (Some a) intent limit top_k of
        (Inl e, reports) \<Rightarrow> (Inl e, reports)
      | (Inr r, reports) \<Rightarrow>
          (case retrieve_areas rt embeds db co question intent limit top_k (Suc n) areas of
             (Inl e, reports') \<Rightarrow> (Inl e, reports @ reports')
           | (Inr rs, reports') \<Rightarrow> (Inr (r # rs), reports @ reports')))"

definition retrieve_multi ::
    "'v retriever \<Rightarrow> (nat \<Rightarrow> string \<Rightarrow> emb_error + 'v) \<Rightarrow> index_db \<Rightarrow> corpus \<Rightarrow> string \<Rightarrow> string list \<Rightarrow> intent \<Rightarrow> nat \<Rightarrow> nat
       \<Rightarrow> (escape + retrieval_result) reported" where
  "retrieve_multi rt embeds db co question product_areas intent limit top_k =
     (let areas = take max_multihop_domains product_areas in
      case retrieve_areas rt embeds db co question intent limit top_k 0 areas of
        (Inl e, reports) \<Rightarrow> (Inl e, reports)
      | (Inr per_area, reports) \<Rightarrow>
          (let merged = round_robin_merge (map rr_hits per_area);
               kept = keep_each_area (rerank (int top_k) merged) merged areas top_k
           in (Inr (finalize rt db (ranked kept) (combine_degrades (map rr_degrade per_area))), reports)))"

section \<open>Fields of the evidence\<close>

lemma to_evidence_sel [simp]:
  "rc_id (to_evidence ty n b c) = rc_id c" "rc_area (to_evidence ty n b c) = rc_area c"
  "rc_text (to_evidence ty n b c) = rc_text c" "rc_index (to_evidence ty n b c) = rc_index c"
  "rc_score (to_evidence ty n b c) = (case b of None \<Rightarrow> rc_score c | Some s \<Rightarrow> s)"
  "eh_type (to_evidence ty n b c) = ty" "eh_rank (to_evidence ty n b c) = n"
  by (simp_all add: to_evidence_def retrieved_chunk.extend_def evidence_hit.fields_def)

lemma to_chunk_sel [simp]:
  "rc_id (to_chunk s x) = ch_id (fst x)" "rc_area (to_chunk s x) = ch_area (fst x)"
  "rc_text (to_chunk s x) = ch_text (fst x)" "rc_index (to_chunk s x) = Some (dc_index (snd x))"
  "rc_score (to_chunk s x) = s"
  by (simp_all add: to_chunk_def case_prod_beta)

lemma map_ranked_eq:
  assumes "\<And>h i. f (h\<lparr>eh_rank := i\<rparr>) = f h"
  shows "map f (ranked hits) = map f hits"
proof -
  have "f \<circ> (\<lambda>(i, h). h\<lparr>eh_rank := i\<rparr>) = f \<circ> snd" by (auto simp: assms)
  then have "map f (ranked hits) = map f (map snd (enumerate 1 hits))"
    unfolding ranked_def by (simp only: map_map)
  then show ?thesis by (simp only: map_snd_enumerate)
qed

lemma map_ranked [simp]:
  "map rc_id (ranked hits) = map rc_id hits" "map rc_area (ranked hits) = map rc_area hits"
  "map rc_score (ranked hits) = map rc_score hits" "map rc_index (ranked hits) = map rc_index hits"
  "map rc_text (ranked hits) = map rc_text hits" "map eh_type (ranked hits) = map eh_type hits"
  "length (ranked hits) = length hits"
  by (simp_all add: map_ranked_eq) (simp add: ranked_def)

lemma ranks: "i < length hits \<Longrightarrow> eh_rank (ranked hits ! i) = i + 1"
  by (simp add: ranked_def nth_enumerate_eq)

section \<open>Merging\<close>

lemma add_score_ids [simp]: "map rc_id (add_score s i hits) = map rc_id hits" "rc_id ` set (add_score s i hits) = rc_id ` set hits"
proof -
  show "map rc_id (add_score s i hits) = map rc_id hits" by (simp add: add_score_def)
  then show "rc_id ` set (add_score s i hits) = rc_id ` set hits" by (metis list.set_map)
qed

definition score_of :: "evidence_hit list \<Rightarrow> string \<Rightarrow> rat" where
  "score_of hits i = (case tget rc_id hits i of None \<Rightarrow> 0 | Some h \<Rightarrow> rc_score h)"

lemma tget_add_score:
  "tget rc_id (add_score s i hits) j =
     (case tget rc_id hits j of None \<Rightarrow> None | Some h \<Rightarrow> Some (if j = i then h\<lparr>rc_score := rc_score h + s\<rparr> else h))"
  by (induction hits) (auto simp: add_score_def)

lemma merge_step_score:
  "score_of (merge_keyword c hits) i = score_of hits i + (if rc_id c = i then 1 / 2 else 0)"
  "score_of (merge_vector c hits) i = score_of hits i + (if rc_id c = i then rc_score c else 0)"
  "score_of (merge_exact c hits) i = (if rc_id c = i then 1 else score_of hits i)"
  by (auto simp: score_of_def merge_keyword_def merge_vector_def merge_exact_def tget_add_score tget_append tget_tput
      split: option.splits)

lemma merge_step_ids:
  "distinct (map rc_id hits) \<Longrightarrow> distinct (map rc_id (merge_keyword c hits))"
  "distinct (map rc_id hits) \<Longrightarrow> distinct (map rc_id (merge_vector c hits))"
  "distinct (map rc_id hits) \<Longrightarrow> distinct (map rc_id (merge_exact c hits))"
  "rc_id ` set (merge_keyword c hits) = insert (rc_id c) (rc_id ` set hits)"
  "rc_id ` set (merge_vector c hits) = insert (rc_id c) (rc_id ` set hits)"
  "rc_id ` set (merge_exact c hits) = insert (rc_id c) (rc_id ` set hits)"
proof -
  show "distinct (map rc_id hits) \<Longrightarrow> distinct (map rc_id (merge_exact c hits))"
    unfolding merge_exact_def unique_def [symmetric] by (simp add: unique_tput)
  show "rc_id ` set (merge_exact c hits) = insert (rc_id c) (rc_id ` set hits)"
    unfolding merge_exact_def list.set_map [symmetric] keys_tput by (auto simp: tget_None_iff)
qed (auto simp: merge_keyword_def merge_vector_def tget_None_iff)

lemma merge_ids:
  "distinct (map rc_id (merge_hits es ks vs))"
  "rc_id ` set (merge_hits es ks vs) = rc_id ` set es \<union> rc_id ` set ks \<union> rc_id ` set vs"
proof -
  have e: "distinct (map rc_id hits) \<Longrightarrow> distinct (map rc_id (fold merge_exact es hits))
      \<and> rc_id ` set (fold merge_exact es hits) = rc_id ` set es \<union> rc_id ` set hits" for hits
    by (induction es arbitrary: hits) (auto simp: merge_step_ids)
  have k: "distinct (map rc_id hits) \<Longrightarrow> distinct (map rc_id (fold merge_keyword ks hits))
      \<and> rc_id ` set (fold merge_keyword ks hits) = rc_id ` set ks \<union> rc_id ` set hits" for hits
    by (induction ks arbitrary: hits) (auto simp: merge_step_ids)
  have v: "distinct (map rc_id hits) \<Longrightarrow> distinct (map rc_id (fold merge_vector vs hits))
      \<and> rc_id ` set (fold merge_vector vs hits) = rc_id ` set vs \<union> rc_id ` set hits" for hits
    by (induction vs arbitrary: hits) (auto simp: merge_step_ids)
  show "distinct (map rc_id (merge_hits es ks vs))"
    "rc_id ` set (merge_hits es ks vs) = rc_id ` set es \<union> rc_id ` set ks \<union> rc_id ` set vs"
    unfolding merge_hits_def using e [of "[]"] k v by auto
qed

text \<open>The score of a merged chunk: one for an exact hit, a half for each keyword hit, the similarity of the vector hit.\<close>

definition fused_score :: "retrieved_chunk list \<Rightarrow> retrieved_chunk list \<Rightarrow> retrieved_chunk list \<Rightarrow> string \<Rightarrow> rat" where
  "fused_score es ks vs i =
     (if i \<in> rc_id ` set es then 1 else 0)
     + (\<Sum>c\<leftarrow>ks. if rc_id c = i then 1 / 2 else 0)
     + (\<Sum>c\<leftarrow>vs. if rc_id c = i then rc_score c else 0)"

lemma merge_scores: "score_of (merge_hits es ks vs) i = fused_score es ks vs i"
proof -
  have e: "score_of (fold merge_exact es hits) i = (if i \<in> rc_id ` set es then 1 else score_of hits i)" for hits
    by (induction es arbitrary: hits) (auto simp: merge_step_score)
  have k: "score_of (fold merge_keyword ks hits) i = score_of hits i + (\<Sum>c\<leftarrow>ks. if rc_id c = i then 1 / 2 else 0)" for hits
    by (induction ks arbitrary: hits) (auto simp: merge_step_score)
  have v: "score_of (fold merge_vector vs hits) i = score_of hits i + (\<Sum>c\<leftarrow>vs. if rc_id c = i then rc_score c else 0)" for hits
    by (induction vs arbitrary: hits) (auto simp: merge_step_score)
  show ?thesis by (simp add: merge_hits_def e k v fused_score_def score_of_def [of "[]"])
qed

lemma merge_hit_score: "h \<in> set (merge_hits es ks vs) \<Longrightarrow> rc_score h = fused_score es ks vs (rc_id h)"
  using merge_scores [of es ks vs "rc_id h"] merge_ids(1) [of es ks vs]
  by (simp add: score_of_def tget_unique [of rc_id, unfolded unique_def, THEN iffD2])

section \<open>Where evidence comes from\<close>

text \<open>What the row order and the neighbour search owe: the rows they are given, and no more than asked.\<close>

definition scan_ok :: "(located list \<Rightarrow> located list) \<Rightarrow> bool" where
  "scan_ok scan \<longleftrightarrow> (\<forall>rows. mset (scan rows) = mset rows)"

definition search_ok :: "'v search \<Rightarrow> bool" where
  "search_ok search \<longleftrightarrow> (\<forall>v rows n. length (search v rows n) \<le> n \<and> set (map fst (search v rows n)) \<subseteq> set rows
     \<and> distinct (map (ch_id \<circ> fst \<circ> fst) (search v rows n)) \<and> sorted (map snd (search v rows n)))"

definition retriever_ok :: "'v retriever \<Rightarrow> bool" where
  "retriever_ok rt \<longleftrightarrow> scan_ok (rt_scan rt) \<and> search_ok (rt_search rt)"

type_synonym core = "string \<times> string \<times> string \<times> string option"

definition core :: "'a retrieved_chunk_scheme \<Rightarrow> core" where
  "core h = (rc_id h, rc_area h, rc_text h, rc_index h)"

text \<open>A chunk of the corpus in a document the retrieval may read.\<close>

definition grounded :: "string option \<Rightarrow> corpus \<Rightarrow> core \<Rightarrow> bool" where
  "grounded version co k \<longleftrightarrow> (\<exists>c\<in>set (chunks co). \<exists>d\<in>set (documents co).
     readable version d \<and> k = (ch_id c, ch_area c, ch_text c, Some (dc_index d)))"

lemma core_simps [simp]:
  "core (to_evidence ty n b c) = core c" "core (h\<lparr>rc_score := s\<rparr>) = core h"
  "core (to_chunk s x) = (ch_id (fst x), ch_area (fst x), ch_text (fst x), Some (dc_index (snd x)))"
  by (simp_all add: core_def)

lemma core_ranked [simp]: "map core (ranked hits) = map core hits"
  by (rule map_ranked_eq) (simp add: core_def)

lemma core_by_score [simp]: "set (map core (by_score hits)) = set (map core hits)"
  by (simp add: by_score_def)

lemma exact_core: "scan_ok scan \<Longrightarrow> c \<in> set (exact_retrieve scan version co q area n) \<Longrightarrow> grounded version co (core c)"
proof -
  assume s: "scan_ok scan" and c: "c \<in> set (exact_retrieve scan version co q area n)"
  let ?rows = "exact_rows version co (lower (strip q))"
  have r: "set (scan ?rows) = set ?rows"
    using s mset_eq_setD [of "scan ?rows" ?rows] by (simp add: scan_ok_def)
  from c have "c \<in> to_chunk 1 ` set (scan ?rows)"
    by (auto simp: exact_retrieve_def Let_def dest!: in_set_takeD split: if_splits option.splits)
  then obtain x where "c = to_chunk 1 x" "x \<in> set ?rows" unfolding r by blast
  then show ?thesis
    by (fastforce simp: grounded_def exact_rows_def)
qed

lemma joined_iff: "(c, d) \<in> set (joined co) \<longleftrightarrow> c \<in> set (chunks co) \<and> d \<in> set (documents co) \<and> dc_id d = ch_doc c"
  by (auto simp: joined_def)

lemma scope_core:
  "x \<in> set (joined co) \<Longrightarrow> in_scope version area x \<Longrightarrow> grounded version co (core (to_chunk s x))"
  by (cases x) (auto simp: joined_iff grounded_def in_scope_def)

lemma keyword_origin:
  "c \<in> set (keyword_retrieve version co q area n) \<Longrightarrow>
     \<exists>x\<in>set (joined co). in_scope version area x \<and> c = to_chunk (1 / 2) x"
  by (auto simp: keyword_retrieve_def keyword_matches_def Let_def dest!: in_set_takeD split: if_splits)

lemma vector_origin:
  assumes "search_ok search" and "vector_retrieve wired search e conf version co q area n = Inr cs" and "c \<in> set cs"
  shows "\<exists>x\<in>set (joined co). \<exists>s. in_scope version area x \<and> c = to_chunk s x"
proof -
  let ?scope = "filter (\<lambda>x. in_scope version area x \<and> ch_embedded (fst x)) (joined co)"
  from assms(2,3) obtain v where "c \<in> (\<lambda>(x, d). to_chunk (similarity d) x) ` set (search v ?scope n)"
    by (auto simp: vector_retrieve_def and_then_Inr_iff Let_def split: if_splits option.splits prod.splits)
  then obtain x d where c: "c = to_chunk (similarity d) x" "(x, d) \<in> set (search v ?scope n)" by auto
  then have "x \<in> set (map fst (search v ?scope n))" by force
  with assms(1) have "x \<in> set ?scope" unfolding search_ok_def by blast
  with c show ?thesis by auto
qed

lemma safe_vector_origin:
  assumes "search_ok (rt_search rt)"
    and "safe_vector_retrieve rt e conf co q area n degrade = (Inr (cs, degrade'), reports)" and "c \<in> set cs"
  shows "\<exists>x\<in>set (joined co). \<exists>s. in_scope (rt_version rt) area x \<and> c = to_chunk s x"
proof -
  from assms(2,3) have "vector_retrieve (rt_wired rt) (rt_search rt) e conf (rt_version rt) co q area n = Inr cs"
    by (auto simp: safe_vector_retrieve_def split: if_splits sum.splits emb_error.splits)
  from vector_origin [OF assms(1) this assms(3)] show ?thesis .
qed

lemma merge_core:
  assumes "\<forall>c\<in>set es \<union> set ks \<union> set vs. P (core c)"
  shows "\<forall>h\<in>set (merge_hits es ks vs). P (core h)"
proof -
  have add: "\<forall>h\<in>set hits. P (core h) \<Longrightarrow> \<forall>h\<in>set (add_score s i hits). P (core h)" for s i hits
    by (auto simp: add_score_def)
  have e: "\<forall>c\<in>set es. P (core c) \<Longrightarrow> \<forall>h\<in>set hits. P (core h) \<Longrightarrow> \<forall>h\<in>set (fold merge_exact es hits). P (core h)" for es hits
  proof (induction es arbitrary: hits)
    case (Cons c es)
    then have "\<forall>h\<in>set (merge_exact c hits). P (core h)" by (auto simp: merge_exact_def tput_def)
    with Cons show ?case by simp
  qed simp
  have k: "\<forall>c\<in>set ks. P (core c) \<Longrightarrow> \<forall>h\<in>set hits. P (core h) \<Longrightarrow> \<forall>h\<in>set (fold merge_keyword ks hits). P (core h)" for ks hits
  proof (induction ks arbitrary: hits)
    case (Cons c ks)
    then have "\<forall>h\<in>set (merge_keyword c hits). P (core h)" using add [of hits] by (auto simp: merge_keyword_def)
    with Cons show ?case by simp
  qed simp
  have v: "\<forall>c\<in>set vs. P (core c) \<Longrightarrow> \<forall>h\<in>set hits. P (core h) \<Longrightarrow> \<forall>h\<in>set (fold merge_vector vs hits). P (core h)" for vs hits
  proof (induction vs arbitrary: hits)
    case (Cons c vs)
    then have "\<forall>h\<in>set (merge_vector c hits). P (core h)" using add [of hits] by (auto simp: merge_vector_def)
    with Cons show ?case by simp
  qed simp
  show ?thesis unfolding merge_hits_def using assms by (intro v k e) auto
qed

lemma ball_core:
  assumes "map core xs = map core ys"
  shows "(\<forall>h\<in>set (xs :: 'x retrieved_chunk_scheme list). P (core h)) \<longleftrightarrow> (\<forall>h\<in>set (ys :: 'y retrieved_chunk_scheme list). P (core h))"
proof -
  have "(\<forall>h\<in>set xs. P (core h)) \<longleftrightarrow> (\<forall>k\<in>set (map core xs). P k)" by simp
  also have "\<dots> \<longleftrightarrow> (\<forall>k\<in>set (map core ys). P k)" unfolding assms ..
  finally show ?thesis by simp
qed

lemma core_enumerated: "map core (map (\<lambda>(i, h). to_evidence ty i b h) (enumerate n cs)) = map core cs"
proof -
  have "core \<circ> (\<lambda>(i, h). to_evidence ty i b h) = core \<circ> snd" by auto
  then have "map core (map (\<lambda>(i, h). to_evidence ty i b h) (enumerate n cs)) = map core (map snd (enumerate n cs))"
    by (simp only: map_map)
  then show ?thesis by (simp only: map_snd_enumerate)
qed

lemmas ranked_core = ball_core [OF core_ranked]
lemmas enumerated_core = ball_core [OF core_enumerated]

lemma finalize_hits [simp]: "rr_hits (finalize rt db hits degrade) = hits"
  by (simp add: finalize_def)

lemma retrieve_grounded:
  assumes ok: "retriever_ok rt" and r: "fst (retrieve rt e db co q area intent limit k) = Inr r"
  shows "\<forall>h\<in>set (rr_hits r). grounded (rt_version rt) co (core h)"
proof -
  let ?G = "grounded (rt_version rt) co"
  have scan: "scan_ok (rt_scan rt)" and search: "search_ok (rt_search rt)" using ok by (simp_all add: retriever_ok_def)
  have vec: "\<forall>c\<in>set cs. ?G (core c)"
    if "safe_vector_retrieve rt e conf co q area' n degrade = (Inr (cs, degrade'), reports)" for conf area' n degrade cs degrade' reports
    using safe_vector_origin [OF search that] scope_core by blast
  show ?thesis
  proof (cases "area = None")
    case True
    with r obtain cs degrade reports where
      s: "safe_vector_retrieve rt e (rt_confidence rt) co q None limit (vector_arm_degrade rt db) = (Inr (cs, degrade), reports)"
      and h: "rr_hits r = ranked (rerank (int k) (map (\<lambda>(i, h). to_evidence By_vector i None h) (enumerate 1 cs)))"
      by (auto simp: retrieve_def retrieve_global_def split: prod.splits sum.splits)
    have "\<forall>h\<in>set (map (\<lambda>(i, h). to_evidence By_vector i None h) (enumerate 1 cs)). ?G (core h)"
      unfolding enumerated_core by (rule vec [OF s])
    then show ?thesis unfolding h ranked_core rerank_def by (blast dest: in_set_takeD)
  next
    case False
    define short where "short = (if intent = Exact_lookup then exact_retrieve (rt_scan rt) (rt_version rt) co q area k else [])"
    have short: "\<forall>c\<in>set short. ?G (core c)" by (auto simp: short_def exact_core [OF scan])
    show ?thesis
    proof (cases "short = []")
      case False
      with r \<open>area \<noteq> None\<close> have "rr_hits r = take k (map (\<lambda>(i, h). to_evidence By_exact i None h) (enumerate 1 short))"
        by (auto simp: retrieve_def Let_def short_def)
      moreover have "\<forall>h\<in>set (map (\<lambda>(i, h). to_evidence By_exact i None h) (enumerate 1 short)). ?G (core h)"
          unfolding enumerated_core by (rule short)
      ultimately show ?thesis by (simp only:) (blast dest: in_set_takeD)
    next
      case True
      define es where "es = (if intent = Exact_lookup then [] else exact_retrieve (rt_scan rt) (rt_version rt) co q area limit)"
      define ks where "ks = keyword_retrieve (rt_version rt) co q area limit"
      from True r \<open>area \<noteq> None\<close> obtain vs degrade reports where
        s: "safe_vector_retrieve rt e None co q area limit (vector_arm_degrade rt db) = (Inr (vs, degrade), reports)"
        and h: "rr_hits r = ranked (rerank (int k) (take limit (by_score (merge_hits es ks vs))))"
        by (auto simp: retrieve_def Let_def short_def es_def ks_def split: prod.splits sum.splits)
      have "\<forall>c\<in>set ks. ?G (core c)" unfolding ks_def using keyword_origin scope_core by blast
      then have "\<forall>c\<in>set es \<union> set ks \<union> set vs. ?G (core c)"
        using vec [OF s] by (auto simp: es_def exact_core [OF scan])
      from merge_core [OF this] show ?thesis
        unfolding h ranked_core by (auto simp: rerank_def by_score_def dest!: in_set_takeD)
    qed
  qed
qed

lemma take_hit_set: "set (take_hit h merged) \<subseteq> insert h (set merged)"
  by (auto simp: take_hit_def)

lemma round_robin_subset: "set (round_robin_merge per_area) \<subseteq> (\<Union>hits\<in>set per_area. set hits)"
proof -
  let ?S = "\<Union>hits\<in>set per_area. set hits"
  have inner: "set hss \<subseteq> set per_area \<Longrightarrow> set m \<subseteq> ?S \<Longrightarrow>
      set (fold (\<lambda>hits merged. if rank < length hits then take_hit (hits ! rank) merged else merged) hss m) \<subseteq> ?S" for hss m rank
  proof (induction hss arbitrary: m)
    case (Cons hits hss)
    have "set (if rank < length hits then take_hit (hits ! rank) m else m) \<subseteq> ?S"
    proof (cases "rank < length hits")
      case True
      then have "hits ! rank \<in> ?S" using Cons(2) nth_mem [OF True] by (intro UN_I [of hits]) simp_all
      then show ?thesis using take_hit_set [of "hits ! rank" m] Cons(3) by (auto simp: True)
    qed (simp add: Cons(3))
    from Cons(1) [OF _ this] Cons(2) show ?case by simp
  qed simp
  have "set m \<subseteq> ?S \<Longrightarrow> set (fold (\<lambda>rank. fold (\<lambda>hits merged. if rank < length hits then take_hit (hits ! rank) merged else merged) per_area) ranks m) \<subseteq> ?S" for ranks m
    by (induction ranks arbitrary: m) (simp_all add: inner)
  from this [of "[]"] show ?thesis unfolding round_robin_merge_def by simp
qed

lemma keep_area_subset: "set (keep_area merged k a kept) \<subseteq> set kept \<union> set merged"
  by (auto simp: keep_area_def dest: find_Some_iff_nth set_update_subset_insert [THEN subsetD] split: option.splits)

lemma keep_each_subset: "set (keep_each_area reranked merged areas k) \<subseteq> set reranked \<union> set merged"
proof -
  have "set (fold (keep_area merged k) areas kept) \<subseteq> set kept \<union> set merged" for kept
  proof (induction areas arbitrary: kept)
    case (Cons a areas)
    from Cons [of "keep_area merged k a kept"] keep_area_subset [of merged k a kept] show ?case by auto
  qed simp
  then show ?thesis unfolding keep_each_area_def .
qed

lemma retrieve_areas_results:
  "fst (retrieve_areas rt embeds db co q intent limit k n areas) = Inr rs \<Longrightarrow>
     length rs = length areas \<and> (\<forall>i<length areas. fst (retrieve rt (embeds (n + i)) db co q (Some (areas ! i)) intent limit k) = Inr (rs ! i))"
proof (induction areas arbitrary: n rs)
  case (Cons a areas)
  then obtain r rs' where "fst (retrieve rt (embeds n) db co q (Some a) intent limit k) = Inr r"
    "fst (retrieve_areas rt embeds db co q intent limit k (Suc n) areas) = Inr rs'" "rs = r # rs'"
    by (auto split: prod.splits sum.splits)
  with Cons.IH [of "Suc n" rs'] show ?case by (auto simp: less_Suc_eq_0_disj)
qed simp

lemma retrieve_multi_parts:
  assumes "fst (retrieve_multi rt embeds db co q areas intent limit k) = Inr r"
  obtains rs where
    "length rs = min (length areas) max_multihop_domains"
    "\<forall>i<length rs. fst (retrieve rt (embeds i) db co q (Some (areas ! i)) intent limit k) = Inr (rs ! i)"
    "r = finalize rt db (ranked (keep_each_area (rerank (int k) (round_robin_merge (map rr_hits rs)))
           (round_robin_merge (map rr_hits rs)) (take max_multihop_domains areas) k)) (combine_degrades (map rr_degrade rs))"
proof -
  from assms obtain rs where rs: "fst (retrieve_areas rt embeds db co q intent limit k 0 (take max_multihop_domains areas)) = Inr rs"
    and r: "r = finalize rt db (ranked (keep_each_area (rerank (int k) (round_robin_merge (map rr_hits rs)))
           (round_robin_merge (map rr_hits rs)) (take max_multihop_domains areas) k)) (combine_degrades (map rr_degrade rs))"
    by (auto simp: retrieve_multi_def Let_def split: prod.splits sum.splits)
  from retrieve_areas_results [OF rs] show thesis by (intro that [OF _ _ r]) auto
qed

lemma retrieve_multi_grounded:
  assumes ok: "retriever_ok rt" and r: "fst (retrieve_multi rt embeds db co q areas intent limit k) = Inr r"
  shows "\<forall>h\<in>set (rr_hits r). grounded (rt_version rt) co (core h)"
proof -
  from retrieve_multi_parts [OF r] obtain rs where
    rs: "\<forall>i<length rs. fst (retrieve rt (embeds i) db co q (Some (areas ! i)) intent limit k) = Inr (rs ! i)"
    and r: "r = finalize rt db (ranked (keep_each_area (rerank (int k) (round_robin_merge (map rr_hits rs)))
           (round_robin_merge (map rr_hits rs)) (take max_multihop_domains areas) k)) (combine_degrades (map rr_degrade rs))"
    by metis
  have "\<forall>h\<in>set (rr_hits s). grounded (rt_version rt) co (core h)" if "s \<in> set rs" for s
    using that rs retrieve_grounded [OF ok] by (metis in_set_conv_nth)
  then have "\<forall>h\<in>set (round_robin_merge (map rr_hits rs)). grounded (rt_version rt) co (core h)"
    using round_robin_subset [of "map rr_hits rs"] by fastforce
  then show ?thesis
    using keep_each_subset [of "rerank (int k) (round_robin_merge (map rr_hits rs))"
        "round_robin_merge (map rr_hits rs)" "take max_multihop_domains areas" k]
    unfolding r finalize_hits ranked_core rerank_def by (blast dest: in_set_takeD)
qed

text \<open>Evidence is never invented. Whatever the question, the intent and the product areas, every hit
  of a single or of a multi-product retrieval is a chunk of the corpus, with that chunk's text and
  product area and the index of a document of the corpus that is active and, when the retrieval is
  pinned to an index version, belongs to that version.\<close>
theorem evidence_is_readable_corpus:
  assumes "retriever_ok rt"
    and "fst (retrieve rt (embeds 0) db co q area intent limit k) = Inr r
      \<or> fst (retrieve_multi rt embeds db co q areas intent limit k) = Inr r"
    and "h \<in> set (rr_hits r)"
  shows "\<exists>c\<in>set (chunks co). \<exists>d\<in>set (documents co). dc_status d = Doc_active
    \<and> (rt_version rt = None \<or> rt_version rt = Some (dc_index d))
    \<and> rc_id h = ch_id c \<and> rc_area h = ch_area c \<and> rc_text h = ch_text c \<and> rc_index h = Some (dc_index d)"
proof -
  from assms(2) have "\<forall>h\<in>set (rr_hits r). grounded (rt_version rt) co (core h)"
    by (elim disjE) (erule retrieve_grounded [OF assms(1)], erule retrieve_multi_grounded [OF assms(1)])
  with assms(3) have "grounded (rt_version rt) co (core h)" by blast
  then obtain c d where cd: "c \<in> set (chunks co)" "d \<in> set (documents co)" "readable (rt_version rt) d"
    "core h = (ch_id c, ch_area c, ch_text c, Some (dc_index d))" unfolding grounded_def by blast
  show ?thesis
    by (intro bexI [OF _ cd(1)] bexI [OF _ cd(2)]) (use cd(3,4) in \<open>cases "rt_version rt"; simp add: readable_def core_def\<close>)
qed

definition demo_retriever :: "unit retriever" where
  "demo_retriever = \<lparr>rt_version = Some ''v1'', rt_identity = None, rt_wired = False, rt_search = (\<lambda>_ _ _. []),
     rt_confidence = None, rt_scan = id\<rparr>"

definition demo_index_table :: index_db where
  "demo_index_table = \<lparr>ix_rows = [], ix_runs = [], ix_audit = []\<rparr>"

lemma demo_retriever_ok: "retriever_ok demo_retriever"
  by (simp add: retriever_ok_def scan_ok_def search_ok_def demo_retriever_def)

theorem evidence_is_readable_corpus_witness:
  "\<exists>d\<in>set (documents demo_corpus). dc_status d = Doc_active \<and> dc_index d = ''v1''"
proof -
  let ?r = "fst (retrieve demo_retriever (\<lambda>_. Inr ()) demo_index_table demo_corpus ''--model'' (Some ''codex'') Exact_lookup 20 6)"
  have "(case ?r of Inl _ \<Rightarrow> [] | Inr r \<Rightarrow> map rc_id (rr_hits r)) = [''c1'', ''c1'']" by code_simp
  then obtain r where r1: "?r = Inr r" "map rc_id (rr_hits r) = [''c1'', ''c1'']" by (cases ?r) simp_all
  then obtain h where r: "?r = Inr r" "h \<in> set (rr_hits r)" by (cases "rr_hits r") auto
  have v: "rt_version demo_retriever = Some ''v1''" by (simp add: demo_retriever_def)
  from evidence_is_readable_corpus [OF demo_retriever_ok disjI1 [OF r(1)] r(2)] v show ?thesis by auto
qed

section \<open>What may be cached\<close>

lemma finalize_clean:
  "rr_degrade (finalize rt db hits d) = No_degrade \<longleftrightarrow>
     d = No_degrade \<and> \<not> evidence_spans_indexes hits \<and> \<not> active_index_ambiguous rt db"
  by (auto simp: finalize_def)

lemma one_index:
  assumes "\<not> evidence_spans_indexes hits" and "h \<in> set hits" and "h' \<in> set hits"
    and "rc_index h = Some v" and "rc_index h' = Some v'"
  shows "v = v'"
proof -
  let ?vs = "concat (map (\<lambda>h. case rc_index h of None \<Rightarrow> [] | Some v \<Rightarrow> [v]) hits)"
  have "v \<in> set ?vs" "v' \<in> set ?vs" using assms(2-5) by force+
  moreover have "card (set ?vs) \<le> 1"
    using assms(1) by (simp add: evidence_spans_indexes_def length_remdups_card_conv del: set_concat set_map)
  ultimately show ?thesis
    by (metis (no_types, lifting) List.finite_set One_nat_def card_le_Suc0_iff_eq)
qed

lemma ranked_span [simp]: "evidence_spans_indexes (ranked hits) = evidence_spans_indexes hits"
proof -
  let ?f = "\<lambda>x. case x of None \<Rightarrow> [] | Some v \<Rightarrow> [v]"
  have "map (\<lambda>h. ?f (rc_index h)) xs = map ?f (map rc_index xs)" for xs :: "evidence_hit list" by simp
  then show ?thesis unfolding evidence_spans_indexes_def by (simp only: map_ranked)
qed

definition embedder_failed :: "health_report list \<Rightarrow> bool" where
  "embedder_failed reports \<longleftrightarrow> (\<exists>b. Report_failure b \<in> set reports)"

lemma safe_vector_clean:
  "safe_vector_retrieve rt e conf co q area n degrade = (Inr (cs, No_degrade), reports) \<Longrightarrow> \<not> embedder_failed reports"
  by (auto simp: safe_vector_retrieve_def embedder_failed_def split: if_splits sum.splits emb_error.splits)

text \<open>A result without a reason: nothing failed, the index is known, and the evidence is of one index.\<close>

definition whole :: "'v retriever \<Rightarrow> index_db \<Rightarrow> retrieval_result \<Rightarrow> health_report list \<Rightarrow> bool" where
  "whole rt db r reports \<longleftrightarrow> \<not> evidence_spans_indexes (rr_hits r) \<and> \<not> active_index_ambiguous rt db \<and> \<not> embedder_failed reports"

lemma retrieve_clean:
  assumes "retrieve rt e db co q area intent limit k = (Inr r, reports)" and "rr_degrade r = No_degrade"
  shows "whole rt db r reports"
proof (cases "area = None")
  case True
  with assms obtain cs degrade hits where
    "safe_vector_retrieve rt e (rt_confidence rt) co q None limit (vector_arm_degrade rt db) = (Inr (cs, degrade), reports)"
    "r = finalize rt db hits degrade"
    by (auto simp: retrieve_def retrieve_global_def split: prod.splits sum.splits)
  with assms(2) show ?thesis by (auto simp: finalize_clean whole_def dest: safe_vector_clean)
next
  case False
  define short where "short = (if intent = Exact_lookup then exact_retrieve (rt_scan rt) (rt_version rt) co q area k else [])"
  show ?thesis
  proof (cases "short = []")
    case True
    with assms \<open>area \<noteq> None\<close> obtain cs degrade hits where
      "safe_vector_retrieve rt e None co q area limit (vector_arm_degrade rt db) = (Inr (cs, degrade), reports)"
      "r = finalize rt db hits degrade"
      by (auto simp: retrieve_def Let_def short_def split: prod.splits sum.splits)
    with assms(2) show ?thesis by (auto simp: finalize_clean whole_def dest: safe_vector_clean)
  next
    case False
    with assms \<open>area \<noteq> None\<close> obtain hits where "reports = []" "r = finalize rt db hits No_degrade"
      by (auto simp: retrieve_def Let_def short_def)
    with assms(2) show ?thesis by (auto simp: finalize_clean whole_def embedder_failed_def)
  qed
qed

lemma combine_clean: "combine_degrades ds = No_degrade \<longleftrightarrow> (\<forall>d\<in>set ds. d = No_degrade)"
proof -
  have "d = No_degrade \<or> d \<in> set degrade_precedence" for d
    by (cases d) (simp_all add: degrade_precedence_def)
  moreover have "No_degrade \<notin> set degrade_precedence" by (simp add: degrade_precedence_def)
  ultimately show ?thesis
    by (auto simp: combine_degrades_def split: option.splits dest: find_Some_iff_nth)
qed

lemma retrieve_areas_clean:
  "retrieve_areas rt embeds db co q intent limit k n areas = (Inr rs, reports) \<Longrightarrow>
     \<forall>r\<in>set rs. rr_degrade r = No_degrade \<Longrightarrow> \<not> embedder_failed reports"
proof (induction areas arbitrary: n rs reports)
  case (Cons a areas)
  then obtain r rs' ra rb where
    "retrieve rt (embeds n) db co q (Some a) intent limit k = (Inr r, ra)"
    "retrieve_areas rt embeds db co q intent limit k (Suc n) areas = (Inr rs', rb)" "rs = r # rs'" "reports = ra @ rb"
    by (auto split: prod.splits sum.splits)
  with Cons.IH [of "Suc n" rs' rb] Cons.prems(2) retrieve_clean [of rt "embeds n" db co q "Some a" intent limit k r ra]
  show ?case by (auto simp: whole_def embedder_failed_def)
qed (simp add: embedder_failed_def)

lemma retrieve_multi_clean:
  assumes "retrieve_multi rt embeds db co q areas intent limit k = (Inr r, reports)" and "rr_degrade r = No_degrade"
  shows "whole rt db r reports"
proof -
  from assms(1) obtain rs hits where
    rs: "retrieve_areas rt embeds db co q intent limit k 0 (take max_multihop_domains areas) = (Inr rs, reports)"
    and r: "r = finalize rt db hits (combine_degrades (map rr_degrade rs))"
    by (auto simp: retrieve_multi_def Let_def split: prod.splits sum.splits)
  from assms(2) have "\<forall>r\<in>set rs. rr_degrade r = No_degrade" "\<not> evidence_spans_indexes hits" "\<not> active_index_ambiguous rt db"
    by (auto simp: r finalize_clean combine_clean)
  with retrieve_areas_clean [OF rs] show ?thesis by (simp add: whole_def r)
qed

text \<open>C28: A retrieval that reports no reason against caching is whole. When a single or a multi-product
  retrieval returns \<open>none\<close> as its degrade reason, no embedding call of it failed, more than one index
  was not active while the retrieval was unpinned, and no two hits come from different indexes, the
  merged evidence of several products included.\<close>
theorem clean_retrieval_is_whole:
  assumes "retrieve rt (embeds 0) db co q area intent limit k = (Inr r, reports)
      \<or> retrieve_multi rt embeds db co q areas intent limit k = (Inr r, reports)"
    and "rr_degrade r = No_degrade"
  shows "\<not> embedder_failed reports
    \<and> \<not> (rt_version rt = None \<and> ar_state (resolve_active_index db) = Ambiguous)
    \<and> (\<forall>h\<in>set (rr_hits r). \<forall>h'\<in>set (rr_hits r). \<forall>v v'. rc_index h = Some v \<and> rc_index h' = Some v' \<longrightarrow> v = v')"
proof -
  from assms(1) have "whole rt db r reports"
    by (elim disjE) (erule retrieve_clean [OF _ assms(2)], erule retrieve_multi_clean [OF _ assms(2)])
  then show ?thesis using one_index by (auto simp: whole_def active_index_ambiguous_def)
qed

theorem clean_retrieval_is_whole_witness:
  "\<not> embedder_failed (snd (retrieve_multi demo_retriever (\<lambda>_ _. Inr ()) demo_index_table demo_corpus ''limit'' [''codex'', ''gemini_api''] Faq 20 6))"
proof -
  let ?p = "retrieve_multi demo_retriever (\<lambda>_ _. Inr ()) demo_index_table demo_corpus ''limit'' [''codex'', ''gemini_api''] Faq 20 6"
  have "(case fst ?p of Inl _ \<Rightarrow> None | Inr r \<Rightarrow> Some (rr_degrade r)) = Some No_degrade" by code_simp
  then obtain r where r: "?p = (Inr r, snd ?p)" "rr_degrade r = No_degrade"
    by (cases ?p; cases "fst ?p") auto
  from clean_retrieval_is_whole [of demo_retriever "\<lambda>_ _. Inr ()", OF disjI2 [OF r(1)] r(2)] show ?thesis by simp
qed

section \<open>No product is dropped\<close>

lemma take_hit_ids:
  "distinct (map rc_id m) \<Longrightarrow> distinct (map rc_id (take_hit h m))"
  "rc_id ` set (take_hit h m) = insert (rc_id h) (rc_id ` set m)"
  by (auto simp: take_hit_def)

lemma round_robin_distinct: "distinct (map rc_id (round_robin_merge per_area))"
proof -
  have inner: "distinct (map rc_id m) \<Longrightarrow>
      distinct (map rc_id (fold (\<lambda>hits merged. if rank < length hits then take_hit (hits ! rank) merged else merged) hss m))" for hss m rank
    by (induction hss arbitrary: m) (simp_all add: take_hit_ids)
  have "distinct (map rc_id m) \<Longrightarrow> distinct (map rc_id (fold (\<lambda>rank. fold (\<lambda>hits merged. if rank < length hits then take_hit (hits ! rank) merged else merged) per_area) ranks m))" for ranks m
    by (induction ranks arbitrary: m) (simp_all add: inner)
  from this [of "[]"] show ?thesis unfolding round_robin_merge_def by simp
qed

lemma area_count_twice:
  assumes "i < length kept" and "area_count (rc_area (kept ! i)) kept > 1"
  obtains j where "j < length kept" "j \<noteq> i" "rc_area (kept ! j) = rc_area (kept ! i)"
proof -
  let ?A = "{j. j < length kept \<and> rc_area (kept ! j) = rc_area (kept ! i)}"
  have "card ?A > 1" using assms(2) by (simp add: area_count_def length_filter_conv_card)
  then have "\<not> ?A \<subseteq> {i}" using card_mono [of "{i}" ?A] by auto
  then show ?thesis using that by blast
qed

lemma no_spare_distinct:
  assumes "spare_position kept = None"
  shows "distinct (map rc_area kept)"
  unfolding distinct_conv_nth
proof (intro allI impI)
  fix i j assume ij: "i < length (map rc_area kept)" "j < length (map rc_area kept)" "i \<noteq> j"
  show "map rc_area kept ! i \<noteq> map rc_area kept ! j"
  proof
    assume eq: "map rc_area kept ! i = map rc_area kept ! j"
    let ?A = "{n. n < length kept \<and> rc_area (kept ! n) = rc_area (kept ! i)}"
    have "{i, j} \<subseteq> ?A" using ij eq by auto
    then have "card {i, j} \<le> card ?A" by (intro card_mono) auto
    then have "area_count (rc_area (kept ! i)) kept > 1"
      using ij(3) by (simp add: area_count_def length_filter_conv_card)
    moreover have "\<forall>n\<in>set (rev [0..<length kept]). \<not> area_count (rc_area (kept ! n)) kept > 1"
      using assms by (simp add: spare_position_def)
    ultimately show False using ij(1) by auto
  qed
qed

definition kept_ok :: "evidence_hit list \<Rightarrow> nat \<Rightarrow> evidence_hit list \<Rightarrow> bool" where
  "kept_ok merged k kept \<longleftrightarrow> length kept \<le> k \<and> distinct (map rc_id kept) \<and> set kept \<subseteq> set merged"

lemma keep_area_step:
  assumes inv: "kept_ok merged k kept" and merged: "distinct (map rc_id merged)"
    and within: "rc_area ` set merged \<subseteq> A" and A: "finite A" "card A \<le> k" and a: "a \<in> A"
  shows "kept_ok merged k (keep_area merged k a kept)
    \<and> rc_area ` set kept \<subseteq> rc_area ` set (keep_area merged k a kept)
    \<and> (a \<in> rc_area ` set merged \<longrightarrow> a \<in> rc_area ` set (keep_area merged k a kept))"
proof (cases "(\<exists>h\<in>set kept. rc_area h = a) \<or> List.find (\<lambda>h. rc_area h = a) merged = None")
  case True
  then have "keep_area merged k a kept = kept" by (auto simp: keep_area_def simp del: find_None_iff_set)
  moreover have "a \<in> rc_area ` set kept" if "a \<in> rc_area ` set merged"
    using that True by (metis (mono_tags, lifting) find_None_iff_set image_iff)
  ultimately show ?thesis using inv by simp
next
  case False
  then have absent: "\<forall>h\<in>set kept. rc_area h \<noteq> a" by blast
  from False obtain best where best: "List.find (\<lambda>h. rc_area h = a) merged = Some best"
    by (cases "List.find (\<lambda>h. rc_area h = a) merged") blast+
  from find_Some_iff_nth [OF best] have b: "best \<in> set merged" "rc_area best = a" by auto
  have inj: "x = y" if "x \<in> set merged" "y \<in> set merged" "rc_id x = rc_id y" for x y
    using distinct_map_filter_unique [OF merged that] .
  have new: "rc_id best \<notin> rc_id ` set kept"
    using inv absent b inj unfolding kept_ok_def by (metis (no_types, lifting) image_iff subset_iff)
  have d: "distinct (map rc_id kept)" "set kept \<subseteq> set merged" "length kept \<le> k" using inv by (simp_all add: kept_ok_def)
  show ?thesis
  proof (cases "spare_position kept")
    case (Some i)
    then have i: "i < length kept" "area_count (rc_area (kept ! i)) kept > 1"
      by (auto simp: spare_position_def dest: find_Some_iff_nth)
    have keep: "keep_area merged k a kept = kept[i := best]"
      using absent best Some by (auto simp: keep_area_def)
    have "distinct (map rc_id (kept[i := best]))"
      using d(1) new by (simp add: map_update distinct_list_update)
    moreover have "rc_area ` set kept \<subseteq> rc_area ` set (kept[i := best])"
    proof
      fix x assume "x \<in> rc_area ` set kept"
      then obtain n where n: "n < length kept" "x = rc_area (kept ! n)" by (auto simp: in_set_conv_nth)
      from area_count_twice [OF i] obtain j where j: "j < length kept" "j \<noteq> i" "rc_area (kept ! j) = rc_area (kept ! i)" .
      define m where "m = (if n = i then j else n)"
      have "m < length kept" "m \<noteq> i" "x = rc_area (kept ! m)" using n j by (auto simp: m_def)
      then have "kept[i := best] ! m \<in> set (kept[i := best])" "x = rc_area (kept[i := best] ! m)"
        using nth_mem [of m "kept[i := best]"] by simp_all
      then show "x \<in> rc_area ` set (kept[i := best])" by blast
    qed
    moreover have "best \<in> set (kept[i := best])" using i(1) by (rule set_update_memI)
    ultimately show ?thesis
      unfolding keep kept_ok_def using d b set_update_subset_insert [of kept i best] by auto
  next
    case None
    have "length kept = card (rc_area ` set kept)"
      using distinct_card [OF no_spare_distinct [OF None]] by simp
    also have "\<dots> \<le> card (A - {a})"
      using absent within d(2) A(1) by (intro card_mono) auto
    also have "\<dots> < k" using A a by (metis card_Diff1_less less_le_trans)
    finally have short: "length kept < k" .
    then have keep: "keep_area merged k a kept = kept @ [best]"
      using absent best None by (auto simp: keep_area_def)
    show ?thesis
      unfolding keep kept_ok_def using d new b short by auto
  qed
qed

lemma keep_areas_fold:
  assumes "distinct (map rc_id merged)" and "rc_area ` set merged \<subseteq> A" and "finite A" "card A \<le> k"
  shows "set areas \<subseteq> A \<Longrightarrow> kept_ok merged k kept \<Longrightarrow>
    kept_ok merged k (fold (keep_area merged k) areas kept)
    \<and> rc_area ` set kept \<subseteq> rc_area ` set (fold (keep_area merged k) areas kept)
    \<and> (\<forall>a\<in>set areas. a \<in> rc_area ` set merged \<longrightarrow> a \<in> rc_area ` set (fold (keep_area merged k) areas kept))"
proof (induction areas arbitrary: kept)
  case (Cons a areas)
  then have "a \<in> A" by simp
  note step = keep_area_step [OF Cons(3) assms this]
  from Cons(1) [of "keep_area merged k a kept"] Cons(2) step
  have rest: "kept_ok merged k (fold (keep_area merged k) (a # areas) kept)"
    "rc_area ` set (keep_area merged k a kept) \<subseteq> rc_area ` set (fold (keep_area merged k) (a # areas) kept)"
    "\<forall>b\<in>set areas. b \<in> rc_area ` set merged \<longrightarrow> b \<in> rc_area ` set (fold (keep_area merged k) (a # areas) kept)"
    by simp_all
  have "rc_area ` set kept \<subseteq> rc_area ` set (fold (keep_area merged k) (a # areas) kept)"
    using step rest(2) by (blast intro: order_trans)
  moreover have "a \<in> rc_area ` set (fold (keep_area merged k) (a # areas) kept)" if "a \<in> rc_area ` set merged"
    using step that rest(2) by blast
  ultimately show ?case using rest(1,3) by simp
qed simp

text \<open>C29: No product is lost in the cut. When the searched areas fit into \<open>top_k\<close> and the merged hits
  belong to them, the list that \<open>_keep_each_area\<close> makes of any selection of at most \<open>top_k\<close> merged hits
  stays within \<open>top_k\<close>, repeats no chunk, takes every chunk from the merge, and has a chunk of exactly
  the products that the merge has.\<close>
theorem every_product_keeps_a_chunk:
  assumes "length selected \<le> k" and "distinct (map rc_id selected)" and "set selected \<subseteq> set merged"
    and "distinct (map rc_id merged)" and "rc_area ` set merged \<subseteq> set areas" and "card (set areas) \<le> k"
  shows "length (keep_each_area selected merged areas k) \<le> k
    \<and> distinct (map rc_id (keep_each_area selected merged areas k))
    \<and> set (keep_each_area selected merged areas k) \<subseteq> set merged
    \<and> rc_area ` set (keep_each_area selected merged areas k) = rc_area ` set merged"
proof -
  have "kept_ok merged k selected" using assms(1-3) by (simp add: kept_ok_def)
  from keep_areas_fold [OF assms(4,5) _ assms(6) order_refl this] assms(5) show ?thesis
    unfolding keep_each_area_def kept_ok_def by auto
qed

definition demo_hit :: "string \<Rightarrow> string \<Rightarrow> evidence_hit" where
  "demo_hit i a = to_evidence By_keyword 0 None (to_chunk (1 / 2) (demo_chunk i ''d1'' 0 a '''', demo_document ''d1'' ''v1''))"

theorem every_product_keeps_a_chunk_witness:
  "rc_area ` set (keep_each_area [demo_hit ''a'' ''codex'', demo_hit ''b'' ''codex'']
      [demo_hit ''a'' ''codex'', demo_hit ''b'' ''codex'', demo_hit ''g'' ''gemini_api''] [''codex'', ''gemini_api''] 2)
     = {''codex'', ''gemini_api''}"
  using every_product_keeps_a_chunk [of "[demo_hit ''a'' ''codex'', demo_hit ''b'' ''codex'']" 2
      "[demo_hit ''a'' ''codex'', demo_hit ''b'' ''codex'', demo_hit ''g'' ''gemini_api'']" "[''codex'', ''gemini_api'']"]
  by (simp add: demo_hit_def demo_chunk_def insert_commute)

section \<open>The ranking\<close>

lemma by_score_sorted: "sorted_wrt (\<lambda>x y. rc_score x \<ge> rc_score y) (by_score hits)"
  using sorted_sort_key [of "\<lambda>h. - rc_score h" hits] by (simp add: by_score_def sorted_map)

lemma by_score_ids: "distinct (map rc_id hits) \<Longrightarrow> distinct (map rc_id (by_score hits))"
proof -
  have "mset (map rc_id (by_score hits)) = mset (map rc_id hits)" by (simp add: by_score_def)
  then show "distinct (map rc_id hits) \<Longrightarrow> distinct (map rc_id (by_score hits))"
    using mset_eq_imp_distinct_iff by blast
qed

lemma take_best:
  assumes "sorted_wrt (\<lambda>x y. rc_score x \<ge> rc_score y) xs" and "x \<in> set (take n xs)" and "y \<in> set (drop n xs)"
  shows "rc_score x \<ge> rc_score y"
  using assms by (metis append_take_drop_id sorted_wrt_append)

text \<open>The ranking of a hybrid retrieval. Whenever the exact short-circuit is not taken, the hits are
  distinct chunks with the ranks one, two, ... in descending score; the score of each is one if an
  exact term names it, plus a half for every keyword row, plus its vector similarity; and a chunk that
  any arm found and the cut left out scores no more than any hit that is served.\<close>
theorem ranking_is_by_fused_score:
  assumes "fst (retrieve rt e db co q (Some a) intent limit k) = Inr r" and "intent \<noteq> Exact_lookup"
  shows "\<exists>vs. (let es = exact_retrieve (rt_scan rt) (rt_version rt) co q (Some a) limit;
                 ks = keyword_retrieve (rt_version rt) co q (Some a) limit;
                 fused = fused_score es ks vs
             in distinct (map rc_id (rr_hits r))
              \<and> (\<forall>i<length (rr_hits r). eh_rank (rr_hits r ! i) = i + 1)
              \<and> sorted_wrt (\<ge>) (map rc_score (rr_hits r))
              \<and> (\<forall>h\<in>set (rr_hits r). rc_score h = fused (rc_id h))
              \<and> (\<forall>i\<in>rc_id ` set es \<union> rc_id ` set ks \<union> rc_id ` set vs.
                   i \<in> rc_id ` set (rr_hits r) \<or> (\<forall>h\<in>set (rr_hits r). fused i \<le> rc_score h)))"
proof -
  define es where "es = exact_retrieve (rt_scan rt) (rt_version rt) co q (Some a) limit"
  define ks where "ks = keyword_retrieve (rt_version rt) co q (Some a) limit"
  from assms obtain vs degrade reports where
    "safe_vector_retrieve rt e None co q (Some a) limit (vector_arm_degrade rt db) = (Inr (vs, degrade), reports)"
    and h: "rr_hits r = ranked (take k (take limit (by_score (merge_hits es ks vs))))"
    by (auto simp: retrieve_def Let_def es_def ks_def rerank_def split: prod.splits sum.splits)
  define M where "M = by_score (merge_hits es ks vs)"
  define top where "top = take (min k limit) M"
  have top: "rr_hits r = ranked top" by (simp add: h top_def M_def)
  have sorted: "sorted_wrt (\<lambda>x y. rc_score x \<ge> rc_score y) M" unfolding M_def by (rule by_score_sorted)
  have ids: "distinct (map rc_id M)" unfolding M_def by (rule by_score_ids [OF merge_ids(1)])
  have score: "rc_score x = fused_score es ks vs (rc_id x)" if "x \<in> set M" for x
    using that by (simp add: M_def by_score_def merge_hit_score)
  have sub: "set top \<subseteq> set M" by (simp add: top_def set_take_subset)
  have img: "(\<lambda>h. (rc_id h, rc_score h)) ` set (rr_hits r) = (\<lambda>h. (rc_id h, rc_score h)) ` set top"
  proof -
    have "map (\<lambda>h. (rc_id h, rc_score h)) (rr_hits r) = map (\<lambda>h. (rc_id h, rc_score h)) top"
      unfolding top by (rule map_ranked_eq) simp
    then show ?thesis by (metis list.set_map)
  qed
  have served: "\<exists>x\<in>set top. rc_id x = rc_id h \<and> rc_score x = rc_score h" if "h \<in> set (rr_hits r)" for h
    using that img by (metis (mono_tags, lifting) Pair_inject image_iff)
  have "distinct (map rc_id (rr_hits r))"
    unfolding top map_ranked top_def by (simp add: ids take_map [symmetric] distinct_take)
  moreover have "\<forall>i<length (rr_hits r). eh_rank (rr_hits r ! i) = i + 1" unfolding top by (simp add: ranks)
  moreover have "sorted_wrt (\<ge>) (map rc_score (rr_hits r))"
    unfolding top map_ranked top_def by (simp add: sorted_wrt_map sorted_wrt_take sorted)
  moreover have "\<forall>h\<in>set (rr_hits r). rc_score h = fused_score es ks vs (rc_id h)"
    using served sub score by (metis subsetD)
  moreover have "i \<in> rc_id ` set (rr_hits r) \<or> (\<forall>h\<in>set (rr_hits r). fused_score es ks vs i \<le> rc_score h)"
    if i: "i \<in> rc_id ` set es \<union> rc_id ` set ks \<union> rc_id ` set vs" for i
  proof -
    from i obtain x where x: "x \<in> set M" "rc_id x = i"
      using merge_ids(2) [of es ks vs] by (auto simp: M_def by_score_def) (metis UnCI imageE imageI)+
    then consider "x \<in> set top" | "x \<in> set (drop (min k limit) M)"
      unfolding top_def by (metis Un_iff append_take_drop_id set_append)
    then show ?thesis
    proof cases
      case 1
      then have "(i, rc_score x) \<in> (\<lambda>h. (rc_id h, rc_score h)) ` set (rr_hits r)" unfolding img using x by auto
      then show ?thesis by auto
    next
      case 2
      have "fused_score es ks vs i \<le> rc_score h" if "h \<in> set (rr_hits r)" for h
      proof -
        from served [OF that] obtain y where "y \<in> set top" "rc_score y = rc_score h" by blast
        with take_best [OF sorted _ 2, of y] score [OF x(1)] x(2) show ?thesis by (simp add: top_def)
      qed
      then show ?thesis by blast
    qed
  qed
  ultimately show ?thesis unfolding Let_def es_def [symmetric] ks_def [symmetric] by blast
qed

theorem ranking_is_by_fused_score_witness:
  "(case fst (retrieve demo_retriever (\<lambda>_. Inr ()) demo_index_table demo_corpus ''Codex limit'' (Some ''codex'') Faq 20 6) of
      Inl _ \<Rightarrow> False
    | Inr r \<Rightarrow> sorted_wrt (\<ge>) (map rc_score (rr_hits r)) \<and> map rc_id (rr_hits r) = [''c1'', ''c2''])"
proof -
  let ?r = "fst (retrieve demo_retriever (\<lambda>_. Inr ()) demo_index_table demo_corpus ''Codex limit'' (Some ''codex'') Faq 20 6)"
  have "(case ?r of Inl _ \<Rightarrow> [] | Inr r \<Rightarrow> map rc_id (rr_hits r)) = [''c1'', ''c2'']" by code_simp
  then obtain r where r: "?r = Inr r" "map rc_id (rr_hits r) = [''c1'', ''c2'']" by (cases ?r) simp_all
  have "sorted_wrt (\<ge>) (map rc_score (rr_hits r))"
    using ranking_is_by_fused_score [OF r(1)] by (auto simp: Let_def)
  with r show ?thesis by simp
qed

end
