(* ===== verification/Cost_Budget.thy ===== *)
theory Cost_Budget
  imports Pricing
begin

text \<open>
  The daily spend budget and the metering seam: \<open>app/cost/budget.py\<close>, \<open>app/cost/admission.py\<close>,
  \<open>app/cost/metered.py\<close>, \<open>app/llm/fallback.py\<close> and the selection of a client in
  \<open>app/llm/factory.py\<close>. The meter's table is the list of its rows, \<open>None\<close> when the store cannot be
  read. A provider is a function from a request to an error or a result. One call is
  \<open>metered_complete\<close>; several at once are the step relation \<open>paid_step\<close>, whose steps end at the
  places where the code awaits.
\<close>

section \<open>The budget\<close>

record cost_settings =
  cost_enabled :: bool
  cost_fail_closed :: bool
  cost_soft :: usd
  cost_hard :: usd
  cost_max_concurrent :: nat

datatype budget_state = Budget_ok | Budget_soft | Budget_hard

datatype cost_limit_reached = Hard_limit usd | Store_unavailable

definition utc_day_start :: "timestamp \<Rightarrow> timestamp" where
  "utc_day_start now = now - now mod day_us"

definition spend_since :: "provider_call list \<Rightarrow> timestamp \<Rightarrow> usd" where
  "spend_since calls since = sum_list (map pc_cost (filter (\<lambda>r. pc_at r \<ge> since) calls))"

definition today_spend :: "provider_call list \<Rightarrow> timestamp \<Rightarrow> usd" where
  "today_spend calls now = spend_since calls (utc_day_start now)"

definition classify :: "usd \<Rightarrow> cost_settings \<Rightarrow> budget_state" where
  "classify spend st =
     (if spend \<ge> cost_hard st then Budget_hard
      else if spend \<ge> cost_soft st then Budget_soft else Budget_ok)"

definition enforce_budget ::
    "cost_settings \<Rightarrow> timestamp \<Rightarrow> provider_call list option \<Rightarrow> cost_limit_reached + budget_state" where
  "enforce_budget st now calls =
     (if \<not> cost_enabled st then Inr Budget_ok
      else (case calls of
              None \<Rightarrow> if cost_fail_closed st then Inl Store_unavailable else Inr Budget_ok
            | Some rows \<Rightarrow>
                let spend = today_spend rows now; state = classify spend st in
                if state = Budget_hard then Inl (Hard_limit spend) else Inr state))"

record budget_view =
  bv_day_start :: timestamp
  bv_spend :: usd
  bv_soft :: usd
  bv_hard :: usd
  bv_remaining :: usd
  bv_state :: budget_state
  bv_fraction :: rat
  bv_warn_60 :: bool
  bv_warn_85 :: bool

text \<open>The fraction is exact here; the source rounds it to four places for display.\<close>

definition budget_snapshot :: "cost_settings \<Rightarrow> timestamp \<Rightarrow> provider_call list \<Rightarrow> budget_view" where
  "budget_snapshot st now calls =
     (let spend = today_spend calls now; hard = cost_hard st;
          fraction = (if hard > 0 then spend / hard else 0) in
      \<lparr>bv_day_start = utc_day_start now, bv_spend = spend, bv_soft = cost_soft st, bv_hard = hard,
       bv_remaining = max 0 (hard - spend), bv_state = classify spend st, bv_fraction = fraction,
       bv_warn_60 = (fraction \<ge> 60 / 100), bv_warn_85 = (fraction \<ge> 85 / 100)\<rparr>)"

lemma utc_day_start_bounds: "utc_day_start now \<le> now \<and> now < utc_day_start now + day_us"
  using pos_mod_bound [OF day_us_pos, of now] pos_mod_sign [OF day_us_pos, of now]
  unfolding utc_day_start_def by linarith

lemma utc_day_start_idem [simp]: "utc_day_start (utc_day_start now) = utc_day_start now"
  by (simp add: utc_day_start_def)

lemma enforce_budget_hard:
  "cost_enabled st \<Longrightarrow> cost_hard st \<le> today_spend rows now
     \<Longrightarrow> enforce_budget st now (Some rows) = Inl (Hard_limit (today_spend rows now))"
  by (simp add: enforce_budget_def classify_def)

lemma enforce_budget_passes:
  "enforce_budget st now (Some rows) = Inr b \<Longrightarrow> cost_enabled st \<Longrightarrow>
     today_spend rows now < cost_hard st \<and> b = classify (today_spend rows now) st"
  by (auto simp: enforce_budget_def classify_def Let_def split: if_splits)

lemma enforce_budget_fail_closed:
  "cost_enabled st \<Longrightarrow> cost_fail_closed st \<Longrightarrow> enforce_budget st now None = Inl Store_unavailable"
  by (simp add: enforce_budget_def)

lemma spend_since_append [simp]: "spend_since (xs @ ys) t = spend_since xs t + spend_since ys t"
  by (simp add: spend_since_def)

lemma spend_since_one [simp]: "spend_since [r] t = (if pc_at r \<ge> t then pc_cost r else 0)"
  by (simp add: spend_since_def)

lemma today_spend_append [simp]:
  "today_spend (xs @ [r]) now = today_spend xs now + (if pc_at r \<ge> utc_day_start now then pc_cost r else 0)"
  by (simp add: today_spend_def)

text \<open>A restart changes nothing: the bucket is a function of the table and the clock, and a new UTC
  day starts at zero.\<close>

lemma new_day_starts_empty:
  "\<forall>r\<in>set rows. pc_at r < utc_day_start now \<Longrightarrow> today_spend rows now = 0"
proof -
  assume "\<forall>r\<in>set rows. pc_at r < utc_day_start now"
  then have "filter (\<lambda>r. pc_at r \<ge> utc_day_start now) rows = []"
    by (auto simp: filter_empty_conv)
  then show ?thesis by (simp add: today_spend_def spend_since_def)
qed

lemma snapshot_agrees_with_enforcement:
  assumes "cost_enabled st"
  shows "bv_state (budget_snapshot st now rows) = Budget_hard \<longleftrightarrow>
           enforce_budget st now (Some rows) = Inl (Hard_limit (bv_spend (budget_snapshot st now rows)))"
    and "0 < cost_hard st \<Longrightarrow> bv_remaining (budget_snapshot st now rows) = 0 \<longleftrightarrow>
           bv_state (budget_snapshot st now rows) = Budget_hard"
  using assms
  by (auto simp: budget_snapshot_def enforce_budget_def classify_def Let_def max_def)

section \<open>One metered call\<close>

datatype llm_error = Llm_unavailable | Cost_limit cost_limit_reached | Llm_bug

text \<open>\<open>except LLMUnavailable\<close>: \<open>CostLimitReached\<close> is a subclass.\<close>

definition is_llm_unavailable :: "llm_error \<Rightarrow> bool" where
  "is_llm_unavailable e \<longleftrightarrow> e \<noteq> Llm_bug"

record llm_request =
  rq_system :: string
  rq_user :: string
  rq_max_tokens :: int

type_synonym llm_client = "llm_request \<Rightarrow> llm_error + llm_result"

definition fallback_complete :: "llm_client \<Rightarrow> llm_client \<Rightarrow> llm_client" where
  "fallback_complete primary secondary rq =
     (case primary rq of
        Inr res \<Rightarrow> Inr res
      | Inl e \<Rightarrow> if is_llm_unavailable e then secondary rq else Inl e)"

text \<open>The meter's table with the two things that can fail: reading it and adding to it.\<close>

record meter_store =
  ms_rows :: "provider_call list"
  ms_readable :: bool
  ms_writable :: bool

definition readable_rows :: "meter_store \<Rightarrow> provider_call list option" where
  "readable_rows m = (if ms_readable m then Some (ms_rows m) else None)"

definition stored :: "provider_call \<Rightarrow> provider_call" where
  "stored c = c\<lparr>pc_cost := numeric6 (pc_cost c)\<rparr>"

definition record_call :: "provider_call \<Rightarrow> meter_store \<Rightarrow> meter_store" where
  "record_call c m = (if ms_writable m then m\<lparr>ms_rows := ms_rows m @ [stored c]\<rparr> else m)"

definition prompt_chars :: "llm_request \<Rightarrow> int" where
  "prompt_chars rq = int (length (rq_system rq)) + int (length (rq_user rq))"

text \<open>\<open>now\<close> is the clock at the check, \<open>later\<close> the clock when the call has returned.\<close>

definition metered_complete ::
    "cost_settings \<Rightarrow> ambience \<Rightarrow> timestamp \<Rightarrow> timestamp \<Rightarrow> llm_client \<Rightarrow> llm_request \<Rightarrow> meter_store
       \<Rightarrow> (llm_error + llm_result) \<times> meter_store" where
  "metered_complete st a now later inner rq m =
     (case enforce_budget st now (readable_rows m) of
        Inl e \<Rightarrow> (Inl (Cost_limit e), m)
      | Inr _ \<Rightarrow>
          (case inner rq of
             Inl e \<Rightarrow> (Inl e, m)
           | Inr res \<Rightarrow>
               (Inr res, record_call (llm_call a later res (prompt_chars rq) (rq_max_tokens rq)) m)))"

text \<open>
  An embedding call: \<open>call\<close> gives the outcome and the usage its provider requests reported. An empty
  input is not metered, an ingest batch is metered and not gated.
\<close>

definition metered_embed ::
    "cost_settings \<Rightarrow> ambience \<Rightarrow> timestamp \<Rightarrow> timestamp \<Rightarrow> string \<Rightarrow> string \<Rightarrow> call_site \<Rightarrow> int
       \<Rightarrow> ('e + 'v) \<times> embedding_usage \<Rightarrow> meter_store
       \<Rightarrow> (cost_limit_reached + ('e + 'v)) \<times> meter_store" where
  "metered_embed st a now later provider model site chars call m =
     (if chars = 0 then (Inr (fst call), m)
      else (case (if site \<noteq> Ingest then enforce_budget st now (readable_rows m) else Inr Budget_ok) of
              Inl e \<Rightarrow> (Inl e, m)
            | Inr _ \<Rightarrow>
                (case fst call of
                   Inl e \<Rightarrow> (Inr (Inl e), m)
                 | Inr v \<Rightarrow>
                     (Inr (Inr v),
                      record_call (embedding_call a later provider model (snd call) chars site) m))))"

lemma fallback_never_masks_a_bug:
  "primary rq = Inl Llm_bug \<Longrightarrow> fallback_complete primary secondary rq = Inl Llm_bug"
  by (simp add: fallback_complete_def is_llm_unavailable_def)

lemma fallback_answers_iff:
  "(\<exists>res. fallback_complete p s rq = Inr res) \<longleftrightarrow>
     (\<exists>res. p rq = Inr res) \<or> (\<exists>e res. p rq = Inl e \<and> is_llm_unavailable e \<and> s rq = Inr res)"
  by (auto simp: fallback_complete_def split: sum.splits)

lemma metering_never_breaks_an_answer:
  "enforce_budget st now (readable_rows m) = Inr b \<Longrightarrow>
     fst (metered_complete st a now later inner rq m) = inner rq"
  by (auto simp: metered_complete_def split: sum.splits)

lemma refused_call_is_not_made:
  "fst (metered_complete st a now later inner rq m) = Inl (Cost_limit e) \<Longrightarrow>
     (\<forall>x. inner rq \<noteq> Inl (Cost_limit x)) \<Longrightarrow>
     snd (metered_complete st a now later inner rq m) = m
     \<and> (\<forall>other. metered_complete st a now later other rq m = metered_complete st a now later inner rq m)"
  by (auto simp: metered_complete_def split: sum.splits)

section \<open>Many calls at once\<close>

text \<open>
  A task has arrived (gated by the budget or not), was refused, is past the budget check and waits
  for a slot, has its provider call in flight, has released its slot and writes its row, or is over.
\<close>

datatype phase = Arrived bool | Refused_call | Waiting | In_flight | Writing provider_call | Over

record paid_world =
  pw_rows :: "provider_call list"
  pw_clock :: timestamp
  pw_tasks :: "phase list"

definition in_flight :: "paid_world \<Rightarrow> nat" where
  "in_flight w = length (filter (\<lambda>p. p = In_flight) (pw_tasks w))"

definition set_task :: "nat \<Rightarrow> phase \<Rightarrow> paid_world \<Rightarrow> paid_world" where
  "set_task i p w = w\<lparr>pw_tasks := (pw_tasks w)[i := p]\<rparr>"

text \<open>A row the meter builds at time \<open>now\<close>, for a completion or for an embedding.\<close>

inductive meter_row :: "timestamp \<Rightarrow> provider_call \<Rightarrow> bool" where
  llm_row: "0 \<le> res_input res \<Longrightarrow> 0 \<le> res_output res \<Longrightarrow> 0 \<le> m \<Longrightarrow> meter_row now (llm_call a now res n m)"
| embedding_row: "meter_row now (embedding_call a now prov model (collected reports) n site)"

inductive paid_step :: "cost_settings \<Rightarrow> paid_world \<Rightarrow> paid_world \<Rightarrow> bool" for st where
  arrive: "paid_step st w (w\<lparr>pw_tasks := pw_tasks w @ [Arrived gated]\<rparr>)"
| pass: "i < length (pw_tasks w) \<Longrightarrow> pw_tasks w ! i = Arrived gated
    \<Longrightarrow> view = Some (pw_rows w) \<or> view = None
    \<Longrightarrow> gated \<longrightarrow> enforce_budget st (pw_clock w) view = Inr b
    \<Longrightarrow> paid_step st w (set_task i Waiting w)"
| refuse: "i < length (pw_tasks w) \<Longrightarrow> pw_tasks w ! i = Arrived True
    \<Longrightarrow> view = Some (pw_rows w) \<or> view = None
    \<Longrightarrow> enforce_budget st (pw_clock w) view = Inl e
    \<Longrightarrow> paid_step st w (set_task i Refused_call w)"
| acquire: "i < length (pw_tasks w) \<Longrightarrow> pw_tasks w ! i = Waiting \<Longrightarrow> in_flight w < cost_max_concurrent st
    \<Longrightarrow> paid_step st w (set_task i In_flight w)"
| give_up: "i < length (pw_tasks w) \<Longrightarrow> pw_tasks w ! i = Waiting \<or> pw_tasks w ! i = In_flight
    \<Longrightarrow> paid_step st w (set_task i Over w)"
| return: "i < length (pw_tasks w) \<Longrightarrow> pw_tasks w ! i = In_flight \<Longrightarrow> meter_row (pw_clock w) row
    \<Longrightarrow> paid_step st w (set_task i (Writing row) w)"
| commit: "i < length (pw_tasks w) \<Longrightarrow> pw_tasks w ! i = Writing row
    \<Longrightarrow> paid_step st w ((set_task i Over w)\<lparr>pw_rows := pw_rows w @ [stored row]\<rparr>)"
| lose: "i < length (pw_tasks w) \<Longrightarrow> pw_tasks w ! i = Writing row \<Longrightarrow> paid_step st w (set_task i Over w)"
| tick: "pw_clock w \<le> t \<Longrightarrow> paid_step st w (w\<lparr>pw_clock := t\<rparr>)"

inductive_cases paid_stepE: "paid_step st w w'"

inductive paid_run :: "cost_settings \<Rightarrow> paid_world \<Rightarrow> paid_world \<Rightarrow> bool" for st where
  run_refl: "paid_run st w w"
| run_step: "paid_run st w w' \<Longrightarrow> paid_step st w' w'' \<Longrightarrow> paid_run st w w''"

lemma paid_run_trans: "paid_run st w' w'' \<Longrightarrow> paid_run st w w' \<Longrightarrow> paid_run st w w''"
  by (induction rule: paid_run.induct) (auto intro: paid_run.intros)

definition quiet_world :: "provider_call list \<Rightarrow> timestamp \<Rightarrow> paid_world" where
  "quiet_world rows now = \<lparr>pw_rows = rows, pw_clock = now, pw_tasks = []\<rparr>"

text \<open>Counting tasks under one update.\<close>

lemma length_filter_update:
  "i < length xs \<Longrightarrow> length (filter P (xs[i := y])) + (if P (xs ! i) then 1 else 0)
     = length (filter P xs) + (if P y then 1 else 0)"
proof (induction xs arbitrary: i)
  case (Cons x xs)
  then show ?case by (cases i) auto
qed simp

lemma in_flight_set_task:
  "i < length (pw_tasks w) \<Longrightarrow>
     in_flight (set_task i p w) + (if pw_tasks w ! i = In_flight then 1 else 0)
       = in_flight w + (if p = In_flight then 1 else 0)"
  using length_filter_update [of i "pw_tasks w" "\<lambda>p. p = In_flight" p]
  by (simp add: in_flight_def set_task_def)

lemma set_task_sel [simp]:
  "pw_rows (set_task i p w) = pw_rows w" "pw_clock (set_task i p w) = pw_clock w"
  "pw_tasks (set_task i p w) = (pw_tasks w)[i := p]"
  by (simp_all add: set_task_def)

lemma in_flight_rows [simp]: "in_flight (w\<lparr>pw_rows := r\<rparr>) = in_flight w"
  "in_flight (w\<lparr>pw_clock := t\<rparr>) = in_flight w"
  by (simp_all add: in_flight_def)

lemma in_flight_step:
  "paid_step st w w' \<Longrightarrow> in_flight w \<le> cost_max_concurrent st \<Longrightarrow> in_flight w' \<le> cost_max_concurrent st"
proof (induction rule: paid_step.induct)
  case (arrive w gated)
  then show ?case by (simp add: in_flight_def)
next
  case (acquire i w)
  then show ?case using in_flight_set_task [of i w In_flight] by simp
next
  case (pass i w gated view b)
  then show ?case using in_flight_set_task [of i w Waiting] by simp
next
  case (refuse i w view e)
  then show ?case using in_flight_set_task [of i w Refused_call] by simp
next
  case (give_up i w)
  then show ?case using in_flight_set_task [of i w Over] by simp
next
  case (return i w row)
  then show ?case using in_flight_set_task [of i w "Writing row"] by simp
next
  case (commit i w row)
  then show ?case using in_flight_set_task [of i w Over] by simp
next
  case (lose i w row)
  then show ?case using in_flight_set_task [of i w Over] by simp
qed simp

lemma in_flight_run:
  "paid_run st w w' \<Longrightarrow> in_flight w \<le> cost_max_concurrent st \<Longrightarrow> in_flight w' \<le> cost_max_concurrent st"
  by (induction rule: paid_run.induct) (auto intro: in_flight_step)

subsection \<open>How far a run can pass the limit\<close>

text \<open>Past its check and not over: these calls will still be paid for, whatever the table says.\<close>

fun admitted :: "phase \<Rightarrow> bool" where
  "admitted Waiting = True"
| "admitted In_flight = True"
| "admitted (Writing row) = True"
| "admitted p = False"

definition admitted_calls :: "paid_world \<Rightarrow> nat" where
  "admitted_calls w = length (filter admitted (pw_tasks w))"

lemma admitted_set_task:
  "i < length (pw_tasks w) \<Longrightarrow>
     admitted_calls (set_task i p w) + (if admitted (pw_tasks w ! i) then 1 else 0)
       = admitted_calls w + (if admitted p then 1 else 0)"
  using length_filter_update [of i "pw_tasks w" admitted p]
  by (simp add: admitted_calls_def set_task_def)

lemma admitted_rows [simp]: "admitted_calls (w\<lparr>pw_rows := r\<rparr>) = admitted_calls w"
  "admitted_calls (w\<lparr>pw_clock := t\<rparr>) = admitted_calls w"
  by (simp_all add: admitted_calls_def)

text \<open>A run all of whose states satisfy a predicate.\<close>

inductive run_within ::
    "cost_settings \<Rightarrow> (paid_world \<Rightarrow> bool) \<Rightarrow> paid_world \<Rightarrow> paid_world \<Rightarrow> bool" for st Q where
  within_refl: "Q w \<Longrightarrow> run_within st Q w w"
| within_step: "run_within st Q w w' \<Longrightarrow> paid_step st w' w'' \<Longrightarrow> Q w'' \<Longrightarrow> run_within st Q w w''"

lemma run_within_run: "run_within st Q w w' \<Longrightarrow> paid_run st w w' \<and> Q w'"
  by (induction rule: run_within.induct) (auto intro: paid_run.intros)

text \<open>Gated calls only, one UTC day, no call dearer than \<open>c\<close>, never more than \<open>k\<close> past their check.\<close>

definition ordinary_day :: "timestamp \<Rightarrow> usd \<Rightarrow> nat \<Rightarrow> paid_world \<Rightarrow> bool" where
  "ordinary_day day c k w \<longleftrightarrow>
     utc_day_start (pw_clock w) = day \<and> admitted_calls w \<le> k \<and> Arrived False \<notin> set (pw_tasks w)
     \<and> (\<forall>row. Writing row \<in> set (pw_tasks w) \<longrightarrow> pc_cost (stored row) \<le> c)"

definition budget_holds :: "cost_settings \<Rightarrow> timestamp \<Rightarrow> usd \<Rightarrow> nat \<Rightarrow> paid_world \<Rightarrow> bool" where
  "budget_holds st day c k w \<longleftrightarrow>
     spend_since (pw_rows w) day + c * of_nat (admitted_calls w) \<le> cost_hard st + c * of_nat k"

lemma budget_holds_fewer:
  "budget_holds st day c k w \<Longrightarrow> 0 \<le> c \<Longrightarrow> pw_rows w' = pw_rows w
     \<Longrightarrow> admitted_calls w' \<le> admitted_calls w \<Longrightarrow> budget_holds st day c k w'"
proof -
  assume h: "budget_holds st day c k w" "0 \<le> c" "pw_rows w' = pw_rows w"
    "admitted_calls w' \<le> admitted_calls w"
  then have "c * of_nat (admitted_calls w') \<le> c * of_nat (admitted_calls w)"
    by (simp add: mult_left_mono)
  then show ?thesis using h unfolding budget_holds_def by simp
qed

lemma budget_holds_step:
  assumes "paid_step st w w'" and "budget_holds st day c k w" and "0 \<le> c"
    and "cost_enabled st" and "cost_fail_closed st"
    and "ordinary_day day c k w" and "ordinary_day day c k w'"
  shows "budget_holds st day c k w'"
  using assms
proof (induction rule: paid_step.induct)
  case (arrive w gated)
  then show ?case by (simp add: budget_holds_def admitted_calls_def)
next
  case (pass i w gated view b)
  have "gated"
    using pass.hyps(1,2) pass.prems(5) by (auto simp: ordinary_day_def in_set_conv_nth)
  then have "spend_since (pw_rows w) day < cost_hard st"
    using pass.hyps(3,4) pass.prems enforce_budget_passes
    by (auto simp: ordinary_day_def enforce_budget_fail_closed today_spend_def)
  moreover have "c * of_nat (admitted_calls (set_task i Waiting w)) \<le> c * of_nat k"
    using pass.prems by (intro mult_left_mono) (simp_all add: ordinary_day_def)
  ultimately show ?case by (simp add: budget_holds_def)
next
  case (refuse i w view e)
  then show ?case using admitted_set_task [of i w Refused_call]
    by (elim budget_holds_fewer) simp_all
next
  case (acquire i w)
  then show ?case using admitted_set_task [of i w In_flight]
    by (elim budget_holds_fewer) simp_all
next
  case (give_up i w)
  then show ?case using admitted_set_task [of i w Over]
    by (elim budget_holds_fewer) (auto split: if_splits)
next
  case (return i w row)
  then show ?case using admitted_set_task [of i w "Writing row"]
    by (elim budget_holds_fewer) simp_all
next
  case (commit i w row)
  have "pc_cost (stored row) \<le> c"
    using commit.hyps commit.prems(5) nth_mem unfolding ordinary_day_def by metis
  then have spent: "spend_since (pw_rows w @ [stored row]) day \<le> spend_since (pw_rows w) day + c"
    using commit.prems(2) by simp
  have "admitted_calls w = admitted_calls (set_task i Over w) + 1"
    using admitted_set_task [of i w Over] commit.hyps by simp
  then have "c * of_nat (admitted_calls w) = c * of_nat (admitted_calls (set_task i Over w)) + c"
    by (simp add: algebra_simps)
  then show ?case
    using spent commit.prems(1) unfolding budget_holds_def by simp
next
  case (lose i w row)
  then show ?case using admitted_set_task [of i w Over]
    by (elim budget_holds_fewer) simp_all
next
  case (tick w t)
  then show ?case by (simp add: budget_holds_def)
qed

lemma budget_holds_run:
  assumes "run_within st (ordinary_day day c k) w w'" and "0 \<le> c"
    and "cost_enabled st" and "cost_fail_closed st" and "budget_holds st day c k w"
  shows "budget_holds st day c k w'"
  using assms
proof (induction rule: run_within.induct)
  case (within_step w w' w'')
  then show ?case
    using budget_holds_step [of st w' w''] run_within_run by blast
qed simp

subsection \<open>What the budget promises\<close>

lemma overshoot_is_bounded_by_admitted_calls_parts:
  assumes "run_within st (ordinary_day day c k) (quiet_world rows now) w"
    and "cost_enabled st" and "cost_fail_closed st" and "0 \<le> c"
    and "today_spend rows now < cost_hard st"
  shows "today_spend (pw_rows w) (pw_clock w) \<le> cost_hard st + c * of_nat k"
    and "in_flight w \<le> cost_max_concurrent st"
proof -
  have run: "paid_run st (quiet_world rows now) w" and day: "ordinary_day day c k w"
    using run_within_run [OF assms(1)] by simp_all
  have "ordinary_day day c k (quiet_world rows now)"
    using assms(1) by (induction "quiet_world rows now" w rule: run_within.induct) auto
  moreover have "0 \<le> c * of_nat k"
    using assms(4) by simp
  ultimately have "budget_holds st day c k (quiet_world rows now)"
    using assms(5) by (auto simp: budget_holds_def quiet_world_def admitted_calls_def ordinary_day_def
        today_spend_def)
  then have "budget_holds st day c k w"
    using budget_holds_run [OF assms(1)] assms by blast
  moreover have "0 \<le> c * of_nat (admitted_calls w)"
    using assms(4) by simp
  ultimately show "today_spend (pw_rows w) (pw_clock w) \<le> cost_hard st + c * of_nat k"
    using day by (simp add: budget_holds_def ordinary_day_def today_spend_def)
  show "in_flight w \<le> cost_max_concurrent st"
    using in_flight_run [OF run] by (simp add: quiet_world_def in_flight_def)
qed


definition demo_cost_settings :: cost_settings where
  "demo_cost_settings = \<lparr>cost_enabled = True, cost_fail_closed = True, cost_soft = 5, cost_hard = 10,
     cost_max_concurrent = 1\<rparr>"

definition dear_result :: llm_result where
  "dear_result = \<lparr>res_text = [], res_input = 0, res_output = 1000000,
     res_model = ''openai/gpt-4o'', res_provider = ''router''\<rparr>"

definition dear_row :: provider_call where
  "dear_row = llm_call demo_ambience 0 dear_result 0 0"

lemma dear_row_facts: "meter_row 0 dear_row" "pc_cost (stored dear_row) = 10" "pc_at (stored dear_row) = 0"
proof -
  show "meter_row 0 dear_row"
    unfolding dear_row_def by (rule llm_row) (simp_all add: dear_result_def)
  have "pc_cost (stored dear_row) = 10 \<and> pc_at (stored dear_row) = 0"
    by code_simp
  then show "pc_cost (stored dear_row) = 10" "pc_at (stored dear_row) = 0"
    by simp_all
qed

definition demo_one_call :: paid_world where
  "demo_one_call = \<lparr>pw_rows = [stored dear_row], pw_clock = 0, pw_tasks = [Over]\<rparr>"

lemma demo_within:
  assumes "\<forall>row. Writing row \<in> set ts \<longrightarrow> row = dear_row" and "Arrived False \<notin> set ts"
    and "length (filter admitted ts) \<le> 2"
  shows "ordinary_day 0 10 2 \<lparr>pw_rows = rows, pw_clock = 0, pw_tasks = ts\<rparr>"
  using assms dear_row_facts(2) by (auto simp: ordinary_day_def admitted_calls_def utc_day_start_def)

lemma demo_one_call_run:
  "run_within demo_cost_settings (ordinary_day 0 10 2) (quiet_world [] 0) demo_one_call"
proof -
  let ?w = "\<lambda>rows ts. \<lparr>pw_rows = rows, pw_clock = 0, pw_tasks = ts\<rparr>"
  have "run_within demo_cost_settings (ordinary_day 0 10 2) (?w [] []) (?w [] [])"
    by (rule within_refl) (rule demo_within, simp_all)
  then have "run_within demo_cost_settings (ordinary_day 0 10 2) (?w [] []) (?w [] [Arrived True])"
    using arrive [of demo_cost_settings "?w [] []" True]
    by (elim within_step) (simp_all add: demo_within)
  then have "run_within demo_cost_settings (ordinary_day 0 10 2) (?w [] []) (?w [] [Waiting])"
    using pass [of 0 "?w [] [Arrived True]" True "Some []" demo_cost_settings Budget_ok]
    by (elim within_step) (simp_all add: demo_within set_task_def enforce_budget_def
        demo_cost_settings_def classify_def today_spend_def spend_since_def)
  then have "run_within demo_cost_settings (ordinary_day 0 10 2) (?w [] []) (?w [] [In_flight])"
    using acquire [of 0 "?w [] [Waiting]" demo_cost_settings]
    by (elim within_step) (simp_all add: demo_within set_task_def demo_cost_settings_def in_flight_def)
  then have "run_within demo_cost_settings (ordinary_day 0 10 2) (?w [] []) (?w [] [Writing dear_row])"
    using return [of 0 "?w [] [In_flight]" dear_row demo_cost_settings] dear_row_facts(1)
    by (elim within_step) (simp_all add: demo_within set_task_def)
  then have "run_within demo_cost_settings (ordinary_day 0 10 2) (?w [] []) (?w [stored dear_row] [Over])"
    using commit [of 0 "?w [] [Writing dear_row]" dear_row demo_cost_settings]
    by (elim within_step) (simp_all add: demo_within set_task_def)
  then show ?thesis by (simp add: quiet_world_def demo_one_call_def)
qed


text \<open>
  The slots do not bound \<open>k\<close>: the check is made before the slot is waited for and not again after.
\<close>

lemma queue_of_admitted:
  assumes "cost_hard st > 0"
  shows "paid_run st (quiet_world [] 0) \<lparr>pw_rows = [], pw_clock = 0, pw_tasks = replicate n Waiting\<rparr>"
proof (induction n)
  case 0
  then show ?case by (simp add: quiet_world_def run_refl)
next
  case (Suc n)
  let ?w = "\<lparr>pw_rows = [], pw_clock = 0, pw_tasks = replicate n Waiting\<rparr>"
  let ?a = "?w\<lparr>pw_tasks := pw_tasks ?w @ [Arrived True]\<rparr>"
  have "\<exists>b. enforce_budget st 0 (Some []) = Inr b"
    using assms by (auto simp: enforce_budget_def classify_def today_spend_def spend_since_def)
  then obtain b where "enforce_budget st 0 (Some []) = Inr b" by blast
  then have "paid_step st ?a (set_task n Waiting ?a)"
    by (intro pass [where gated = True and view = "Some []" and b = b]) (simp_all add: nth_append)
  then have "paid_run st (quiet_world [] 0) (set_task n Waiting ?a)"
    using run_step [OF run_step [OF Suc arrive]] by blast
  then show ?case
    by (simp add: set_task_def list_update_append replicate_append_same)
qed

lemma queue_drains:
  assumes "cost_max_concurrent st \<ge> 1"
  shows "paid_run st \<lparr>pw_rows = rows, pw_clock = 0, pw_tasks = replicate k Over @ replicate n Waiting\<rparr>
     \<lparr>pw_rows = rows @ replicate n (stored dear_row), pw_clock = 0, pw_tasks = replicate (k + n) Over\<rparr>"
proof (induction n arbitrary: k rows)
  case 0
  then show ?case by (simp add: run_refl)
next
  case (Suc n)
  let ?w = "\<lambda>p rows. \<lparr>pw_rows = rows, pw_clock = 0, pw_tasks = replicate k Over @ p # replicate n Waiting\<rparr>"
  have upd: "set_task k q (?w p r) = ?w q r" for p q r
    by (simp add: set_task_def list_update_append)
  have "paid_step st (?w Waiting rows) (?w In_flight rows)"
    using acquire [of k "?w Waiting rows" st] assms by (simp add: upd nth_append in_flight_def)
  moreover have "paid_step st (?w In_flight rows) (?w (Writing dear_row) rows)"
    using return [of k "?w In_flight rows" dear_row st] dear_row_facts(1) by (simp add: upd nth_append)
  moreover have "paid_step st (?w (Writing dear_row) rows) (?w Over (rows @ [stored dear_row]))"
    using commit [of k "?w (Writing dear_row) rows" dear_row st] by (simp add: upd nth_append)
  ultimately have "paid_run st (?w Waiting rows) (?w Over (rows @ [stored dear_row]))"
    by (meson run_refl run_step)
  moreover have "?w Over (rows @ [stored dear_row]) = \<lparr>pw_rows = rows @ [stored dear_row], pw_clock = 0,
      pw_tasks = replicate (Suc k) Over @ replicate n Waiting\<rparr>"
    by (simp add: replicate_append_same [symmetric])
  ultimately show ?case
    using Suc [of "rows @ [stored dear_row]" "Suc k"] paid_run_trans by fastforce
qed

text \<open>The concurrency cap does not bound how far a burst passes the limit. With a single slot and
  a positive hard limit, for every amount there is a run from an empty table, with at most one call
  in flight at any time, whose recorded spend on that day reaches the amount: all the callers pass
  the budget check before the first of them has been paid for, and then take the slot in turn.\<close>
theorem slots_do_not_bound_the_overshoot:
  assumes "cost_hard st > 0" and "cost_max_concurrent st = 1"
  shows "\<exists>w. paid_run st (quiet_world [] 0) w \<and> today_spend (pw_rows w) (pw_clock w) \<ge> of_nat amount
           \<and> in_flight w \<le> 1"
proof -
  let ?w = "\<lparr>pw_rows = replicate amount (stored dear_row), pw_clock = 0, pw_tasks = replicate amount Over\<rparr>"
  have "paid_run st (quiet_world [] 0) ?w"
    using paid_run_trans [OF queue_drains [of st "[]" 0 amount]] queue_of_admitted [OF assms(1), of amount] assms(2)
    by simp
  moreover have "today_spend (replicate amount (stored dear_row)) 0 = of_nat amount * 10"
    by (induction amount)
      (simp_all add: today_spend_def spend_since_def dear_row_facts utc_day_start_def algebra_simps)
  moreover have "in_flight ?w \<le> 1"
    by (simp add: in_flight_def)
  ultimately show ?thesis by (intro exI [of _ ?w]) simp
qed

theorem slots_do_not_bound_the_overshoot_witness:
  "\<exists>w. paid_run demo_cost_settings (quiet_world [] 0) w
     \<and> today_spend (pw_rows w) (pw_clock w) \<ge> of_nat 1000 \<and> in_flight w \<le> 1"
  by (rule slots_do_not_bound_the_overshoot) (simp_all add: demo_cost_settings_def)

section \<open>Which client is built\<close>

record llm_settings =
  ls_provider :: string
  ls_environment :: string
  ls_model :: string
  ls_gemini_model :: string
  ls_anthropic_key :: "string option"
  ls_gemini_key :: "string option"
  ls_router_key :: "string option"

datatype llm_choice =
    Stub_client string | Anthropic_client | Gemini_client | Router_client
  | Fallback_client llm_choice llm_choice | Metered_client llm_choice

datatype config_error = Unsupported_provider | Stub_in_production | Missing_key

definition has_key :: "string option \<Rightarrow> bool" where
  "has_key k \<longleftrightarrow> k \<noteq> None \<and> k \<noteq> Some []"

definition allowed_llm_providers :: "string list" where
  "allowed_llm_providers = [''stub'', ''anthropic'', ''gemini'', ''router'']"

definition validate_llm_provider :: "llm_settings \<Rightarrow> config_error + unit" where
  "validate_llm_provider s =
     (if ls_provider s \<notin> set allowed_llm_providers then Inl Unsupported_provider
      else if ls_environment s = ''production'' \<and> ls_provider s = ''stub'' then Inl Stub_in_production
      else Inr ())"

definition build_openrouter :: "llm_settings \<Rightarrow> config_error + llm_choice" where
  "build_openrouter s = (if has_key (ls_router_key s) then Inr Router_client else Inl Missing_key)"

definition build_gemini_with_fallback :: "llm_settings \<Rightarrow> config_error + llm_choice" where
  "build_gemini_with_fallback s =
     (let has_gemini = has_key (ls_gemini_key s); has_router = has_key (ls_router_key s) in
      if \<not> has_gemini \<and> \<not> has_router then
        (if ls_environment s = ''production'' then Inl Missing_key
         else Inr (Stub_client (''stub-'' @ ls_gemini_model s)))
      else if \<not> has_gemini then build_openrouter s
      else if \<not> has_router then Inr Gemini_client
      else and_then (build_openrouter s) (\<lambda>r. Inr (Fallback_client Gemini_client r)))"

definition build_llm_client :: "llm_settings \<Rightarrow> config_error + llm_choice" where
  "build_llm_client s =
     (if ls_provider s = ''anthropic'' then
        (if has_key (ls_anthropic_key s) then Inr Anthropic_client else Inl Missing_key)
      else if ls_provider s = ''gemini'' then build_gemini_with_fallback s
      else if ls_provider s = ''router'' then build_openrouter s
      else Inr (Stub_client (''stub-'' @ ls_model s)))"

fun metered :: "llm_choice \<Rightarrow> llm_choice" where
  "metered (Stub_client m) = Stub_client m"
| "metered c = Metered_client c"

text \<open>The singleton: built once, returned unchanged until it is reset.\<close>

definition get_llm_client ::
    "llm_settings \<Rightarrow> llm_choice option \<Rightarrow> (config_error + llm_choice) \<times> llm_choice option" where
  "get_llm_client s cached =
     (case cached of
        Some c \<Rightarrow> (Inr c, cached)
      | None \<Rightarrow>
          (case build_llm_client s of
             Inl e \<Rightarrow> (Inl e, None)
           | Inr c \<Rightarrow> (Inr (metered c), Some (metered c))))"

lemma production_client_is_metered:
  assumes "validate_llm_provider s = Inr ()" and "ls_environment s = ''production''"
    and "fst (get_llm_client s None) = Inr c"
  shows "\<exists>paid. c = Metered_client paid \<and> build_llm_client s = Inr paid"
  using assms
  by (auto simp: validate_llm_provider_def allowed_llm_providers_def get_llm_client_def
      build_llm_client_def build_gemini_with_fallback_def build_openrouter_def Let_def
      split: if_splits sum.splits)

lemma get_llm_client_is_stable:
  "fst (get_llm_client s None) = Inr c \<Longrightarrow>
     get_llm_client other (snd (get_llm_client s None)) = (Inr c, Some c)"
  by (auto simp: get_llm_client_def split: sum.splits)

text \<open>The process-wide semaphore is rebuilt when the configured cap changes; a generation number
  tells one object from the next.\<close>

record semaphore =
  sem_generation :: nat
  sem_limit :: nat

definition get_semaphore :: "cost_settings \<Rightarrow> semaphore option \<Rightarrow> semaphore" where
  "get_semaphore st cached =
     (case cached of
        None \<Rightarrow> \<lparr>sem_generation = 0, sem_limit = cost_max_concurrent st\<rparr>
      | Some s \<Rightarrow> if sem_limit s \<noteq> cost_max_concurrent st
          then \<lparr>sem_generation = sem_generation s + 1, sem_limit = cost_max_concurrent st\<rparr> else s)"

lemma get_semaphore_limit [simp]: "sem_limit (get_semaphore st c) = cost_max_concurrent st"
  by (simp add: get_semaphore_def split: option.splits)

lemma get_semaphore_same [simp]: "get_semaphore st (Some (get_semaphore st c)) = get_semaphore st c"
  by (simp add: get_semaphore_def split: option.splits)

end
