(* ===== verification/Citations.thy ===== *)
theory Citations
  imports Prelude
begin

text \<open>
  The citation validator of \<open>app/llm/validation.py\<close>: which parts of an answer are markdown code, the
  markers outside it, the splitting of grouped markers and the validation itself. The regular
  expressions are written as the deterministic matchers they denote; a search that leaves the rest
  of the line is a recursion on the line, since none of them matches a line break. The scan keeps
  its place in a suffix of the list of lines, so \<open>reachable[c][i + 1]\<close> is \<open>reach c\<close> of the lines
  that remain.
\<close>

section \<open>Fences\<close>

definition newline :: char where
  "newline = CHR 0x0A"

definition tick :: char where
  "tick = CHR 0x60"

definition code_mask :: char where
  "code_mask = CHR 0x00"

definition run_length :: "char \<Rightarrow> string \<Rightarrow> nat" where
  "run_length c s = length (takeWhile (\<lambda>x. x = c) s)"

definition fence_run :: "string \<Rightarrow> (char \<times> nat) option" where
  "fence_run line =
     (case strip line of
        c # body \<Rightarrow>
          if (c = tick \<or> c = CHR ''~'') \<and> take 2 body = [c, c] then Some (c, run_length c (c # body))
          else None
      | [] \<Rightarrow> None)"

text \<open>\<open>set(line.strip()) == {char}\<close>\<close>

definition bare :: "char \<Rightarrow> string \<Rightarrow> bool" where
  "bare c line \<longleftrightarrow> strip line \<noteq> [] \<and> (\<forall>x\<in>set (strip line). x = c)"

definition closes :: "string \<Rightarrow> char \<times> nat \<Rightarrow> nat \<Rightarrow> bool" where
  "closes line open_fence bare_reachable_after =
     (case fence_run line of
        None \<Rightarrow> False
      | Some (c, run) \<Rightarrow>
          if c \<noteq> fst open_fence \<or> run < snd open_fence then False
          else if bare c line then True
          else bare_reachable_after < snd open_fence)"

text \<open>The longest bare run of a character on any of the lines.\<close>

fun reach :: "char \<Rightarrow> string list \<Rightarrow> nat" where
  "reach c [] = 0"
| "reach c (line # lines) =
     (case fence_run line of
        Some (d, run) \<Rightarrow> if d = c \<and> bare d line then max (reach c lines) run else reach c lines
      | None \<Rightarrow> reach c lines)"

definition is_blank :: "char \<Rightarrow> bool" where
  "is_blank c \<longleftrightarrow> c = CHR '' '' \<or> c = CHR 0x09"

text \<open>\<open>^[ \t]*(?P<fence>`{3,}|~{3,})(?P<info>.*)$\<close>: the fence character, its length, the info.\<close>

definition fence_open :: "string \<Rightarrow> (char \<times> nat \<times> string) option" where
  "fence_open line =
     (case dropWhile is_blank line of
        [] \<Rightarrow> None
      | c # s \<Rightarrow>
          let n = run_length c (c # s) in
          if (c = tick \<or> c = CHR ''~'') \<and> n \<ge> 3 then Some (c, n, drop n (c # s)) else None)"

definition opens :: "string \<Rightarrow> string list \<Rightarrow> (char \<times> nat) option" where
  "opens line after =
     (case fence_open line of
        None \<Rightarrow> None
      | Some (c, n, info) \<Rightarrow>
          let info = strip info;
              simple = ((\<forall>x\<in>set info. \<not> py_isspace x) \<and> \<not> (c = tick \<and> tick \<in> set info))
          in if simple \<or> reach c after \<ge> n then Some (c, n) else None)"

section \<open>Inline spans\<close>

text \<open>
  A span opens with a maximal run of ticks and closes with the next maximal run of the same length;
  \<open>close_span k s\<close> is the number of characters up to and including that run.
\<close>

function close_span :: "nat \<Rightarrow> string \<Rightarrow> nat option" where
  "close_span k [] = None"
| "close_span k (c # s) =
     (if c \<noteq> tick then map_option Suc (close_span k s)
      else let n = run_length tick (c # s) in
        if n = k then Some n else map_option ((+) n) (close_span k (drop n (c # s))))"
  by pat_completeness auto
termination
  by (relation "measure (length \<circ> snd)") (auto simp: run_length_def)

definition span_length :: "string \<Rightarrow> nat option" where
  "span_length s =
     (let n = run_length tick s in
      if n = 0 then None else map_option ((+) n) (close_span n (drop n s)))"

text \<open>Replace every span by \<open>f\<close> of its length.\<close>

function sub_spans :: "(nat \<Rightarrow> string) \<Rightarrow> string \<Rightarrow> string" where
  "sub_spans f [] = []"
| "sub_spans f (c # s) =
     (if c \<noteq> tick then c # sub_spans f s
      else case span_length (c # s) of
        Some n \<Rightarrow> f n @ sub_spans f (drop (max 1 n) (c # s))
      | None \<Rightarrow>
          let n = run_length tick (c # s) in take n (c # s) @ sub_spans f (drop (max 1 n) (c # s)))"
  by pat_completeness auto
termination
  by (relation "measure (length \<circ> snd)") (auto simp: run_length_def max_def)

definition mask_code :: "nat \<Rightarrow> string" where
  "mask_code n = replicate n code_mask"

definition strip_inline :: "bool \<Rightarrow> string \<Rightarrow> string" where
  "strip_inline keep line = sub_spans (if keep then mask_code else (\<lambda>_. '' '')) line"

section \<open>Code\<close>

definition blank_line :: "bool \<Rightarrow> string \<Rightarrow> string" where
  "blank_line keep line = (if keep then mask_code (length line) else [])"

fun strip_lines :: "bool \<Rightarrow> (char \<times> nat) option \<Rightarrow> string list \<Rightarrow> string list" where
  "strip_lines keep open_fence [] = []"
| "strip_lines keep (Some fence) (line # lines) =
     blank_line keep line
       # strip_lines keep (if closes line fence (reach (fst fence) lines) then None else Some fence) lines"
| "strip_lines keep None (line # lines) =
     (case opens line lines of
        Some fence \<Rightarrow> blank_line keep line # strip_lines keep (Some fence) lines
      | None \<Rightarrow> strip_inline keep line # strip_lines keep None lines)"

definition strip_code :: "bool \<Rightarrow> string \<Rightarrow> string" where
  "strip_code keep s = join_on newline (strip_lines keep None (split_on newline s))"

section \<open>Markers\<close>

text \<open>\<open>re.findall(r"\[(\d+)\]", s)\<close>\<close>

fun find_markers :: "string \<Rightarrow> string list" where
  "find_markers [] = []"
| "find_markers (c # s) =
     (let d = takeWhile is_digit s in
      if c = CHR ''['' \<and> d \<noteq> [] \<and> take 1 (drop (length d) s) = '']'' then d # find_markers s
      else find_markers s)"

definition cited_markers :: "string \<Rightarrow> string list" where
  "cited_markers s =
     (let found = find_markers (strip_code False s) in if found \<noteq> [] then found else find_markers s)"

section \<open>Grouped markers\<close>

text \<open>
  \<open>(?:[ \t]*,[ \t]*[0-9]+)*\]\<close>: the further numbers and the characters taken; then the whole group
  with at least one comma.
\<close>

function group_tail :: "string \<Rightarrow> (string list \<times> nat) option" where
  "group_tail s =
     (if take 1 s = '']'' then Some ([], 1)
      else let a = length (takeWhile is_blank s); s1 = drop a s in
        if take 1 s1 \<noteq> '','' then None
        else let s2 = drop 1 s1; b = length (takeWhile is_blank s2); s3 = drop b s2;
                 d = takeWhile is_digit s3 in
          if d = [] then None
          else map_option (\<lambda>(ds, n). (d # ds, a + 1 + b + length d + n)) (group_tail (drop (length d) s3)))"
  by pat_completeness auto
termination
proof (relation "measure length", simp, goal_cases)
  case (1 s a s1 s2 b s3 d)
  have "s1 \<noteq> []"
    using 1(4) by auto
  then have "a < length s"
    using 1(3) by simp
  moreover have "length (drop (length d) s3) \<le> length s - a - 1"
    using 1(3,5,7) by simp
  ultimately show ?case by simp
qed

declare group_tail.simps [simp del]

definition group_at :: "string \<Rightarrow> (string list \<times> nat) option" where
  "group_at s =
     (case s of
        [] \<Rightarrow> None
      | c # t \<Rightarrow>
          let d = takeWhile is_digit t in
          if c \<noteq> CHR ''['' \<or> d = [] then None
          else (case group_tail (drop (length d) t) of
                  Some (ds, n) \<Rightarrow> if ds = [] then None else Some (d # ds, 1 + length d + n)
                | None \<Rightarrow> None))"

definition show_markers :: "string list \<Rightarrow> string" where
  "show_markers ds = concat (map (\<lambda>d. ''['' @ d @ '']'') ds)"

text \<open>One line and its masked copy. The groups are found in the copy.\<close>

function expand_line :: "string \<Rightarrow> string \<Rightarrow> string" where
  "expand_line [] masked = []"
| "expand_line (c # line) masked =
     (case group_at masked of
        Some (ds, n) \<Rightarrow> show_markers ds @ expand_line (drop (max 1 n) (c # line)) (drop (max 1 n) masked)
      | None \<Rightarrow> c # expand_line line (drop 1 masked))"
  by pat_completeness auto
termination
  by (relation "measure (length \<circ> fst)") auto

definition expand_one :: "string \<Rightarrow> string \<Rightarrow> string" where
  "expand_one line masked = (if fence_run line \<noteq> None then line else expand_line line masked)"

definition expand_grouped_markers :: "string \<Rightarrow> string" where
  "expand_grouped_markers s =
     (let lines = split_on newline s in
      join_on newline (map2 expand_one lines (strip_lines True None lines)))"

section \<open>Validation\<close>

definition no_answer_refusal :: string where
  "no_answer_refusal = ''I do not have credible source material in this assistant to answer that.''"

definition no_answer_substring :: string where
  "no_answer_substring = ''do not have credible source material''"

definition is_no_answer_refusal :: "string \<Rightarrow> bool" where
  "is_no_answer_refusal s \<longleftrightarrow>
     strip s = no_answer_refusal \<or> sublist no_answer_substring (lower (strip s))"

record citation_result =
  cr_valid :: bool
  cr_cited :: "nat list"
  cr_singly :: "nat list"
  cr_uncited :: "nat list"
  cr_out_of_range :: "nat list"

definition indices :: "string list \<Rightarrow> nat list" where
  "indices ms = sorted_list_of_set (set (map nat_of_digits ms))"

text \<open>\<open>cr_out_of_range\<close> is what the reason names; it is empty when there is no reason.\<close>

definition validate_citations :: "string \<Rightarrow> nat \<Rightarrow> citation_result" where
  "validate_citations answer evidence_count =
     (if is_no_answer_refusal answer
      then \<lparr>cr_valid = True, cr_cited = [], cr_singly = [], cr_uncited = [], cr_out_of_range = []\<rparr>
      else
        let cited = indices (cited_markers (expand_grouped_markers answer));
            singly = indices (cited_markers answer);
            shown = sorted_list_of_set (set cited \<union> set singly);
            out_of_range = filter (\<lambda>n. n < 1 \<or> n > evidence_count) shown
        in if out_of_range \<noteq> []
           then \<lparr>cr_valid = False, cr_cited = cited, cr_singly = singly, cr_uncited = [],
                  cr_out_of_range = out_of_range\<rparr>
           else \<lparr>cr_valid = True, cr_cited = cited, cr_singly = singly,
                  cr_uncited = filter (\<lambda>n. n \<notin> set cited) [1..<evidence_count + 1],
                  cr_out_of_range = []\<rparr>)"

section \<open>Where a marker found outside code comes from\<close>

lemma sublist_Cons_cases: "sublist w (c # s) \<longleftrightarrow> prefix w (c # s) \<or> sublist w s"
  by (auto simp: sublist_Cons_right)

lemma find_markers_iff:
  "m \<in> set (find_markers s) \<longleftrightarrow> m \<noteq> [] \<and> list_all is_digit m \<and> sublist (''['' @ m @ '']'') s"
proof (induction s)
  case Nil
  then show ?case by auto
next
  case (Cons c s)
  have brk: "takeWhile is_digit (m @ CHR '']'' # r) = m" if "list_all is_digit m" for r
    using that by (induction m) (auto simp: is_digit_def)
  have here: "(c = CHR ''['' \<and> takeWhile is_digit s \<noteq> []
        \<and> take 1 (drop (length (takeWhile is_digit s)) s) = '']'' \<and> m = takeWhile is_digit s)
      \<longleftrightarrow> m \<noteq> [] \<and> list_all is_digit m \<and> prefix (''['' @ m @ '']'') (c # s)" (is "?l \<longleftrightarrow> ?r")
  proof
    assume l: ?l
    have "drop (length (takeWhile is_digit s)) s = dropWhile is_digit s"
      by (simp add: dropWhile_eq_drop)
    then obtain r where "dropWhile is_digit s = CHR '']'' # r"
      using l by (cases "dropWhile is_digit s") auto
    then have s: "s = m @ CHR '']'' # r"
      using l takeWhile_dropWhile_id [of is_digit s] by metis
    have "prefix (''['' @ m @ '']'') (c # s)"
      using conjunct1 [OF l] by (subst s) simp
    moreover have "list_all is_digit m"
      using l set_takeWhileD unfolding list_all_iff by metis
    moreover have "m \<noteq> []" using l by simp
    ultimately show ?r by blast
  next
    assume r: ?r
    then obtain t where "s = m @ CHR '']'' # t" "c = CHR ''[''"
      by (auto simp: prefix_def)
    then show ?l using r brk by simp
  qed
  have "m \<in> set (find_markers (c # s)) \<longleftrightarrow>
      (c = CHR ''['' \<and> takeWhile is_digit s \<noteq> []
        \<and> take 1 (drop (length (takeWhile is_digit s)) s) = '']'' \<and> m = takeWhile is_digit s)
      \<or> m \<in> set (find_markers s)"
    by (auto simp: Let_def)
  then show ?case
    unfolding here Cons.IH sublist_Cons_cases by blast
qed

lemma run_length_Cons [simp]: "run_length c (c # s) = Suc (run_length c s)"
  by (simp add: run_length_def)

lemma run_length_other [simp]: "d \<noteq> c \<Longrightarrow> run_length c (d # s) = 0"
  by (simp add: run_length_def)

lemma take_run_length: "take (run_length c s) s = replicate (run_length c s) c"
  by (induction s) (auto simp: run_length_def)

lemma drop_run_length: "drop (run_length c s) s = dropWhile (\<lambda>x. x = c) s"
  by (induction s) (auto simp: run_length_def)

lemma close_span_bounds: "close_span k s = Some n \<Longrightarrow> k \<le> n \<and> n \<le> length s"
proof (induction k s arbitrary: n rule: close_span.induct)
  case (2 k c s)
  have "run_length tick (c # s) \<le> length (c # s)"
    by (simp add: run_length_def length_takeWhile_le)
  then show ?case
    using 2 by (fastforce simp: Let_def split: if_splits)
qed simp

lemma span_length_bounds: "span_length s = Some n \<Longrightarrow> 0 < n \<and> n \<le> length s"
  by (auto simp: span_length_def Let_def split: if_splits dest!: close_span_bounds)

text \<open>The ways a line goes on, for every replacement at once.\<close>

lemma sub_spans_cases:
  obtains (nil) "s = []"
  | (plain) c t where "s = c # t" "c \<noteq> tick" "\<And>f. sub_spans f s = c # sub_spans f t"
  | (unclosed) k t where "s = replicate k tick @ t" "0 < k" "k = run_length tick s" "span_length s = None"
      "\<And>f. sub_spans f s = replicate k tick @ sub_spans f t"
  | (closed) r t where "s = r @ t" "r \<noteq> []" "hd r = tick" "span_length s = Some (length r)"
      "\<And>f. sub_spans f s = f (length r) @ sub_spans f t"
proof (cases s)
  case Nil
  then show ?thesis by (rule nil)
next
  case (Cons c u)
  show ?thesis
  proof (cases "c = tick")
    case False
    then show ?thesis using plain Cons by simp
  next
    case True
    show ?thesis
    proof (cases "span_length s")
      case None
      let ?k = "run_length tick s"
      have "s = replicate ?k tick @ drop ?k s"
        by (metis append_take_drop_id take_run_length)
      moreover have "sub_spans f s = replicate ?k tick @ sub_spans f (drop ?k s)" for f
        using None True Cons take_run_length [of tick s] by (simp add: Let_def)
      ultimately show ?thesis
        using unclosed [of ?k "drop ?k s"] None True Cons by simp
    next
      case (Some n)
      note b = span_length_bounds [OF Some]
      have "s = take n s @ drop n s" "take n s \<noteq> []" "hd (take n s) = tick" "length (take n s) = n"
        using b Cons True by simp_all
      moreover have "sub_spans f s = f n @ sub_spans f (drop n s)" for f
      proof -
        have "max 1 n = n" using b by simp
        then show ?thesis using Some True Cons by (simp del: drop.simps)
      qed
      ultimately show ?thesis
        using closed [of "take n s" "drop n s"] Some by simp
    qed
  qed
qed

lemma prefix_sub_spans:
  "prefix w (sub_spans (\<lambda>_. '' '') s) \<Longrightarrow> CHR '' '' \<notin> set w \<Longrightarrow> prefix w s"
proof (induction s arbitrary: w rule: length_induct)
  case (1 s)
  note ih = 1(1) [rule_format]
  show ?case
  proof (cases rule: sub_spans_cases [of s])
    case nil
    then show ?thesis using 1(2) by simp
  next
    case (plain c t)
    then show ?thesis using 1(2,3) ih [of t] by (cases w) auto
  next
    case (unclosed k t)
    have "length t < length s"
      using unclosed(2) by (subst unclosed(1)) simp
    then show ?thesis
      using 1(2,3) ih [of t] unfolding unclosed(5) by (subst unclosed(1)) (auto simp: prefix_append)
  next
    case (closed r t)
    have "w = []"
      using 1(2,3) unfolding closed(5) by (cases w) auto
    then show ?thesis by simp
  qed
qed

lemma sublist_sub_spans:
  "sublist w (sub_spans (\<lambda>_. '' '') s) \<Longrightarrow> CHR '' '' \<notin> set w \<Longrightarrow> sublist w s"
proof (induction s rule: length_induct)
  case (1 s)
  note ih = 1(1) [rule_format]
  show ?case
  proof (cases rule: sub_spans_cases [of s])
    case nil
    then show ?thesis using 1(2) by simp
  next
    case (plain c t)
    then show ?thesis
      using 1(2,3) ih [of t] prefix_sub_spans [of w s] by (auto simp: sublist_Cons_cases)
  next
    case (unclosed k t)
    have less: "length t < length s"
      using unclosed(2) by (subst unclosed(1)) simp
    consider "sublist w (replicate k tick)" | "sublist w (sub_spans (\<lambda>_. '' '') t)"
      | u v where "w = u @ v" "suffix u (replicate k tick)" "prefix v (sub_spans (\<lambda>_. '' '') t)"
      using 1(2) unfolding unclosed(5) sublist_append by blast
    then have "sublist w (replicate k tick @ t)"
    proof cases
      case 1
      then show ?thesis by (simp add: sublist_append)
    next
      case 2
      then show ?thesis using ih [OF less] \<open>CHR '' '' \<notin> set w\<close> by (simp add: sublist_append)
    next
      case (3 u v)
      then have "prefix v t"
        using prefix_sub_spans \<open>CHR '' '' \<notin> set w\<close> by simp
      then show ?thesis
        using 3(1,2) unfolding sublist_append by blast
    qed
    then show ?thesis by (subst unclosed(1))
  next
    case (closed r t)
    have less: "length t < length s"
      using closed(2) by (subst closed(1)) simp
    have "w = [] \<or> sublist w (sub_spans (\<lambda>_. '' '') t)"
      using 1(2,3) unfolding closed(5) by (cases w) (auto simp: sublist_Cons_cases)
    then show ?thesis
      using ih [OF less] 1(3) by (subst closed(1)) (auto simp: sublist_append)
  qed
qed

lemma sublist_strip_inline:
  "sublist w (strip_inline False line) \<Longrightarrow> CHR '' '' \<notin> set w \<Longrightarrow> sublist w line"
  by (simp add: strip_inline_def sublist_sub_spans)

lemma sublist_join_on:
  "sublist w (join_on c ls) \<Longrightarrow> c \<notin> set w \<Longrightarrow> w \<noteq> [] \<Longrightarrow> \<exists>l\<in>set ls. sublist w l"
proof (induction c ls rule: join_on.induct)
  case (3 c p q ps)
  have "sublist w (p @ [c] @ join_on c (q # ps))"
    using 3(2) by simp
  then consider "sublist w p" | "sublist w (c # join_on c (q # ps))"
    | u v where "w = u @ v" "suffix u p" "prefix v (c # join_on c (q # ps))"
    by (auto simp: sublist_append)
  then show ?case
  proof cases
    case 1
    then show ?thesis by simp
  next
    case 2
    then have "prefix w (c # join_on c (q # ps)) \<or> sublist w (join_on c (q # ps))"
      by (simp add: sublist_Cons_cases)
    then show ?thesis using 3(1,3,4) by (cases w) auto
  next
    case (3 u v)
    then have "v = []" using \<open>c \<notin> set w\<close> by (cases v) auto
    then show ?thesis using 3 by (auto simp: suffix_imp_sublist)
  qed
qed auto

lemma join_on_sublist:
  "l \<in> set ls \<Longrightarrow> sublist w l \<Longrightarrow> sublist w (join_on c ls)"
proof (induction c ls rule: join_on.induct)
  case (3 c p q ps)
  have left: "sublist p (join_on c (p # q # ps))"
    by (simp add: prefix_imp_sublist)
  have right: "sublist (join_on c (q # ps)) (join_on c (p # q # ps))"
    using sublist_append_leftI [of "join_on c (q # ps)" "p @ [c]"] by simp
  show ?case
  proof (cases "l = p")
    case True
    then show ?thesis using left 3(3) sublist_order.order.trans by blast
  next
    case False
    then have "sublist w (join_on c (q # ps))" using 3 by simp
    then show ?thesis using right sublist_order.order.trans by blast
  qed
qed auto

text \<open>Every line of the result is the line blanked, or the line without its spans.\<close>

lemma strip_lines_each:
  "list_all2 (\<lambda>out line. out = blank_line keep line \<or> out = strip_inline keep line)
     (strip_lines keep fence lines) lines"
  by (induction keep fence lines rule: strip_lines.induct) (simp_all split: option.split)

lemma length_strip_lines [simp]: "length (strip_lines keep fence lines) = length lines"
  by (rule list_all2_lengthD [OF strip_lines_each])

lemma sublist_strip_code:
  assumes "sublist w (strip_code False s)" and "CHR '' '' \<notin> set w" and "newline \<notin> set w" and "w \<noteq> []"
  shows "sublist w s"
proof -
  obtain out where out: "out \<in> set (strip_lines False None (split_on newline s))" "sublist w out"
    using sublist_join_on [OF assms(1) [unfolded strip_code_def] assms(3,4)] by blast
  then obtain line where line: "line \<in> set (split_on newline s)"
    "out = blank_line False line \<or> out = strip_inline False line"
    using strip_lines_each [of False None "split_on newline s"]
    by (auto simp: list_all2_conv_all_nth in_set_conv_nth)
  have "sublist w line"
    using line(2) out(2) assms(2,4) sublist_strip_inline by (auto simp: blank_line_def)
  then show ?thesis
    using join_on_sublist [OF line(1), of w newline] by simp
qed

lemma marker_chars:
  "list_all is_digit m \<Longrightarrow> CHR '' '' \<notin> set (''['' @ m @ '']'') \<and> newline \<notin> set (''['' @ m @ '']'')"
  by (auto simp: list_all_iff is_digit_def newline_def)

lemma cited_markers_written:
  "m \<in> set (cited_markers s) \<Longrightarrow> m \<in> set (find_markers s)"
  using sublist_strip_code [of "''['' @ m @ '']''" s] marker_chars [of m]
  by (auto simp: cited_markers_def Let_def find_markers_iff split: if_splits)

lemma cited_markers_empty: "cited_markers s = [] \<longleftrightarrow> find_markers s = []"
proof
  assume "find_markers s = []"
  then have "m \<notin> set (cited_markers s)" for m
    using cited_markers_written [of m s] by auto
  then show "cited_markers s = []"
    by (metis list.set_intros(1) neq_Nil_conv)
qed (simp add: cited_markers_def Let_def split: if_splits)

section \<open>What validation says\<close>

lemma set_indices [simp]: "set (indices ms) = nat_of_digits ` set ms"
  by (simp add: indices_def)

lemma sorted_indices [simp]: "sorted (indices ms)" "distinct (indices ms)"
  by (simp_all add: indices_def)

lemma validate_cases:
  assumes "\<not> is_no_answer_refusal answer"
  shows "validate_citations answer n =
    (let cited = indices (cited_markers (expand_grouped_markers answer));
         singly = indices (cited_markers answer);
         bad = filter (\<lambda>i. i < 1 \<or> i > n) (sorted_list_of_set (set cited \<union> set singly))
     in \<lparr>cr_valid = (bad = []), cr_cited = cited, cr_singly = singly,
         cr_uncited = (if bad = [] then filter (\<lambda>i. i \<notin> set cited) [1..<n + 1] else []),
         cr_out_of_range = bad\<rparr>)"
  using assms by (simp add: validate_citations_def Let_def)

lemma validation_is_exact_parts:
  fixes answer :: string and n :: nat
  defines "r \<equiv> validate_citations answer n"
  shows "is_no_answer_refusal answer \<Longrightarrow> cr_valid r \<and> cr_cited r = [] \<and> cr_singly r = [] \<and> cr_uncited r = []"
    and "\<not> is_no_answer_refusal answer \<Longrightarrow>
           cr_valid r \<longleftrightarrow> (\<forall>i\<in>set (cr_cited r) \<union> set (cr_singly r). 1 \<le> i \<and> i \<le> n)"
    and "\<not> is_no_answer_refusal answer \<Longrightarrow> cr_valid r \<Longrightarrow>
           set (cr_cited r) \<union> set (cr_uncited r) = {1..n} \<and> set (cr_cited r) \<inter> set (cr_uncited r) = {}
           \<and> distinct (cr_cited r) \<and> distinct (cr_uncited r)"
    and "i \<in> set (cr_singly r) \<Longrightarrow>
           \<exists>m. nat_of_digits m = i \<and> m \<noteq> [] \<and> list_all is_digit m \<and> sublist (''['' @ m @ '']'') answer"
    and "\<not> is_no_answer_refusal answer \<Longrightarrow> cr_singly r = [] \<longleftrightarrow>
           \<not> (\<exists>m. m \<noteq> [] \<and> list_all is_digit m \<and> sublist (''['' @ m @ '']'') answer)"
proof -
  show "is_no_answer_refusal answer \<Longrightarrow> cr_valid r \<and> cr_cited r = [] \<and> cr_singly r = [] \<and> cr_uncited r = []"
    by (simp add: r_def validate_citations_def)
  {
    assume no: "\<not> is_no_answer_refusal answer"
    note r = r_def [unfolded validate_cases [OF no] Let_def]
    show valid: "cr_valid r \<longleftrightarrow> (\<forall>i\<in>set (cr_cited r) \<union> set (cr_singly r). 1 \<le> i \<and> i \<le> n)"
      unfolding r by (auto simp: filter_empty_conv not_less Suc_le_eq)
    show "set (cr_cited r) \<union> set (cr_uncited r) = {1..n} \<and> set (cr_cited r) \<inter> set (cr_uncited r) = {}
        \<and> distinct (cr_cited r) \<and> distinct (cr_uncited r)" if "cr_valid r"
    proof -
      have "cr_uncited r = filter (\<lambda>i. i \<notin> set (cr_cited r)) [1..<n + 1]" "distinct (cr_cited r)"
        using that unfolding r by simp_all
      moreover have "set (cr_cited r) \<subseteq> {1..n}"
        using valid that by auto
      ultimately show ?thesis by auto
    qed
    show "cr_singly r = [] \<longleftrightarrow>
        \<not> (\<exists>m. m \<noteq> [] \<and> list_all is_digit m \<and> sublist (''['' @ m @ '']'') answer)"
    proof -
      have "cr_singly r = [] \<longleftrightarrow> set (cr_singly r) = {}" by simp
      also have "\<dots> \<longleftrightarrow> cited_markers answer = []"
        unfolding r by simp
      also have "\<dots> \<longleftrightarrow> set (find_markers answer) = {}"
        by (simp add: cited_markers_empty)
      finally show ?thesis by (auto simp: find_markers_iff set_eq_iff)
    qed
  }
  assume i: "i \<in> set (cr_singly r)"
  then have "\<not> is_no_answer_refusal answer"
    by (auto simp: r_def validate_citations_def)
  then obtain m where "m \<in> set (cited_markers answer)" "nat_of_digits m = i"
    using i by (auto simp: r_def validate_cases Let_def)
  then show "\<exists>m. nat_of_digits m = i \<and> m \<noteq> [] \<and> list_all is_digit m \<and> sublist (''['' @ m @ '']'') answer"
    using cited_markers_written find_markers_iff by blast
qed

text \<open>C19: What a validated answer's citations are. An answer other than the refusal is valid exactly
  when every index it shows or counts names one of the evidence bullets; then the cited and the
  uncited bullets divide the evidence between them, with no index twice; every index that counts is
  literally written as a single marker of the answer; and an answer without a countable marker is one
  that contains no single marker at all, in code or outside it. A refusal is valid and cites nothing.\<close>
theorem validation_is_exact:
  fixes answer :: string and n :: nat
  defines "r \<equiv> validate_citations answer n"
  shows "((is_no_answer_refusal answer) \<longrightarrow> (cr_valid r \<and> cr_cited r = [] \<and> cr_singly r = [] \<and> cr_uncited r = []))
     \<and> ((\<not> is_no_answer_refusal answer) \<longrightarrow> (cr_valid r \<longleftrightarrow> (\<forall>i\<in>set (cr_cited r) \<union> set (cr_singly r). 1 \<le> i \<and> i \<le> n)))
     \<and> ((\<not> is_no_answer_refusal answer) \<longrightarrow> (cr_valid r) \<longrightarrow> (set (cr_cited r) \<union> set (cr_uncited r) = {1..n} \<and> set (cr_cited r) \<inter> set (cr_uncited r) = {}
           \<and> distinct (cr_cited r) \<and> distinct (cr_uncited r)))
     \<and> ((i \<in> set (cr_singly r)) \<longrightarrow> (\<exists>m. nat_of_digits m = i \<and> m \<noteq> [] \<and> list_all is_digit m \<and> sublist (''['' @ m @ '']'') answer))
     \<and> ((\<not> is_no_answer_refusal answer) \<longrightarrow> (cr_singly r = [] \<longleftrightarrow>
           \<not> (\<exists>m. m \<noteq> [] \<and> list_all is_digit m \<and> sublist (''['' @ m @ '']'') answer)))"
  unfolding r_def
  by (rule conjI [OF impI conjI [OF impI conjI [OF impI [OF impI] conjI [OF impI impI]]]])
    (erule validation_is_exact_parts(1) validation_is_exact_parts(2) validation_is_exact_parts(4,5)
       | erule (1) validation_is_exact_parts(3))+

definition demo_answer :: string where
  "demo_answer = ''Use it [1] but not `x[9]` as said [3, 2].''"

theorem validation_is_exact_witness:
  "set (cr_cited (validate_citations demo_answer 4)) \<union> set (cr_uncited (validate_citations demo_answer 4)) = {1..4}
   \<and> cr_singly (validate_citations demo_answer 4) = [1]"
proof -
  have "\<not> is_no_answer_refusal demo_answer" "cr_valid (validate_citations demo_answer 4)"
    "cr_singly (validate_citations demo_answer 4) = [1]"
    by code_simp+
  then show ?thesis
    using validation_is_exact [of demo_answer 4, THEN conjunct2, THEN conjunct2, THEN conjunct1] by blast
qed

section \<open>Splitting the groups changes nothing else\<close>

lemma split_on_join_on:
  "ps \<noteq> [] \<Longrightarrow> \<forall>p\<in>set ps. c \<notin> set p \<Longrightarrow> split_on c (join_on c ps) = ps"
proof (induction c ps rule: join_on.induct)
  case (2 c p)
  then have "split_on c p = [p]"
    by (induction p) auto
  then show ?case by simp
next
  case (3 c p q ps)
  then have tail: "split_on c (join_on c (q # ps)) = q # ps" by simp
  have "split_on c (p @ c # join_on c (q # ps)) = p # q # ps" if "c \<notin> set p" for p
    using that by (induction p) (auto simp: tail)
  then show ?case using 3 by simp
qed simp

text \<open>A group: its characters, and that what follows it does not matter.\<close>

lemma is_blank_ne [simp]: "\<not> is_blank (CHR ''['')" "\<not> is_blank tick" "\<not> is_blank code_mask" "\<not> is_blank newline"
  "\<not> is_blank (CHR '','')" "\<not> is_blank (CHR '']'')"
  by (simp_all add: is_blank_def tick_def code_mask_def newline_def)

lemma is_digit_ne_more [simp]: "\<not> is_digit (CHR ''['')" "\<not> is_digit tick" "\<not> is_digit code_mask"
  "\<not> is_digit newline" "\<not> is_digit (CHR '','')" "\<not> is_digit (CHR '']'')"
  by (simp_all add: is_digit_def tick_def code_mask_def newline_def)

definition group_char :: "char \<Rightarrow> bool" where
  "group_char c \<longleftrightarrow> is_digit c \<or> is_blank c \<or> c = CHR '','' \<or> c = CHR '']''"

lemma group_char_ne [simp]: "\<not> group_char (CHR ''['')" "\<not> group_char tick" "\<not> group_char code_mask"
  "\<not> group_char newline"
  by (simp_all add: group_char_def) (simp_all add: tick_def code_mask_def newline_def)

lemma takeWhile_split: "takeWhile P s = u \<Longrightarrow> s = u @ dropWhile P s"
  by auto

lemma takeWhile_stop: "list_all P u \<Longrightarrow> (\<And>x. x \<in> set (take 1 v) \<Longrightarrow> \<not> P x) \<Longrightarrow> takeWhile P (u @ v) = u"
  by (induction u) (cases v, auto)+

text \<open>The shape \<open>group_tail\<close> accepts, as a relation on the characters it takes.\<close>

inductive tail_of :: "string \<Rightarrow> string list \<Rightarrow> bool" where
  tail_close: "tail_of '']'' []"
| tail_more: "list_all is_blank u \<Longrightarrow> list_all is_blank v \<Longrightarrow> list_all is_digit d \<Longrightarrow> d \<noteq> [] \<Longrightarrow> tail_of g ds
    \<Longrightarrow> tail_of (u @ CHR '','' # v @ d @ g) (d # ds)"

lemma tail_of_head:
  assumes "tail_of g ds"
  shows "\<exists>c t. g = c # t \<and> \<not> is_digit c \<and> group_char c"
  using assms
proof (cases rule: tail_of.cases)
  case (tail_more u v d g ds)
  then show ?thesis
    by (cases u) (auto simp: group_char_def is_digit_def is_blank_def)
qed (simp add: group_char_def)

lemma tail_of_chars: "tail_of g ds \<Longrightarrow> list_all group_char g"
  by (induction rule: tail_of.induct) (auto simp: group_char_def list_all_iff)

lemma tail_of_digits: "tail_of g ds \<Longrightarrow> \<forall>d\<in>set ds. d \<noteq> [] \<and> list_all is_digit d"
  by (induction rule: tail_of.induct) auto

lemma digit_not_blank: "is_digit x \<Longrightarrow> \<not> is_blank x"
  by (auto simp: is_digit_def is_blank_def)

lemma group_tail_cases:
  assumes "group_tail s = Some (ds, n)"
  obtains (close) r where "s = CHR '']'' # r" "ds = []" "n = 1"
  | (more) u v d s' ds' n' where "s = u @ CHR '','' # v @ d @ s'" "list_all is_blank u" "list_all is_blank v"
      "list_all is_digit d" "d \<noteq> []" "group_tail s' = Some (ds', n')" "ds = d # ds'"
      "n = length u + 1 + length v + length d + n'"
proof (cases "take 1 s = '']''")
  case True
  moreover obtain r where "s = CHR '']'' # r"
    using True by (cases s) auto
  moreover have "ds = [] \<and> n = 1"
    using assms True by (subst (asm) group_tail.simps) simp
  ultimately show ?thesis using close by blast
next
  case False
  define u where "u = takeWhile is_blank s"
  define s1 where "s1 = drop (length u) s"
  define s2 where "s2 = drop 1 s1"
  define v where "v = takeWhile is_blank s2"
  define s3 where "s3 = drop (length v) s2"
  define d where "d = takeWhile is_digit s3"
  note defs = u_def s1_def s2_def v_def s3_def d_def
  have eq: "group_tail s = (if take 1 s1 \<noteq> '','' then None else if d = [] then None
      else map_option (\<lambda>(ds, n). (d # ds, length u + 1 + length v + length d + n))
        (group_tail (drop (length d) s3)))"
    unfolding defs using False by (subst group_tail.simps) (simp add: Let_def)
  have comma: "take 1 s1 = '',''" and d: "d \<noteq> []"
    using assms unfolding eq by (simp_all split: if_splits)
  obtain ds' n' where rec: "group_tail (drop (length d) s3) = Some (ds', n')" "ds = d # ds'"
    "n = length u + 1 + length v + length d + n'"
    using assms comma d unfolding eq by auto
  have "s = u @ s1" "s2 = v @ s3" "s3 = d @ drop (length d) s3"
    unfolding s1_def s3_def u_def v_def d_def by (metis append_take_drop_id takeWhile_eq_take)+
  moreover have "s1 = CHR '','' # s2"
    using comma unfolding s2_def by (cases s1) auto
  ultimately have "s = u @ CHR '','' # v @ d @ drop (length d) s3"
    by metis
  moreover have "list_all is_blank u" "list_all is_blank v" "list_all is_digit d"
    unfolding u_def v_def d_def list_all_iff by (auto dest: set_takeWhileD)
  ultimately show ?thesis using more rec d by blast
qed

lemma group_tail_sound:
  "group_tail s = Some (ds, n) \<Longrightarrow> \<exists>g r. s = g @ r \<and> length g = n \<and> tail_of g ds"
proof (induction s arbitrary: ds n rule: length_induct)
  case (1 s)
  from 1(2) show ?case
  proof (cases rule: group_tail_cases)
    case (close r)
    then show ?thesis using tail_close by (intro exI [of _ "'']''"] exI [of _ r]) simp
  next
    case (more u v d s' ds' n')
    have "length s' < length s" using more(1) by simp
    then obtain g r where "s' = g @ r" "length g = n'" "tail_of g ds'"
      using 1(1) more(6) by blast
    then show ?thesis
      using more tail_more [OF more(2-5), of g ds']
      by (intro exI [of _ "u @ CHR '','' # v @ d @ g"] exI [of _ r]) simp
  qed
qed

lemma group_tail_complete: "tail_of g ds \<Longrightarrow> group_tail (g @ r) = Some (ds, length g)"
proof (induction rule: tail_of.induct)
  case tail_close
  then show ?case by (subst group_tail.simps) simp
next
  case (tail_more u v d g ds)
  obtain c t where ct: "g = c # t" "\<not> is_digit c"
    using tail_of_head [OF tail_more(5)] by blast
  have u: "takeWhile is_blank (u @ CHR '','' # v @ d @ g @ r) = u"
    using tail_more(1) by (intro takeWhile_stop) auto
  have v: "takeWhile is_blank (v @ d @ g @ r) = v"
  proof -
    obtain x d' where "d = x # d'" using tail_more(4) by (cases d) auto
    then show ?thesis
      using tail_more(2,3) digit_not_blank by (intro takeWhile_stop) auto
  qed
  have d: "takeWhile is_digit (d @ g @ r) = d"
    using tail_more(3) ct by (intro takeWhile_stop) auto
  have "take 1 (u @ CHR '','' # v @ d @ g @ r) \<noteq> '']''"
    using tail_more(1) by (cases u) (auto simp: is_blank_def)
  then show ?case
    using u v d tail_more(4,6) by (subst group_tail.simps) (simp add: Let_def)
qed

definition is_group :: "string \<Rightarrow> string list \<Rightarrow> bool" where
  "is_group g ds \<longleftrightarrow> (\<exists>d h ds'. g = CHR ''['' # d @ h \<and> d \<noteq> [] \<and> list_all is_digit d \<and> tail_of h ds'
     \<and> ds' \<noteq> [] \<and> ds = d # ds')"

lemma group_at_complete:
  assumes "is_group g ds"
  shows "group_at (g @ r) = Some (ds, length g)"
proof -
  obtain d h ds' where g: "g = CHR ''['' # d @ h" "d \<noteq> []" "list_all is_digit d" "tail_of h ds'"
    "ds' \<noteq> []" "ds = d # ds'"
    using assms by (auto simp: is_group_def)
  obtain c t where "h = c # t" "\<not> is_digit c"
    using tail_of_head [OF g(4)] by blast
  then have "takeWhile is_digit (d @ h @ r) = d"
    using g(3) by (intro takeWhile_stop) auto
  then show ?thesis
    using g group_tail_complete [OF g(4)] by (simp add: group_at_def Let_def)
qed

lemma group_at_sound:
  assumes "group_at s = Some (ds, n)"
  shows "\<exists>g r. s = g @ r \<and> length g = n \<and> is_group g ds"
proof -
  obtain t where t: "s = CHR ''['' # t"
    using assms by (auto simp: group_at_def Let_def split: list.splits if_splits)
  define d where "d = takeWhile is_digit t"
  obtain ds' n' where r: "d \<noteq> []" "group_tail (drop (length d) t) = Some (ds', n')" "ds' \<noteq> []"
    "ds = d # ds'" "n = 1 + length d + n'"
    using assms unfolding t by (auto simp: group_at_def Let_def d_def split: option.splits if_splits)
  obtain h x where h: "drop (length d) t = h @ x" "length h = n'" "tail_of h ds'"
    using group_tail_sound [OF r(2)] by blast
  have "t = d @ drop (length d) t"
    unfolding d_def by (metis append_take_drop_id takeWhile_eq_take)
  then have "s = (CHR ''['' # d @ h) @ x"
    using t h(1) by simp
  moreover have "is_group (CHR ''['' # d @ h) ds"
    unfolding is_group_def using r h(3)
    by (intro exI [of _ d] exI [of _ h] exI [of _ ds']) (auto simp: d_def list_all_iff dest: set_takeWhileD)
  ultimately show ?thesis
    using r(5) h(2) by (intro exI [of _ "CHR ''['' # d @ h"] exI [of _ x]) simp
qed

lemma is_group_head: "is_group g ds \<Longrightarrow> \<exists>t. g = CHR ''['' # t \<and> list_all group_char t"
proof -
  assume "is_group g ds"
  then obtain d h ds' where g: "g = CHR ''['' # d @ h" "list_all is_digit d" "tail_of h ds'"
    by (auto simp: is_group_def)
  have "list_all group_char (d @ h)"
    using g(2) tail_of_chars [OF g(3)] by (auto simp: list_all_iff group_char_def)
  then show ?thesis using g(1) by blast
qed

lemma group_at_head: "group_at s = Some p \<Longrightarrow> \<exists>t. s = CHR ''['' # t"
  by (auto simp: group_at_def Let_def split: list.splits if_splits)

lemma group_at_other [simp]: "c \<noteq> CHR ''['' \<Longrightarrow> group_at (c # s) = None"
  by (simp add: group_at_def Let_def)

lemma group_at_Nil [simp]: "group_at [] = None"
  by (simp add: group_at_def)

lemma show_markers_head:
  "is_group g ds \<Longrightarrow> \<exists>t. show_markers ds = CHR ''['' # t"
  by (auto simp: is_group_def show_markers_def)

lemma show_markers_chars:
  "is_group g ds \<Longrightarrow> c \<in> set (show_markers ds) \<Longrightarrow> c = CHR ''['' \<or> group_char c"
  by (auto simp: is_group_def show_markers_def list_all_iff group_char_def dest!: tail_of_digits)

text \<open>The ways a line goes on under the replacement.\<close>

lemma expand_line_cases:
  assumes "length m = length l"
  obtains (nil) "l = []" "m = []"
  | (char) c l' d m' where "l = c # l'" "m = d # m'" "group_at m = None" "length m' = length l'"
      "expand_line l m = c # expand_line l' m'"
  | (group) g ds m' u l' where "m = g @ m'" "is_group g ds" "l = u @ l'" "length u = length g"
      "length m' = length l'" "g \<noteq> []" "expand_line l m = show_markers ds @ expand_line l' m'"
proof (cases "group_at m")
  case None
  show ?thesis
  proof (cases l)
    case Nil
    then show ?thesis using nil assms by simp
  next
    case (Cons c l')
    then obtain d m' where m: "m = d # m'"
      using assms by (cases m) auto
    then show ?thesis
      using char [of c l' d m'] Cons None assms by simp
  qed
next
  case (Some p)
  obtain ds n where p: "p = (ds, n)" by force
  obtain g m' where g: "m = g @ m'" "length g = n" "is_group g ds"
    using group_at_sound Some p by blast
  then have ne: "g \<noteq> []" using is_group_head by fastforce
  have "l \<noteq> []" using assms g ne by auto
  then obtain c l'' where l: "l = c # l''" by (cases l) auto
  have "max 1 n = n" using g(2) ne by (cases g) auto
  then have "expand_line l m = show_markers ds @ expand_line (drop n l) (drop n m)"
    using Some p l by simp
  moreover have "l = take n l @ drop n l" "length (take n l) = length g"
    using assms g by simp_all
  moreover have "drop n m = m'" using g by simp
  moreover have "length m' = length (drop n l)" using assms g by simp
  ultimately show ?thesis
    using group [of g m' ds "take n l" "drop n l"] g(1,3) ne by simp
qed

definition is_mask :: "string \<Rightarrow> string \<Rightarrow> bool" where
  "is_mask m l \<longleftrightarrow> list_all2 (\<lambda>x c. x = c \<or> x = code_mask) m l"

lemma is_mask_length: "is_mask m l \<Longrightarrow> length m = length l"
  by (auto simp: is_mask_def dest: list_all2_lengthD)

lemma is_mask_same: "is_mask (u @ m) (v @ l) \<Longrightarrow> length u = length v \<Longrightarrow> code_mask \<notin> set u \<Longrightarrow> u = v \<and> is_mask m l"
proof (induction u arbitrary: v)
  case (Cons x u)
  then show ?case by (cases v) (auto simp: is_mask_def)
qed (simp add: is_mask_def)

lemma is_mask_refl [simp]: "is_mask m m"
  by (induction m) (auto simp: is_mask_def)

lemma is_mask_blank [simp]: "is_mask (mask_code (length l)) l"
  by (induction l) (auto simp: is_mask_def mask_code_def)

lemma is_mask_append: "is_mask m l \<Longrightarrow> is_mask m' l' \<Longrightarrow> is_mask (m @ m') (l @ l')"
  unfolding is_mask_def by (rule list_all2_appendI)

lemma is_mask_sub_spans [simp]: "is_mask (sub_spans mask_code l) l"
proof (induction l rule: length_induct)
  case (1 l)
  note ih = 1 [rule_format]
  show ?case
  proof (cases rule: sub_spans_cases [of l])
    case nil
    then show ?thesis by (simp add: is_mask_def)
  next
    case (plain c t)
    then show ?thesis using ih [of t] by (simp add: is_mask_def)
  next
    case (unclosed k t)
    have "length t < length l"
      using unclosed(2) by (subst unclosed(1)) simp
    then show ?thesis
      using ih [of t] unfolding unclosed(5) by (subst unclosed(1)) (simp add: is_mask_append)
  next
    case (closed r t)
    have "length t < length l"
      using closed(2) by (subst closed(1)) simp
    then show ?thesis
      using ih [of t] unfolding closed(5) by (subst closed(1)) (simp add: is_mask_append)
  qed
qed

lemma group_no_mask: "is_group g ds \<Longrightarrow> code_mask \<notin> set g \<and> tick \<notin> set g"
proof -
  assume "is_group g ds"
  then obtain t where "g = CHR ''['' # t" "list_all group_char t"
    using is_group_head by blast
  moreover have "code_mask \<noteq> CHR ''[''" "tick \<noteq> CHR ''[''"
    by (simp_all add: code_mask_def tick_def)
  ultimately show ?thesis
    using group_char_ne by (auto simp: list_all_iff)
qed

lemma tick_ne [simp]: "tick \<noteq> CHR ''[''" "code_mask \<noteq> CHR ''[''" "CHR ''['' \<noteq> tick" "CHR ''['' \<noteq> code_mask"
  by (simp_all add: tick_def code_mask_def)

text \<open>Spans are a matter of the tick runs, which the replacement does not touch.\<close>

function tick_runs :: "string \<Rightarrow> nat list" where
  "tick_runs [] = []"
| "tick_runs (c # s) =
     (if c \<noteq> tick then tick_runs s
      else run_length tick (c # s) # tick_runs (drop (run_length tick (c # s)) (c # s)))"
  by pat_completeness auto
termination
  by (relation "measure length") auto

definition no_tick_head :: "string \<Rightarrow> bool" where
  "no_tick_head s \<longleftrightarrow> (\<forall>t. s \<noteq> tick # t)"

lemma no_tick_head_simps [simp]: "no_tick_head []" "no_tick_head (c # s) \<longleftrightarrow> c \<noteq> tick"
  by (auto simp: no_tick_head_def)

lemma no_tick_head_drop: "no_tick_head (drop (run_length tick s) s)"
  by (induction s) (auto simp: run_length_def)

lemma run_length_append: "no_tick_head x \<Longrightarrow> run_length tick (r @ x) = run_length tick r"
  by (induction r) (cases x, auto simp: run_length_def)+

lemma run_length_replicate [simp]: "no_tick_head x \<Longrightarrow> run_length tick (replicate k tick @ x) = k"
  by (induction k) (cases x, auto simp: run_length_def)+

lemma close_span_None_iff: "close_span k s = None \<longleftrightarrow> k \<notin> set (tick_runs s)"
  by (induction k s rule: close_span.induct) (auto simp: Let_def)

lemma tick_runs_append: "no_tick_head x \<Longrightarrow> tick_runs (r @ x) = tick_runs r @ tick_runs x"
proof (induction r rule: tick_runs.induct)
  case (2 c s)
  show ?case
  proof (cases "c = tick")
    case False
    then show ?thesis using 2 by simp
  next
    case True
    let ?n = "run_length tick (c # s)"
    have n: "run_length tick (c # s @ x) = ?n"
      using run_length_append [OF 2(3), of "c # s"] by simp
    have "?n \<le> length (c # s)"
      by (simp add: run_length_def length_takeWhile_le)
    then have "drop ?n (c # s @ x) = drop ?n (c # s) @ x"
      by (metis append_Cons diff_is_0_eq drop_0 drop_append)
    then show ?thesis
      using 2(2) [OF _ 2(3)] True n by (simp del: run_length_Cons)
  qed
qed simp

lemma tick_runs_free: "tick \<notin> set u \<Longrightarrow> tick_runs (u @ v) = tick_runs v"
  by (induction u) auto

lemma close_span_split:
  "close_span k s = Some n \<Longrightarrow> 0 < k \<Longrightarrow> \<exists>r t. s = r @ t \<and> length r = n \<and> no_tick_head t
     \<and> (\<forall>x. no_tick_head x \<longrightarrow> close_span k (r @ x) = Some n)"
proof (induction k s arbitrary: n rule: close_span.induct)
  case (2 k c s)
  show ?case
  proof (cases "c = tick")
    case False
    then obtain m where m: "close_span k s = Some m" "n = Suc m"
      using 2(3) by auto
    then obtain r t where "s = r @ t" "length r = m" "no_tick_head t"
      "\<forall>x. no_tick_head x \<longrightarrow> close_span k (r @ x) = Some m"
      using 2(1) [OF False m(1) 2(4)] by blast
    then show ?thesis
      using False m(2) by (intro exI [of _ "c # r"] exI [of _ t]) simp
  next
    case True
    let ?j = "run_length tick (c # s)"
    have s: "c # s = replicate ?j tick @ drop ?j (c # s)"
      by (metis append_take_drop_id take_run_length)
    have j: "0 < ?j" using True by simp
    have step: "close_span k (replicate ?j tick @ y) =
        (if ?j = k then Some ?j else map_option ((+) ?j) (close_span k y))" if "no_tick_head y" for y
    proof -
      obtain i where i: "?j = Suc i" using j by (cases ?j) auto
      have "run_length tick (tick # replicate i tick @ y) = ?j"
        using run_length_replicate [OF that, of ?j] i by simp
      moreover have "drop ?j (tick # replicate i tick @ y) = y"
        using i by simp
      ultimately show ?thesis
        unfolding i by (simp add: Let_def)
    qed
    show ?thesis
    proof (cases "?j = k")
      case eq: True
      have "n = ?j"
        using 2(3) True eq by (simp add: Let_def)
      then show ?thesis
        using s step eq no_tick_head_drop [of "c # s"]
        by (intro exI [of _ "replicate ?j tick"] exI [of _ "drop ?j (c # s)"]) simp
    next
      case ne: False
      obtain m where m: "close_span k (drop ?j (c # s)) = Some m" "n = ?j + m"
        using 2(3) True ne by (auto simp: Let_def)
      obtain r t where r: "drop ?j (c # s) = r @ t" "length r = m" "no_tick_head t"
        "\<forall>x. no_tick_head x \<longrightarrow> close_span k (r @ x) = Some m"
        using 2(2) [OF _ refl ne m(1) 2(4)] True by blast
      have "r \<noteq> []"
        using close_span_bounds [OF m(1)] 2(4) r(2) by auto
      then have head: "no_tick_head (r @ x)" for x
        using no_tick_head_drop [of "c # s"] r(1) by (cases r) auto
      have "c # s = (replicate ?j tick @ r) @ t"
        using s r(1) by simp
      moreover have "close_span k ((replicate ?j tick @ r) @ x) = Some n" if "no_tick_head x" for x
        using step [OF head, of x] r(4) that ne m(2) by simp
      ultimately show ?thesis
        using r(2,3) m(2) by (intro exI [of _ "replicate ?j tick @ r"] exI [of _ t]) simp
    qed
  qed
qed simp

lemma span_length_append:
  assumes "span_length (r @ t) = Some (length r)" and "no_tick_head x"
  shows "no_tick_head t" and "span_length (r @ x) = Some (length r)"
proof -
  let ?k = "run_length tick (r @ t)"
  have k: "0 < ?k" "close_span ?k (drop ?k (r @ t)) = Some (length r - ?k)" "?k \<le> length r"
    using assms(1) by (auto simp: span_length_def Let_def split: if_splits)
  obtain q u where q: "drop ?k (r @ t) = q @ u" "length q = length r - ?k" "no_tick_head u"
    "\<forall>y. no_tick_head y \<longrightarrow> close_span ?k (q @ y) = Some (length r - ?k)"
    using close_span_split [OF k(2,1)] by blast
  have "drop ?k r @ t = q @ u"
    using q(1) k(3) by simp
  then have qu: "q = drop ?k r" "u = t"
    using q(2) by (metis append_eq_append_conv length_drop)+
  show "no_tick_head t" using q(3) qu by simp
  have r: "r = replicate ?k tick @ drop ?k r"
    using take_run_length [of tick "r @ t"] k(3) by (metis append_take_drop_id diff_is_0_eq take_append take_0 append_Nil2)
  have "drop ?k r \<noteq> []"
    using close_span_bounds [OF k(2)] k(1) qu(1) q(2) by auto
  then have "no_tick_head (drop ?k r @ x)"
    using no_tick_head_drop [of "r @ t"] k(3) by (cases "drop ?k r") auto
  then have "run_length tick (r @ x) = ?k"
    by (subst r) simp
  moreover have "drop ?k (r @ x) = q @ x"
    using qu(1) k(3) by simp
  ultimately show "span_length (r @ x) = Some (length r)"
    using q(4) assms(2) k(1,3) by (simp add: span_length_def Let_def)
qed

lemma sub_spans_closed:
  assumes "span_length (r @ x) = Some (length r)" and "hd r = tick" and "r \<noteq> []"
  shows "sub_spans f (r @ x) = f (length r) @ sub_spans f x"
proof -
  obtain s where "r = tick # s" using assms(2,3) by (cases r) auto
  moreover have "max 1 (length r) = length r" using assms(3) by (cases r) auto
  ultimately show ?thesis using assms(1) by (simp del: drop.simps)
qed

lemma sub_spans_unclosed:
  assumes "span_length (replicate k tick @ x) = None" and "0 < k" and "no_tick_head x"
  shows "sub_spans f (replicate k tick @ x) = replicate k tick @ sub_spans f x"
proof -
  obtain i where i: "k = Suc i" using assms(2) by (cases k) auto
  have "run_length tick (tick # replicate i tick @ x) = k"
    using run_length_replicate [OF assms(3), of k] i by simp
  then show ?thesis
    using assms(1) i by (simp add: Let_def)
qed

lemma sub_spans_free: "tick \<notin> set u \<Longrightarrow> sub_spans f (u @ v) = u @ sub_spans f v"
  by (induction u) auto

text \<open>The replacement and the masking commute, and the replacement leaves no group.\<close>

lemma expand_line_prefix:
  "is_mask m l \<Longrightarrow> takeWhile (\<lambda>c. c \<noteq> CHR ''['') (expand_line l m) = takeWhile (\<lambda>c. c \<noteq> CHR ''['') l"
proof (induction l arbitrary: m rule: length_induct)
  case (1 l)
  note ih = 1(1) [rule_format]
  from is_mask_length [OF 1(2)] show ?case
  proof (cases rule: expand_line_cases)
    case nil
    then show ?thesis by simp
  next
    case (char c l' d m')
    have "is_mask m' l'" using 1(2) char by (simp add: is_mask_def)
    then show ?thesis using ih [of l' m'] char by simp
  next
    case (group g ds m' u l')
    then have "g = u" using is_mask_same [of g m' u l'] 1(2) group_no_mask by simp
    then show ?thesis
      using group(1,3,7) is_group_head [OF group(2)] show_markers_head [OF group(2)] by auto
  qed
qed

lemma expand_line_no_tick_head:
  "is_mask m l \<Longrightarrow> no_tick_head (expand_line l m) \<longleftrightarrow> no_tick_head l"
proof -
  assume m: "is_mask m l"
  have "no_tick_head s \<longleftrightarrow> no_tick_head (takeWhile (\<lambda>c. c \<noteq> CHR ''['') s)" for s
    by (cases s) (auto simp: tick_def)
  then show ?thesis using expand_line_prefix [OF m] by metis
qed

lemma expand_line_masked:
  assumes "length u = length v" and "CHR ''['' \<notin> set v"
  shows "expand_line (u @ l) (v @ m) = u @ expand_line l m"
  using assms
proof (induction u arbitrary: v)
  case (Cons c u)
  then obtain d v' where "v = d # v'" by (cases v) auto
  then show ?case using Cons by auto
qed simp

lemma mask_no_bracket [simp]: "CHR ''['' \<notin> set (mask_code n)" "CHR ''['' \<notin> set (replicate n tick)"
  by (simp_all add: mask_code_def)

lemma length_mask_code [simp]: "length (mask_code n) = n"
  by (simp add: mask_code_def)

lemma tick_not_in_markers: "is_group g ds \<Longrightarrow> tick \<notin> set (show_markers ds)"
  using show_markers_chars [of g ds tick] group_char_ne(2) tick_ne(1) by blast

lemma tick_runs_expand:
  "tick_runs (expand_line l (sub_spans mask_code l)) = tick_runs l"
proof (induction l rule: length_induct)
  case (1 l)
  note ih = 1 [rule_format]
  have len: "length (sub_spans mask_code l) = length l"
    by (simp add: is_mask_length)
  show ?case
  proof (cases rule: sub_spans_cases [of l])
    case nil
    then show ?thesis by simp
  next
    case (plain c t)
    from len show ?thesis
    proof (cases rule: expand_line_cases)
      case nil
      then show ?thesis by simp
    next
      case (char c l' d m')
      then have "m' = sub_spans mask_code l'" using plain by simp
      then show ?thesis using char plain ih [of l'] by simp
    next
      case (group g ds m' u l')
      have "is_mask (g @ m') (u @ l')"
        using is_mask_sub_spans [of l] group(1,3) by metis
      then have g: "g = u" "is_mask m' l'"
        using is_mask_same [of g m' u l'] group(4) group_no_mask [OF group(2)] by simp_all
      have "m' = sub_spans mask_code l'"
        using group(1,3) sub_spans_free [of g mask_code l'] group_no_mask [OF group(2)] g(1) by simp
      moreover have "tick \<notin> set (show_markers ds)"
        by (rule tick_not_in_markers [OF group(2)])
      moreover have "length l' < length l" using group(3,4,6) by simp
      ultimately show ?thesis
        using ih [of l'] group(3,7) g(1) tick_runs_free group_no_mask [OF group(2)] by simp
    qed
  next
    case (unclosed k t)
    have less: "length t < length l"
      using unclosed(2) by (subst unclosed(1)) simp
    have t: "no_tick_head t"
      using no_tick_head_drop [of l] unclosed(1,3) by (metis append_eq_conv_conj length_replicate)
    have e: "expand_line l (sub_spans mask_code l) = replicate k tick @ expand_line t (sub_spans mask_code t)"
      unfolding unclosed(5) by (subst unclosed(1)) (simp add: expand_line_masked)
    show ?thesis
      unfolding e arg_cong [OF unclosed(1), of tick_runs]
      by (simp add: tick_runs_append t expand_line_no_tick_head ih [OF less])
  next
    case (closed r t)
    have less: "length t < length l"
      using closed(2) by (subst closed(1)) simp
    have t: "no_tick_head t"
      using span_length_append(1) [of r t "[]"] closed(1,4) by simp
    have e: "expand_line l (sub_spans mask_code l) = r @ expand_line t (sub_spans mask_code t)"
      unfolding closed(5) by (subst closed(1)) (simp add: expand_line_masked)
    show ?thesis
      unfolding e arg_cong [OF closed(1), of tick_runs]
      by (simp add: tick_runs_append t expand_line_no_tick_head ih [OF less])
  qed
qed

lemma span_length_expand:
  assumes "span_length (replicate k tick @ t) = None" and "0 < k" and "no_tick_head t"
  shows "span_length (replicate k tick @ expand_line t (sub_spans mask_code t)) = None"
proof -
  let ?e = "expand_line t (sub_spans mask_code t)"
  have "no_tick_head ?e"
    using assms(3) by (simp add: expand_line_no_tick_head)
  then have "run_length tick (replicate k tick @ ?e) = k" "drop k (replicate k tick @ ?e) = ?e"
    by simp_all
  moreover have "close_span k t = None"
    using assms run_length_replicate [OF assms(3), of k] by (simp add: span_length_def Let_def)
  ultimately show ?thesis
    using assms(2) by (simp add: span_length_def Let_def close_span_None_iff tick_runs_expand)
qed

lemma mask_of_expanded:
  "sub_spans mask_code (expand_line l (sub_spans mask_code l)) =
     expand_line (sub_spans mask_code l) (sub_spans mask_code l)"
proof (induction l rule: length_induct)
  case (1 l)
  note ih = 1 [rule_format]
  have len: "length (sub_spans mask_code l) = length l"
    by (simp add: is_mask_length)
  show ?case
  proof (cases rule: sub_spans_cases [of l])
    case nil
    then show ?thesis by simp
  next
    case (plain c t)
    from len show ?thesis
    proof (cases rule: expand_line_cases)
      case nil
      then show ?thesis by simp
    next
      case (char c l' d m')
      then have "m' = sub_spans mask_code l'" "c \<noteq> tick" "d = c" using plain by simp_all
      then show ?thesis using char ih [of l'] by simp
    next
      case (group g ds m' u l')
      have "is_mask (g @ m') (u @ l')"
        using is_mask_sub_spans [of l] group(1,3) by metis
      then have g: "g = u" "is_mask m' l'"
        using is_mask_same [of g m' u l'] group(4) group_no_mask [OF group(2)] by simp_all
      have m: "m' = sub_spans mask_code l'"
        using group(1,3) sub_spans_free [of g mask_code l'] group_no_mask [OF group(2)] g(1) by simp
      have less: "length l' < length l" using group(3,4,6) by simp
      have "sub_spans mask_code (expand_line l (sub_spans mask_code l)) =
          show_markers ds @ expand_line m' m'"
        unfolding group(7) m using sub_spans_free [OF tick_not_in_markers [OF group(2)]] ih [OF less] by simp
      moreover have "max 1 (length g) = length g"
        using group(6) by (cases g) auto
      then have "expand_line (g @ m') (g @ m') = show_markers ds @ expand_line m' m'"
        using group_at_complete [OF group(2), of m'] group(6) by (cases g) simp_all
      ultimately show ?thesis using group(1) by simp
    qed
  next
    case (unclosed k t)
    have less: "length t < length l"
      using unclosed(2) by (subst unclosed(1)) simp
    have t: "no_tick_head t"
      using no_tick_head_drop [of l] unclosed(1,3) by (metis append_eq_conv_conj length_replicate)
    have none: "span_length (replicate k tick @ t) = None"
      using unclosed(1,4) by simp
    have "expand_line l (sub_spans mask_code l) = replicate k tick @ expand_line t (sub_spans mask_code t)"
      unfolding unclosed(5) by (subst unclosed(1)) (simp add: expand_line_masked)
    then have "sub_spans mask_code (expand_line l (sub_spans mask_code l)) =
        replicate k tick @ expand_line (sub_spans mask_code t) (sub_spans mask_code t)"
      using sub_spans_unclosed [OF span_length_expand [OF none unclosed(2) t] unclosed(2)] ih [OF less] t
      by (simp add: expand_line_no_tick_head)
    then show ?thesis
      unfolding unclosed(5) by (simp add: expand_line_masked)
  next
    case (closed r t)
    have less: "length t < length l"
      using closed(2) by (subst closed(1)) simp
    have span: "span_length (r @ t) = Some (length r)"
      using closed(1,4) by simp
    have t: "no_tick_head t"
      by (rule span_length_append(1) [OF span no_tick_head_simps(1)])
    have e: "no_tick_head (expand_line t (sub_spans mask_code t))"
      using t by (simp add: expand_line_no_tick_head)
    have "expand_line l (sub_spans mask_code l) = r @ expand_line t (sub_spans mask_code t)"
      unfolding closed(5) by (subst closed(1)) (simp add: expand_line_masked)
    then have "sub_spans mask_code (expand_line l (sub_spans mask_code l)) =
        mask_code (length r) @ expand_line (sub_spans mask_code t) (sub_spans mask_code t)"
      using sub_spans_closed [OF span_length_append(2) [OF span e] closed(3,2)] ih [OF less] by simp
    then show ?thesis
      unfolding closed(5) by (simp add: expand_line_masked)
  qed
qed

definition no_group :: "string \<Rightarrow> bool" where
  "no_group m \<longleftrightarrow> (\<forall>u v. m = u @ v \<longrightarrow> group_at v = None)"

lemma no_group_Cons: "no_group (c # m) \<longleftrightarrow> group_at (c # m) = None \<and> no_group m"
proof
  assume h: "no_group (c # m)"
  have "group_at v = None" if "m = u @ v" for u v
    using h that unfolding no_group_def by (metis append_Cons)
  then show "group_at (c # m) = None \<and> no_group m"
    using h unfolding no_group_def by (metis append_Nil)
next
  assume h: "group_at (c # m) = None \<and> no_group m"
  show "no_group (c # m)"
    unfolding no_group_def
  proof (intro allI impI)
    fix u v
    assume "c # m = u @ v"
    then show "group_at v = None"
      using h by (cases u) (auto simp: no_group_def)
  qed
qed

lemma no_group_Nil [simp]: "no_group []"
  by (simp add: no_group_def)

lemma expand_line_no_group: "no_group m \<Longrightarrow> length m = length l \<Longrightarrow> expand_line l m = l"
proof (induction l arbitrary: m)
  case (Cons c l)
  then obtain d m' where "m = d # m'" by (cases m) auto
  then show ?case using Cons by (simp add: no_group_Cons)
qed simp

lemma no_group_show: "\<forall>d\<in>set ds. d \<noteq> [] \<and> list_all is_digit d \<Longrightarrow> no_group m \<Longrightarrow> no_group (show_markers ds @ m)"
proof (induction ds)
  case (Cons d ds)
  let ?x = "show_markers ds @ m"
  have x: "no_group ?x" using Cons by simp
  have digits: "no_group (d' @ CHR '']'' # ?x)" if "list_all is_digit d'" for d'
    using that
  proof (induction d')
    case (Cons a d')
    then have "a \<noteq> CHR ''[''" using is_digit_ne_more(1) by auto
    then show ?case using Cons by (simp add: no_group_Cons)
  qed (simp add: no_group_Cons x)
  have "takeWhile is_digit (d @ CHR '']'' # ?x) = d"
    using Cons.prems(1) by (intro takeWhile_stop) auto
  then have "group_at (CHR ''['' # d @ CHR '']'' # ?x) = None"
    by (simp add: group_at_def Let_def) (subst group_tail.simps, simp)
  then show ?case
    using Cons.prems(1) digits [of d] by (simp add: show_markers_def no_group_Cons)
qed (simp add: show_markers_def)

lemma no_group_expanded: "no_group (expand_line m m)"
proof (induction m rule: length_induct)
  case (1 m)
  have "length m = length m" ..
  then show ?case
  proof (cases rule: expand_line_cases)
    case nil
    then show ?thesis by simp
  next
    case (char c l' d m')
    let ?e = "expand_line m' m'"
    have rec: "no_group ?e" using 1 char by simp
    have "group_at (c # ?e) = None"
    proof (rule ccontr)
      assume "group_at (c # ?e) \<noteq> None"
      then obtain ds n where "group_at (c # ?e) = Some (ds, n)" by auto
      then obtain g r where g: "c # ?e = g @ r" "is_group g ds"
        using group_at_sound by blast
      obtain t where t: "g = CHR ''['' # t" "list_all group_char t"
        using is_group_head [OF g(2)] by blast
      have nb: "x \<noteq> CHR ''[''" if "x \<in> set t" for x
        using t(2) that group_char_ne(1) by (auto simp: list_all_iff)
      have "?e = t @ r" using g(1) t(1) by simp
      then have "takeWhile (\<lambda>c. c \<noteq> CHR ''['') m' = t @ takeWhile (\<lambda>c. c \<noteq> CHR ''['') r"
        using expand_line_prefix [OF is_mask_refl, of m'] nb takeWhile_append2 [of t "\<lambda>c. c \<noteq> CHR ''[''" r]
        by simp
      then obtain x where "m' = t @ x"
        using takeWhile_split by (metis append_assoc)
      then have "m = g @ x" using char g(1) t(1) by simp
      then show False using char(3) group_at_complete [OF g(2), of x] by simp
    qed
    then show ?thesis using char rec by (simp add: no_group_Cons)
  next
    case (group g ds m' u l')
    then have "u = g" "l' = m'" by (simp_all add: append_eq_append_conv)
    moreover have "\<forall>d\<in>set ds. d \<noteq> [] \<and> list_all is_digit d"
      using group(2) tail_of_digits by (fastforce simp: is_group_def)
    moreover have "length m' < length m" using group(1,6) by simp
    ultimately show ?thesis
      unfolding group(7) using 1 no_group_show by blast
  qed
qed

text \<open>A line that starts no fence starts none after the replacement.\<close>

lemma lstrip_strip: "\<exists>w. lstrip s = strip s @ w"
proof -
  have "rev (lstrip s) = takeWhile py_isspace (rev (lstrip s)) @ dropWhile py_isspace (rev (lstrip s))"
    by simp
  then have "lstrip s = rev (dropWhile py_isspace (rev (lstrip s))) @ rev (takeWhile py_isspace (rev (lstrip s)))"
    by (metis rev_append rev_rev_ident)
  then show ?thesis
    unfolding strip_def lstrip_def by blast
qed

lemma strip_keeps_head: "lstrip s = c # d # e # r \<Longrightarrow> \<not> py_isspace c \<Longrightarrow> \<not> py_isspace d \<Longrightarrow> \<not> py_isspace e \<Longrightarrow>
    \<exists>r'. strip s = c # d # e # r'"
proof -
  assume h: "lstrip s = c # d # e # r" "\<not> py_isspace c" "\<not> py_isspace d" "\<not> py_isspace e"
  have "dropWhile py_isspace (rev r @ [e, d, c]) = dropWhile py_isspace (rev r) @ [e, d, c]"
    using h(2-4) by (induction "rev r" arbitrary: r) (auto simp: dropWhile_append)
  moreover have "strip s = rev (dropWhile py_isspace (rev r @ [e, d, c]))"
    unfolding strip_def h(1) by (simp add: lstrip_def)
  ultimately show ?thesis by simp
qed

lemma fence_chars_not_space: "c = tick \<or> c = CHR ''~'' \<Longrightarrow> \<not> py_isspace c"
  by (auto simp: tick_def py_isspace_def)

lemma fence_run_iff:
  "fence_run l \<noteq> None \<longleftrightarrow> (\<exists>c r. lstrip l = c # c # c # r \<and> (c = tick \<or> c = CHR ''~''))"
proof
  assume "fence_run l \<noteq> None"
  then obtain c body where b: "strip l = c # body" "c = tick \<or> c = CHR ''~''" "take 2 body = [c, c]"
    by (auto simp: fence_run_def split: list.splits if_splits)
  obtain r where "body = c # c # r"
    using b(3) by (metis append_Cons append_Nil append_take_drop_id)
  then show "\<exists>c r. lstrip l = c # c # c # r \<and> (c = tick \<or> c = CHR ''~'')"
    using lstrip_strip [of l] b(1,2) by auto
next
  assume "\<exists>c r. lstrip l = c # c # c # r \<and> (c = tick \<or> c = CHR ''~'')"
  then obtain c r where h: "lstrip l = c # c # c # r" "c = tick \<or> c = CHR ''~''" by blast
  then obtain r' where "strip l = c # c # c # r'"
    using strip_keeps_head fence_chars_not_space by metis
  then show "fence_run l \<noteq> None"
    using h(2) by (simp add: fence_run_def)
qed

lemma expand_line_fence:
  assumes "is_mask m l" and "fence_run l = None"
  shows "fence_run (expand_line l m) = None"
proof (rule ccontr)
  assume "fence_run (expand_line l m) \<noteq> None"
  then obtain c r where h: "lstrip (expand_line l m) = c # c # c # r" "c = tick \<or> c = CHR ''~''"
    unfolding fence_run_iff by blast
  let ?w = "takeWhile py_isspace (expand_line l m)"
  have e: "expand_line l m = (?w @ [c, c, c]) @ r"
    using h(1) takeWhile_dropWhile_id [of py_isspace "expand_line l m"] by (simp add: lstrip_def)
  have nb: "x \<noteq> CHR ''[''" if "x \<in> set (?w @ [c, c, c])" for x
    using that h(2) by (auto simp: py_isspace_def dest: set_takeWhileD)
  have "takeWhile (\<lambda>c. c \<noteq> CHR ''['') l = (?w @ [c, c, c]) @ takeWhile (\<lambda>c. c \<noteq> CHR ''['') r"
    using expand_line_prefix [OF assms(1)] takeWhile_append2 [of "?w @ [c, c, c]" "\<lambda>c. c \<noteq> CHR ''[''" r] nb
    by (metis e)
  then obtain x where l: "l = ?w @ c # c # c # x"
    using takeWhile_split by (metis append_assoc append_Cons append_Nil)
  have "lstrip l = c # c # c # x"
    using h(2) fence_chars_not_space unfolding lstrip_def
    by (subst l) (auto simp: dropWhile_append dest: set_takeWhileD)
  then show False using assms(2) h(2) fence_run_iff by blast
qed

lemma is_blank_space: "is_blank c \<Longrightarrow> py_isspace c"
  by (auto simp: is_blank_def py_isspace_def)

lemma fence_open_run: "fence_run l = None \<Longrightarrow> fence_open l = None"
proof (rule ccontr)
  assume none: "fence_run l = None" and "fence_open l \<noteq> None"
  then obtain c s where h: "dropWhile is_blank l = c # s" "c = tick \<or> c = CHR ''~''" "3 \<le> run_length c (c # s)"
    by (auto simp: fence_open_def Let_def split: list.splits if_splits)
  obtain k where k: "run_length c (c # s) = 3 + k"
    using le_Suc_ex h(3) by blast
  have "c # s = replicate (3 + k) c @ drop (3 + k) (c # s)"
    using take_run_length [of c "c # s"] append_take_drop_id [of "3 + k" "c # s"] unfolding k by metis
  then obtain r where "c # s = c # c # c # r"
    by (auto simp: numeral_3_eq_3)
  then have "dropWhile is_blank l = c # c # c # r"
    using h(1) by simp
  then obtain y where y: "l = y @ c # c # c # r" "\<forall>x\<in>set y. is_blank x"
    using takeWhile_dropWhile_id [of is_blank l] set_takeWhileD by metis
  have "lstrip l = dropWhile py_isspace (c # c # c # r)"
    unfolding lstrip_def y(1) using y(2) is_blank_space by (intro dropWhile_append2) blast
  then have "lstrip l = c # c # c # r"
    using h(2) fence_chars_not_space by simp
  then show False using none h(2) fence_run_iff by blast
qed

lemma expand_one_fence: "is_mask m l \<Longrightarrow> fence_run (expand_one l m) = fence_run l"
  by (cases "fence_run l") (simp_all add: expand_one_def expand_line_fence)

lemma expand_one_same: "fence_run l \<noteq> None \<Longrightarrow> expand_one l m = l"
  by (simp add: expand_one_def)

lemma reach_expand:
  "list_all2 is_mask ms lines \<Longrightarrow> reach c (map2 expand_one lines ms) = reach c lines"
proof (induction ms lines rule: list_all2_induct)
  case (Cons m ms l lines)
  then show ?case
    using expand_one_fence [OF Cons(1)] expand_one_same [of l m] by (auto split: option.splits)
qed simp

lemma strip_lines_mask: "list_all2 is_mask (strip_lines True fence lines) lines"
  using strip_lines_each [of True fence lines]
  by (rule list_all2_mono) (auto simp: blank_line_def strip_inline_def)

lemma closes_expand: "is_mask m l \<Longrightarrow> closes (expand_one l m) fence n = closes l fence n"
  using expand_one_fence [of m l] expand_one_same [of l m] by (auto simp: closes_def split: option.splits)

lemma opens_expand:
  assumes "is_mask m l" and "\<And>c. reach c after' = reach c after"
  shows "opens (expand_one l m) after' = opens l after"
proof (cases "fence_run l")
  case None
  then show ?thesis
    using expand_one_fence [OF assms(1)] fence_open_run by (simp add: opens_def)
next
  case (Some p)
  then show ?thesis
    using expand_one_same [of l m] assms(2) by (simp add: opens_def split: option.splits)
qed

definition remask :: "string \<Rightarrow> string \<Rightarrow> string" where
  "remask l m = (if fence_run l \<noteq> None then m else expand_line m m)"

lemma no_group_mask_code [simp]: "no_group (mask_code n)"
  by (induction n) (auto simp: mask_code_def no_group_Cons)

lemma expand_blank: "expand_line l (mask_code (length l)) = l"
  by (rule expand_line_no_group) simp_all

lemma remask_blank: "remask l (mask_code (length l)) = mask_code (length (expand_one l (mask_code (length l))))"
  using expand_line_no_group [of "mask_code (length l)" "mask_code (length l)"]
  by (simp add: remask_def expand_one_def expand_blank)

lemma remask_inline: "sub_spans mask_code (expand_one l (sub_spans mask_code l)) = remask l (sub_spans mask_code l)"
  by (simp add: remask_def expand_one_def mask_of_expanded)

lemma strip_lines_expanded:
  "strip_lines True fence (map2 expand_one lines (strip_lines True fence lines)) =
     map2 remask lines (strip_lines True fence lines)"
proof (induction "True" fence lines rule: strip_lines.induct)
  case (2 fence line lines)
  let ?f = "if closes line fence (reach (fst fence) lines) then None else Some fence"
  have r: "reach c (map2 expand_one lines (strip_lines True ?f lines)) = reach c lines" for c
    by (rule reach_expand [OF strip_lines_mask])
  show ?case
    using 2 r closes_expand [of "mask_code (length line)" line]
    by (simp add: blank_line_def remask_blank)
next
  case (3 line lines)
  show ?case
  proof (cases "opens line lines")
    case None
    have r: "reach c (map2 expand_one lines (strip_lines True None lines)) = reach c lines" for c
      by (rule reach_expand [OF strip_lines_mask])
    show ?thesis
      using 3(1) [OF None] None r opens_expand [of "sub_spans mask_code line" line, OF _ r]
      by (simp add: strip_inline_def remask_inline)
  next
    case (Some f)
    have r: "reach c (map2 expand_one lines (strip_lines True (Some f) lines)) = reach c lines" for c
      by (rule reach_expand [OF strip_lines_mask])
    show ?thesis
      using 3(2) [OF Some] Some opens_expand [of "mask_code (length line)" line, OF _ r]
      by (simp add: blank_line_def remask_blank)
  qed
qed simp

lemma set_expand_line:
  "is_mask m l \<Longrightarrow> c \<in> set (expand_line l m) \<Longrightarrow> c \<in> set l \<or> c = CHR ''['' \<or> group_char c"
proof (induction l arbitrary: m rule: length_induct)
  case (1 l)
  note ih = 1(1) [rule_format]
  from is_mask_length [OF 1(2)] show ?case
  proof (cases rule: expand_line_cases)
    case nil
    then show ?thesis using 1(3) by simp
  next
    case (char d l' e m')
    have "is_mask m' l'" using 1(2) char by (simp add: is_mask_def)
    then show ?thesis using 1(3) ih [of l' m'] char by auto
  next
    case (group g ds m' u l')
    then have "is_mask m' l'" "length l' < length l"
      using is_mask_same [of g m' u l'] 1(2) group_no_mask [OF group(2)] by simp_all
    then show ?thesis
      using 1(3) ih [of l' m'] group show_markers_chars [OF group(2), of c] by auto
  qed
qed

lemma expand_one_no_newline: "is_mask m l \<Longrightarrow> newline \<notin> set l \<Longrightarrow> newline \<notin> set (expand_one l m)"
  using set_expand_line [of m l newline] group_char_ne(4) by (auto simp: expand_one_def newline_def)

lemma length_expand_same:
  "length m = length l \<Longrightarrow> length (expand_line m m) = length (expand_line l m)"
proof (induction l arbitrary: m rule: length_induct)
  case (1 l)
  note ih = 1(1) [rule_format]
  from 1(2) show ?case
  proof (cases rule: expand_line_cases)
    case (char c l' d m')
    then show ?thesis using ih [of l' m'] by simp
  next
    case (group g ds m' u l')
    have "max 1 (length g) = length g"
      using group(6) by (cases g) auto
    then have "expand_line (g @ m') (g @ m') = show_markers ds @ expand_line m' m'"
      using group_at_complete [OF group(2), of m'] group(6) by (cases g) simp_all
    moreover have "length l' < length l" using group(3,4,6) by simp
    ultimately show ?thesis using group ih [of l' m'] by simp
  qed simp
qed

lemma expand_one_twice: "is_mask m l \<Longrightarrow> expand_one (expand_one l m) (remask l m) = expand_one l m"
proof (cases "fence_run l")
  case None
  assume m: "is_mask m l"
  have "expand_line (expand_line l m) (expand_line m m) = expand_line l m"
    by (rule expand_line_no_group [OF no_group_expanded length_expand_same [OF is_mask_length [OF m]]])
  then show ?thesis
    using None expand_line_fence [OF m None] by (simp add: expand_one_def remask_def)
qed (simp add: expand_one_def)

definition other_char :: "char \<Rightarrow> bool" where
  "other_char c \<longleftrightarrow> c \<noteq> CHR ''['' \<and> \<not> group_char c"

lemma filter_expand_line:
  "is_mask m l \<Longrightarrow> filter other_char (expand_line l m) = filter other_char l"
proof (induction l arbitrary: m rule: length_induct)
  case (1 l)
  note ih = 1(1) [rule_format]
  from is_mask_length [OF 1(2)] show ?case
  proof (cases rule: expand_line_cases)
    case nil
    then show ?thesis by simp
  next
    case (char d l' e m')
    have "is_mask m' l'" using 1(2) char by (simp add: is_mask_def)
    then show ?thesis using ih [of l' m'] char by simp
  next
    case (group g ds m' u l')
    then have g: "is_mask m' l'" "length l' < length l" "g = u"
      using is_mask_same [of g m' u l'] 1(2) group_no_mask [OF group(2)] by simp_all
    obtain t where t: "g = CHR ''['' # t" "list_all group_char t"
      using is_group_head [OF group(2)] by blast
    have u: "filter other_char g = []"
      unfolding t(1) filter_empty_conv other_char_def using t(2) by (auto simp: list_all_iff)
    moreover have "filter other_char (show_markers ds) = []"
      unfolding filter_empty_conv other_char_def using show_markers_chars [OF group(2)] by blast
    ultimately have "filter other_char (expand_line l m) = filter other_char (expand_line l' m')"
      by (simp add: group(7))
    moreover have "filter other_char l = filter other_char l'"
      using u by (simp add: group(3) g(3) [symmetric])
    ultimately show ?thesis using ih [OF g(2,1)] by simp
  qed
qed

lemma filter_join_on:
  "list_all2 (\<lambda>x y. filter P x = filter P y) xs ys \<Longrightarrow> filter P (join_on c xs) = filter P (join_on c ys)"
proof (induction c xs arbitrary: ys rule: join_on.induct)
  case (2 c p)
  then obtain y where "ys = [y]" "filter P p = filter P y"
    by (auto simp: list_all2_Cons1)
  then show ?case by simp
next
  case (3 c p q ps)
  then obtain y z zs where ys: "ys = y # z # zs" "filter P p = filter P y"
    "list_all2 (\<lambda>x y. filter P x = filter P y) (q # ps) (z # zs)"
    by (auto simp: list_all2_Cons1)
  then show ?case using 3(1) [OF ys(3)] by simp
qed simp

lemma expand_lines:
  assumes "list_all2 is_mask ms lines"
  shows "list_all2 (\<lambda>x y. filter other_char x = filter other_char y) (map2 expand_one lines ms) lines"
    and "map2 expand_one (map2 expand_one lines ms) (map2 remask lines ms) = map2 expand_one lines ms"
    and "\<forall>l\<in>set lines. newline \<notin> set l \<Longrightarrow> \<forall>l\<in>set (map2 expand_one lines ms). newline \<notin> set l"
  using assms
proof (induction ms lines rule: list_all2_induct)
  case (Cons m ms l lines)
  {
    case 1
    then show ?case using Cons filter_expand_line by (simp add: expand_one_def)
  next
    case 2
    then show ?case using Cons expand_one_twice by simp
  next
    case 3
    then show ?case using Cons expand_one_no_newline by simp
  }
qed simp_all

text \<open>C20: Splitting grouped markers settles in one pass and touches nothing else. A second pass changes
  nothing, whatever fences, code spans and unbalanced ticks the answer contains, and every character
  that cannot belong to a group, line breaks and ticks included, is kept in its place in the order.\<close>
theorem grouped_markers_settle:
  "expand_grouped_markers (expand_grouped_markers s) = expand_grouped_markers s
   \<and> filter other_char (expand_grouped_markers s) = filter other_char s"
proof -
  let ?lines = "split_on newline s"
  let ?ms = "strip_lines True None ?lines"
  let ?out = "map2 expand_one ?lines ?ms"
  have masks: "list_all2 is_mask ?ms ?lines"
    by (rule strip_lines_mask)
  note e = expand_lines [OF masks]
  have lines: "\<forall>l\<in>set ?lines. newline \<notin> set l"
    using split_on_no_sep [of _ newline s] by blast
  have "?out \<noteq> []"
    using length_strip_lines [of True None ?lines] split_on_nonempty [of newline s]
    by (cases ?lines; cases ?ms) auto
  then have "split_on newline (join_on newline ?out) = ?out"
    by (rule split_on_join_on) (rule e(3) [OF lines])
  then have "expand_grouped_markers (expand_grouped_markers s) = join_on newline (map2 expand_one ?out (map2 remask ?lines ?ms))"
    unfolding expand_grouped_markers_def Let_def by (simp add: strip_lines_expanded)
  moreover have "filter other_char (join_on newline ?out) = filter other_char s"
    using filter_join_on [OF e(1), of newline] by simp
  ultimately show ?thesis
    unfolding e(2) by (simp add: expand_grouped_markers_def Let_def)
qed

end
