(* ===== verification/Llm_Clients.thy ===== *)
theory Llm_Clients
  imports Provider_Http Cost_Budget Citations
begin

text \<open>
  The language-model clients behind the seam of \<open>Cost_Budget\<close>: the shared transport of
  \<open>app/llm/_http.py\<close>, the Anthropic, Gemini and OpenRouter clients and the offline stub. A client is
  given the reply its one request gets. An exception that is not \<open>LLMUnavailable\<close> is \<open>Llm_bug\<close>.
\<close>

section \<open>Transport\<close>

definition post_json :: "http_reply \<Rightarrow> llm_error + json" where
  "post_json reply =
     (case reply of
        Timed_out \<Rightarrow> Inl Llm_unavailable
      | Transport_failed \<Rightarrow> Inl Llm_unavailable
      | Replied status b \<Rightarrow>
          if status \<ge> 400 then Inl Llm_unavailable
          else (case b of
                  Not_json \<Rightarrow> Inl Llm_unavailable
                | Undecodable \<Rightarrow> Inl Llm_bug
                | Json j \<Rightarrow> Inr j))"

text \<open>\<open>d.get\<close> of something that is not a dictionary raises.\<close>

definition dict_of :: "json \<Rightarrow> llm_error + obj" where
  "dict_of j = (case j of JObj d \<Rightarrow> Inr d | _ \<Rightarrow> Inl Llm_bug)"

text \<open>\<open>data.get(key) or {}\<close>, then the counts: a missing one is 0, a \<open>null\<close> one makes \<open>int\<close> raise.\<close>

definition usage_block :: "obj \<Rightarrow> string \<Rightarrow> llm_error + obj" where
  "usage_block d key = (if truthy (jget d key) then dict_of (jget d key) else Inr [])"

definition token_count :: "obj \<Rightarrow> string \<Rightarrow> llm_error + int" where
  "token_count usage key =
     (if \<not> jhas usage key then Inr 0
      else (case coerce_int (jget usage key) of Coerced i \<Rightarrow> Inr i | _ \<Rightarrow> Inl Llm_bug))"

definition model_name :: "(json \<Rightarrow> string) \<Rightarrow> string \<Rightarrow> obj \<Rightarrow> string" where
  "model_name repr own d = (if jhas d ''model'' then py_str repr (jget d ''model'') else own)"

section \<open>Anthropic\<close>

fun anthropic_text :: "json list \<Rightarrow> llm_error + string" where
  "anthropic_text [] = Inr []"
| "anthropic_text (block # blocks) =
     and_then (dict_of block)
       (\<lambda>b. case (jget b ''type'', jget b ''text'') of
          (JStr kind, JStr text) \<Rightarrow> if kind = ''text'' then Inr text else anthropic_text blocks
        | _ \<Rightarrow> anthropic_text blocks)"

definition anthropic_complete :: "(json \<Rightarrow> string) \<Rightarrow> string \<Rightarrow> http_reply \<Rightarrow> llm_error + llm_result" where
  "anthropic_complete repr own reply =
     and_then (post_json reply) (\<lambda>j. and_then (dict_of j) (\<lambda>d.
       case jget d ''content'' of
         JArr blocks \<Rightarrow>
           and_then (anthropic_text blocks) (\<lambda>text.
           and_then (usage_block d ''usage'') (\<lambda>usage.
           and_then (token_count usage ''input_tokens'') (\<lambda>i.
           and_then (token_count usage ''output_tokens'') (\<lambda>out.
             Inr \<lparr>res_text = text, res_input = i, res_output = out,
                  res_model = model_name repr own d, res_provider = ''anthropic''\<rparr>))))
       | _ \<Rightarrow> Inl Llm_unavailable))"

section \<open>Gemini\<close>

text \<open>What the configuration adds to the request: a level cannot turn thinking off, so it asks for headroom.\<close>

datatype thinking = Thinking_level string | Thinking_budget int

record gemini_config =
  gc_model :: string
  gc_budget :: int
  gc_level :: "string option"
  gc_headroom :: int

definition gemini_thinking :: "gemini_config \<Rightarrow> thinking" where
  "gemini_thinking c = (case gc_level c of Some l \<Rightarrow> Thinking_level l | None \<Rightarrow> Thinking_budget (gc_budget c))"

definition gemini_max_output :: "gemini_config \<Rightarrow> int \<Rightarrow> int" where
  "gemini_max_output c max_tokens = (if gc_level c \<noteq> None then max_tokens + gc_headroom c else max_tokens)"

fun part_texts :: "json list \<Rightarrow> string" where
  "part_texts [] = []"
| "part_texts (p # ps) =
     (case p of JObj d \<Rightarrow> (case jget d ''text'' of JStr t \<Rightarrow> t | _ \<Rightarrow> []) | _ \<Rightarrow> []) @ part_texts ps"

definition gemini_text :: "json list \<Rightarrow> llm_error + string" where
  "gemini_text candidates =
     (case candidates of
        [] \<Rightarrow> Inr []
      | c # _ \<Rightarrow>
          and_then (dict_of c) (\<lambda>d.
            case jget d ''content'' of
              JObj content \<Rightarrow> (case jget content ''parts'' of JArr parts \<Rightarrow> Inr (part_texts parts) | _ \<Rightarrow> Inr [])
            | _ \<Rightarrow> Inr []))"

definition gemini_complete :: "gemini_config \<Rightarrow> http_reply \<Rightarrow> llm_error + llm_result" where
  "gemini_complete c reply =
     and_then (post_json reply) (\<lambda>j. and_then (dict_of j) (\<lambda>d.
       case jget d ''candidates'' of
         JArr candidates \<Rightarrow>
           and_then (gemini_text candidates) (\<lambda>text.
             if strip text = [] then Inl Llm_unavailable
             else
               and_then (usage_block d ''usageMetadata'') (\<lambda>usage.
               and_then (token_count usage ''promptTokenCount'') (\<lambda>i.
               and_then (token_count usage ''candidatesTokenCount'') (\<lambda>out.
               and_then (token_count usage ''thoughtsTokenCount'') (\<lambda>thoughts.
                 Inr \<lparr>res_text = text, res_input = i, res_output = out + thoughts,
                      res_model = gc_model c, res_provider = ''gemini''\<rparr>)))))
       | _ \<Rightarrow> Inl Llm_unavailable))"

section \<open>OpenRouter\<close>

text \<open>Sent with every call: zero data retention, no collection.\<close>

definition privacy :: "(string \<times> json) list" where
  "privacy = [(''zdr'', JBool True), (''data_collection'', JStr ''deny'')]"

definition router_payload :: "string \<Rightarrow> llm_request \<Rightarrow> json \<Rightarrow> obj" where
  "router_payload own rq temperature =
     [(''model'', JStr own), (''max_tokens'', JInt (rq_max_tokens rq)), (''temperature'', temperature),
      (''provider'', JObj privacy),
      (''messages'', JArr [JObj [(''role'', JStr ''system''), (''content'', JStr (rq_system rq))],
                          JObj [(''role'', JStr ''user''), (''content'', JStr (rq_user rq))]])]"

definition router_text :: "json list \<Rightarrow> llm_error + string" where
  "router_text choices =
     (case choices of
        [] \<Rightarrow> Inr []
      | c # _ \<Rightarrow>
          and_then (dict_of c) (\<lambda>d.
            case jget d ''message'' of
              JObj m \<Rightarrow> (case jget m ''content'' of JStr t \<Rightarrow> Inr t | _ \<Rightarrow> Inr [])
            | _ \<Rightarrow> Inr []))"

definition router_complete :: "(json \<Rightarrow> string) \<Rightarrow> string \<Rightarrow> http_reply \<Rightarrow> llm_error + llm_result" where
  "router_complete repr own reply =
     and_then (post_json reply) (\<lambda>j. and_then (dict_of j) (\<lambda>d.
       case jget d ''choices'' of
         JArr choices \<Rightarrow>
           and_then (router_text choices) (\<lambda>text.
             if strip text = [] then Inl Llm_unavailable
             else
               and_then (usage_block d ''usage'') (\<lambda>usage.
               and_then (token_count usage ''prompt_tokens'') (\<lambda>i.
               and_then (token_count usage ''completion_tokens'') (\<lambda>out.
                 Inr \<lparr>res_text = text, res_input = i, res_output = out,
                      res_model = model_name repr own d, res_provider = ''router''\<rparr>))))
       | _ \<Rightarrow> Inl Llm_unavailable))"

section \<open>The stub\<close>

fun starts_at :: "string \<Rightarrow> string \<Rightarrow> string option" where
  "starts_at needle [] = (if needle = [] then Some [] else None)"
| "starts_at needle (c # s) =
     (if take (length needle) (c # s) = needle then Some (drop (length needle) (c # s)) else starts_at needle s)"

text \<open>\<open>^\s*\[(\d+)\]\s\<close> at a place: the characters it takes.\<close>

definition bullet_at :: "string \<Rightarrow> nat option" where
  "bullet_at s =
     (let a = length (takeWhile py_isspace s); s1 = drop a s; d = takeWhile is_digit (drop 1 s1);
          after = drop (1 + length d) s1 in
      if take 1 s1 = ''['' \<and> d \<noteq> [] \<and> take 1 after = '']'' \<and> (\<exists>c\<in>set (take 1 (drop 1 after)). py_isspace c)
      then Some (a + length d + 3) else None)"

function count_bullets :: "bool \<Rightarrow> string \<Rightarrow> nat" where
  "count_bullets line_start [] = 0"
| "count_bullets line_start (c # s) =
     (case (if line_start then bullet_at (c # s) else None) of
        Some n \<Rightarrow> 1 + count_bullets (take 1 (drop (n - 1) (c # s)) = [newline]) (drop (max 1 n) (c # s))
      | None \<Rightarrow> count_bullets (c = newline) s)"
  by pat_completeness auto
termination
  by (relation "measure (length \<circ> snd)") auto

definition stub_has_evidence :: "string \<Rightarrow> nat" where
  "stub_has_evidence user =
     (if starts_at ''EVIDENCE: NONE'' user \<noteq> None then 0
      else (case starts_at ''EVIDENCE:'' user of
              None \<Rightarrow> 0
            | Some tail \<Rightarrow> count_bullets True tail))"

text \<open>The text up to the last blank; the whole text when there is none.\<close>

definition before_last_blank :: "string \<Rightarrow> string" where
  "before_last_blank s =
     (let kept = dropWhile (\<lambda>c. c \<noteq> CHR '' '') (rev s) in if kept = [] then s else rev (tl kept))"

definition truncate_to_budget :: "string \<Rightarrow> int \<Rightarrow> string" where
  "truncate_to_budget text max_tokens =
     (if max_tokens \<le> 0 then []
      else let limit = nat (max_tokens * chars_per_token) in
        if length text \<le> limit then text else before_last_blank (take limit text))"

definition cited_answer_template :: string where
  "cited_answer_template =
     ''Per the cited source [1], this is documented behavior. See the source for the exact details.''"

definition stub_complete :: "string \<Rightarrow> llm_client" where
  "stub_complete own rq =
     (let raw = (if stub_has_evidence (rq_user rq) = 0 then no_answer_refusal else cited_answer_template);
          text = truncate_to_budget raw (rq_max_tokens rq) in
      Inr \<lparr>res_text = text, res_input = max 1 (prompt_chars rq div chars_per_token),
           res_output = max 1 (int (length text) div chars_per_token), res_model = own, res_provider = ''stub''\<rparr>)"

section \<open>What a client promises\<close>

lemma gemini_never_blank:
  assumes "gemini_complete c reply = Inr res" shows "strip (res_text res) \<noteq> []"
proof -
  obtain j d where "post_json reply = Inr j" "dict_of j = Inr d"
    using assms unfolding gemini_complete_def and_then_Inr_iff by blast
  then show ?thesis
    using assms by (cases "jget d ''candidates''") (auto simp: gemini_complete_def and_then_Inr_iff split: if_splits)
qed

lemma router_never_blank:
  assumes "router_complete repr own reply = Inr res" shows "strip (res_text res) \<noteq> []"
proof -
  obtain j d where "post_json reply = Inr j" "dict_of j = Inr d"
    using assms unfolding router_complete_def and_then_Inr_iff by blast
  then show ?thesis
    using assms by (cases "jget d ''choices''") (auto simp: router_complete_def and_then_Inr_iff split: if_splits)
qed

text \<open>The Anthropic client is the one that passes a blank answer on.\<close>

lemma anthropic_passes_a_blank:
  "anthropic_complete repr own (Replied 200 (Json (JObj [(''content'', JArr [])])))
   = Inr \<lparr>res_text = [], res_input = 0, res_output = 0, res_model = own, res_provider = ''anthropic''\<rparr>"
  by (simp add: anthropic_complete_def post_json_def dict_of_def usage_block_def token_count_def jhas_def model_name_def)

text \<open>No error of the provider reaches a caller as anything but \<open>LLMUnavailable\<close>.\<close>

lemma post_json_errors:
  "post_json reply = Inl e \<Longrightarrow> (\<forall>s. reply \<noteq> Replied s Undecodable) \<Longrightarrow> e = Llm_unavailable"
  by (auto simp: post_json_def split: http_reply.splits body.splits if_splits)

text \<open>A count that is \<open>null\<close> throws away an answer that was paid for, and skips the fallback.\<close>

lemma null_count_is_a_bug:
  assumes "text \<noteq> []" "strip text = text"
  defines "answer \<equiv> Replied 200 (Json (JObj
    [(''choices'', JArr [JObj [(''message'', JObj [(''content'', JStr text)])]]),
     (''usage'', JObj [(''prompt_tokens'', JNull)])]))"
  shows "router_complete repr own answer = Inl Llm_bug"
    and "fallback_complete (\<lambda>_. router_complete repr own answer) secondary rq = Inl Llm_bug"
proof -
  show a: "router_complete repr own answer = Inl Llm_bug"
    using assms(1,2)
    by (simp add: answer_def router_complete_def post_json_def dict_of_def router_text_def usage_block_def
        token_count_def jhas_def)
  show "fallback_complete (\<lambda>_. router_complete repr own answer) secondary rq = Inl Llm_bug"
    using a by (simp add: fallback_complete_def is_llm_unavailable_def)
qed

text \<open>Every call of OpenRouter carries the privacy promise.\<close>

lemma router_always_private:
  "\<exists>p. jget (router_payload own rq temperature) ''provider'' = JObj p \<and> jget p ''zdr'' = JBool True
     \<and> jget p ''data_collection'' = JStr ''deny''"
  by (simp add: router_payload_def privacy_def)

lemma before_last_blank_length: "length (before_last_blank s) \<le> length s"
proof -
  have "length (dropWhile P xs) \<le> length xs" for P and xs :: string
    by (rule length_dropWhile_le)
  from this [of "\<lambda>c. c \<noteq> CHR '' ''" "rev s"] show ?thesis
    by (auto simp: before_last_blank_def Let_def)
qed

text \<open>The stub keeps to the budget, and with room for it cites the first bullet validly.\<close>

lemma stub_within_budget:
  "stub_complete own rq = Inr res \<Longrightarrow> int (length (res_text res)) \<le> max 0 (rq_max_tokens rq * chars_per_token)"
proof -
  have "int (length (truncate_to_budget raw k)) \<le> max 0 (k * chars_per_token)" for raw k
    using before_last_blank_length [of "take (nat (k * chars_per_token)) raw"]
    by (auto simp: truncate_to_budget_def Let_def chars_per_token_def)
  then show "stub_complete own rq = Inr res \<Longrightarrow> ?thesis"
    by (auto simp: stub_complete_def Let_def)
qed

lemma stub_answer_is_valid:
  assumes "stub_has_evidence (rq_user rq) = n" "n > 0" "rq_max_tokens rq \<ge> 24"
  shows "\<exists>res. stub_complete own rq = Inr res \<and> cr_valid (validate_citations (res_text res) n)
    \<and> cr_singly (validate_citations (res_text res) n) = [1]"
proof -
  have len: "length cited_answer_template = 92" by (simp add: cited_answer_template_def)
  have "length cited_answer_template \<le> nat (rq_max_tokens rq * chars_per_token)"
    using assms(3) by (simp add: len chars_per_token_def)
  then have t: "truncate_to_budget cited_answer_template (rq_max_tokens rq) = cited_answer_template"
    using assms(3) by (simp add: truncate_to_budget_def Let_def)
  have c: "cited_markers (expand_grouped_markers cited_answer_template) = [''1'']"
    "cited_markers cited_answer_template = [''1'']" "\<not> is_no_answer_refusal cited_answer_template"
    by code_simp+
  have "indices [''1''] = [1]" by code_simp
  then have "cr_valid (validate_citations cited_answer_template n) \<and> cr_singly (validate_citations cited_answer_template n) = [1]"
    using assms(2) c by (simp add: validate_citations_def Let_def)
  then show ?thesis
    using assms(1,2) t by (simp add: stub_complete_def Let_def)
qed

end
