(* ===== verification/Answer_Cache.thy ===== *)
theory Answer_Cache
  imports Json Tables Index_Promotion
begin

text \<open>
  The answer cache (\<open>cache/answer_cache.py\<close>, \<open>cache/factory.py\<close>, \<open>models/answer_cache.py\<close>): the key,
  the two stores behind the one protocol, and what a hit is. SHA-256 is an argument; a theorem that
  needs different texts to have different digests says so. The protocol is the locale \<open>answer_cache\<close>,
  interpreted on the database store and on the inert one.
\<close>

section \<open>The key\<close>

definition key_separator :: char where
  "key_separator = CHR 0x1F"

record key_fields =
  kf_question :: string
  kf_area :: string
  kf_source :: string
  kf_policy :: string
  kf_embedder :: string

definition key_pre_image :: "key_fields \<Rightarrow> string" where
  "key_pre_image f = join_on key_separator [kf_question f, kf_area f, kf_source f, kf_policy f, kf_embedder f]"

definition build_cache_key :: "(string \<Rightarrow> string) \<Rightarrow> key_fields \<Rightarrow> string" where
  "build_cache_key sha f = sha (key_pre_image f)"

section \<open>The stores\<close>

datatype confidence = High | Medium | Low | None_confidence

record cached_answer =
  ca_answer :: string
  ca_citations :: "obj list"
  ca_confidence :: confidence
  ca_source :: string
  ca_policy :: string
  ca_created :: timestamp
  ca_expires :: timestamp

record cache_row =
  cw_key :: string
  cw_question :: string
  cw_area :: string
  cw_value :: cached_answer
  cw_last_used :: timestamp

definition cache_get :: "timestamp \<Rightarrow> string \<Rightarrow> cache_row list \<Rightarrow> cached_answer option \<times> cache_row list" where
  "cache_get now k t =
     (case tget cw_key t k of
        None \<Rightarrow> (None, t)
      | Some r \<Rightarrow>
          if ca_expires (cw_value r) \<le> now then (None, t)
          else (Some (cw_value r), tput cw_key (r\<lparr>cw_last_used := now\<rparr>) t))"

text \<open>\<open>merge\<close>: a row of that key is overwritten in every column; the created time is the write's.\<close>

definition cache_put :: "timestamp \<Rightarrow> string \<Rightarrow> cached_answer \<Rightarrow> cache_row list \<Rightarrow> cache_row list" where
  "cache_put now k v t =
     tput cw_key \<lparr>cw_key = k, cw_question = [], cw_area = [], cw_value = v\<lparr>ca_created := now\<rparr>, cw_last_used = now\<rparr> t"

definition no_op_get :: "timestamp \<Rightarrow> string \<Rightarrow> unit \<Rightarrow> cached_answer option \<times> unit" where
  "no_op_get now k t = (None, ())"

definition no_op_put :: "timestamp \<Rightarrow> string \<Rightarrow> cached_answer \<Rightarrow> unit \<Rightarrow> unit" where
  "no_op_put now k v t = ()"

text \<open>The store of a request: the database's, or the inert one when the cache is disabled.\<close>

definition store_get :: "bool \<Rightarrow> timestamp \<Rightarrow> string \<Rightarrow> cache_row list \<Rightarrow> cached_answer option \<times> cache_row list" where
  "store_get enabled now k t = (if enabled then cache_get now k t else (fst (no_op_get now k ()), t))"

definition store_put :: "bool \<Rightarrow> timestamp \<Rightarrow> string \<Rightarrow> cached_answer \<Rightarrow> cache_row list \<Rightarrow> cache_row list" where
  "store_put enabled now k v t = (if enabled then cache_put now k v t else t)"

text \<open>The orchestrator's backfill of the two columns the store leaves blank.\<close>

definition backfill_cache_metadata :: "string \<Rightarrow> string \<Rightarrow> string \<Rightarrow> cache_row list \<Rightarrow> cache_row list" where
  "backfill_cache_metadata k question area t =
     (case tget cw_key t k of
        None \<Rightarrow> t
      | Some r \<Rightarrow> tput cw_key (r\<lparr>cw_question := question, cw_area := area\<rparr>) t)"

section \<open>The protocol\<close>

text \<open>
  What a caller may rely on: a read changes nothing that a later read sees, a value read under a key
  after a write is that value (but for its creation time) or nothing, and a write under another key is
  invisible. \<open>same\<close> is equality up to the time of creation.
\<close>

definition same_answer :: "cached_answer \<Rightarrow> cached_answer \<Rightarrow> bool" where
  "same_answer v w \<longleftrightarrow> v\<lparr>ca_created := 0\<rparr> = w\<lparr>ca_created := 0\<rparr>"

datatype cache_op = Get timestamp string | Put timestamp string cached_answer

fun run_op :: "(timestamp \<Rightarrow> string \<Rightarrow> 's \<Rightarrow> cached_answer option \<times> 's) \<Rightarrow> (timestamp \<Rightarrow> string \<Rightarrow> cached_answer \<Rightarrow> 's \<Rightarrow> 's)
    \<Rightarrow> cache_op \<Rightarrow> 's \<Rightarrow> 's" where
  "run_op get put (Get now k) s = snd (get now k s)"
| "run_op get put (Put now k v) s = put now k v s"

locale answer_cache =
  fixes get :: "timestamp \<Rightarrow> string \<Rightarrow> 's \<Rightarrow> cached_answer option \<times> 's"
    and put :: "timestamp \<Rightarrow> string \<Rightarrow> cached_answer \<Rightarrow> 's \<Rightarrow> 's"
    and empty_store :: 's
  assumes get_empty: "fst (get now k empty_store) = None"
    and get_after_get: "fst (get now k (snd (get now' k' s))) = fst (get now k s)"
    and get_after_put: "fst (get now k (put now' k' v s)) = Some w \<Longrightarrow>
      (if k' = k then same_answer v w \<and> now < ca_expires v else fst (get now k s) = Some w)"
begin

text \<open>Whatever happened before, a hit is the last value written under its key, and it has not expired.\<close>

lemma hit_was_put:
  assumes "fst (get now k (fold (run_op get put) ops empty_store)) = Some w"
  shows "\<exists>before t v after. ops = before @ Put t k v # after \<and> same_answer v w \<and> now < ca_expires v
    \<and> (\<forall>t' v'. Put t' k v' \<notin> set after)"
  using assms
proof (induction ops rule: rev_induct)
  case Nil
  then show ?case by (simp add: get_empty)
next
  case (snoc op ops)
  show ?case
  proof (cases op)
    case (Get t k')
    with snoc(2) have "fst (get now k (fold (run_op get put) ops empty_store)) = Some w"
      by (simp add: get_after_get)
    from snoc(1) [OF this] obtain before t v after where
      "ops = before @ Put t k v # after" "same_answer v w" "now < ca_expires v" "\<forall>t' v'. Put t' k v' \<notin> set after" by blast
    with Get show ?thesis
      by (intro exI [of _ before] exI [of _ t] exI [of _ v] exI [of _ "after @ [op]"]) simp
  next
    case (Put t k' v)
    with snoc(2) have hit: "fst (get now k (put t k' v (fold (run_op get put) ops empty_store))) = Some w"
      by simp
    show ?thesis
    proof (cases "k' = k")
      case True
      with get_after_put [OF hit] Put show ?thesis
        by (intro exI [of _ ops] exI [of _ t] exI [of _ v] exI [of _ "[]"]) simp
    next
      case False
      with get_after_put [OF hit] have "fst (get now k (fold (run_op get put) ops empty_store)) = Some w" by simp
      from snoc(1) [OF this] obtain before t' v' after where
        "ops = before @ Put t' k v' # after" "same_answer v' w" "now < ca_expires v'" "\<forall>t'' v''. Put t'' k v'' \<notin> set after" by blast
      with Put False show ?thesis
        by (intro exI [of _ before] exI [of _ t'] exI [of _ v'] exI [of _ "after @ [op]"]) simp
    qed
  qed
qed

end

lemma cache_get_fst:
  "fst (cache_get now k t) = (case tget cw_key t k of None \<Rightarrow> None
     | Some r \<Rightarrow> if ca_expires (cw_value r) \<le> now then None else Some (cw_value r))"
  by (simp add: cache_get_def split: option.splits)

lemma cache_get_row:
  "tget cw_key (snd (cache_get now k t)) k' =
     (case tget cw_key t k' of None \<Rightarrow> None
      | Some r \<Rightarrow> Some (if k' = k \<and> \<not> ca_expires (cw_value r) \<le> now then r\<lparr>cw_last_used := now\<rparr> else r))"
proof (cases "tget cw_key t k")
  case None
  then show ?thesis by (cases "tget cw_key t k'") (auto simp: cache_get_def)
next
  case (Some r)
  with tget_Some [OF Some] show ?thesis
    by (cases "tget cw_key t k'") (auto simp: cache_get_def tget_tput)
qed

interpretation database_cache: answer_cache cache_get cache_put "[]"
proof
  fix now now' k k' v w s
  show "fst (cache_get now k []) = None" by (simp add: cache_get_def)
  show "fst (cache_get now k (snd (cache_get now' k' s))) = fst (cache_get now k s)"
    by (simp add: cache_get_fst cache_get_row split: option.splits)
  show "fst (cache_get now k (cache_put now' k' v s)) = Some w \<Longrightarrow>
      (if k' = k then same_answer v w \<and> now < ca_expires v else fst (cache_get now k s) = Some w)"
    by (auto simp: cache_get_fst cache_put_def tget_tput same_answer_def split: if_splits option.splits)
qed

interpretation inert_cache: answer_cache no_op_get no_op_put "()"
  by unfold_locales (simp_all add: no_op_get_def)

text \<open>The separator splits a pre-image from the right: only the last four fields must be free of it.\<close>

lemma last_separator_split:
  "a @ c # b = a' @ c # b' \<Longrightarrow> c \<notin> set b \<Longrightarrow> c \<notin> set b' \<Longrightarrow> a = a' \<and> b = b'"
  by (auto simp: append_eq_append_conv2 append_eq_Cons_conv Cons_eq_append_conv)

definition field_ok :: "string \<Rightarrow> bool" where
  "field_ok s \<longleftrightarrow> key_separator \<notin> set s"

text \<open>C31: One cache key, one question. If the product area, source hash, policy version and embedder
  identity contain no separator and the digest separates the two texts, then two requests have the
  same key only if all five fields agree, although a question may contain the separator itself: no
  answer is served across questions, areas, corpora, policies or embedders.\<close>
theorem cache_key_is_injective:
  assumes "\<forall>s\<in>{kf_area f, kf_source f, kf_policy f, kf_embedder f, kf_area g, kf_source g, kf_policy g, kf_embedder g}. field_ok s"
    and "inj_on sha {key_pre_image f, key_pre_image g}"
    and "build_cache_key sha f = build_cache_key sha g"
  shows "f = g"
proof -
  have "key_pre_image f = key_pre_image g"
    using inj_onD [OF assms(2), of "key_pre_image f" "key_pre_image g"] assms(3) by (simp add: build_cache_key_def)
  then have e: "(((kf_question f @ key_separator # kf_area f) @ key_separator # kf_source f) @ key_separator # kf_policy f) @ key_separator # kf_embedder f
      = (((kf_question g @ key_separator # kf_area g) @ key_separator # kf_source g) @ key_separator # kf_policy g) @ key_separator # kf_embedder g"
    by (simp add: key_pre_image_def)
  have ok: "key_separator \<notin> set (kf_area f)" "key_separator \<notin> set (kf_source f)" "key_separator \<notin> set (kf_policy f)"
    "key_separator \<notin> set (kf_embedder f)" "key_separator \<notin> set (kf_area g)" "key_separator \<notin> set (kf_source g)"
    "key_separator \<notin> set (kf_policy g)" "key_separator \<notin> set (kf_embedder g)"
    using assms(1) by (simp_all add: field_ok_def)
  from last_separator_split [OF e ok(4) ok(8)] have 1: "kf_embedder f = kf_embedder g" by simp
  from last_separator_split [OF last_separator_split [OF e ok(4) ok(8), THEN conjunct1] ok(3) ok(7)]
  have 2: "kf_policy f = kf_policy g" and e2: "(kf_question f @ key_separator # kf_area f) @ key_separator # kf_source f
      = (kf_question g @ key_separator # kf_area g) @ key_separator # kf_source g" by simp_all
  from last_separator_split [OF e2 ok(2) ok(6)]
  have 3: "kf_source f = kf_source g" and e3: "kf_question f @ key_separator # kf_area f = kf_question g @ key_separator # kf_area g" by simp_all
  from last_separator_split [OF e3 ok(1) ok(5)] 1 2 3 show ?thesis by simp
qed

theorem cache_key_is_injective_witness:
  "build_cache_key id \<lparr>kf_question = ''a'' @ [key_separator], kf_area = ''b'', kf_source = '''', kf_policy = ''p'', kf_embedder = ''''\<rparr>
     \<noteq> build_cache_key id \<lparr>kf_question = ''a'', kf_area = ''b'', kf_source = '''', kf_policy = ''p'', kf_embedder = ''''\<rparr>"
proof
  assume "build_cache_key id \<lparr>kf_question = ''a'' @ [key_separator], kf_area = ''b'', kf_source = '''', kf_policy = ''p'', kf_embedder = ''''\<rparr>
     = build_cache_key id \<lparr>kf_question = ''a'', kf_area = ''b'', kf_source = '''', kf_policy = ''p'', kf_embedder = ''''\<rparr>"
  from cache_key_is_injective [OF _ _ this] show False by (simp add: field_ok_def key_separator_def inj_on_def)
qed

text \<open>C30: A cache hit is the last answer written under its key and is still fresh. After any sequence of
  reads and writes, under any keys and at any times, a value the store returns was put under that very
  key, by the latest such write, unchanged but for the time of its creation, and its expiry lies after
  the time of the read.\<close>
theorem cache_hit_is_the_last_write:
  assumes "fst (cache_get now k (fold (run_op cache_get cache_put) ops [])) = Some w"
  shows "\<exists>before t v after. ops = before @ Put t k v # after \<and> same_answer v w \<and> now < ca_expires v
    \<and> (\<forall>t' v'. Put t' k v' \<notin> set after)"
  using assms by (rule database_cache.hit_was_put)

definition demo_cached :: "string \<Rightarrow> cached_answer" where
  "demo_cached a = \<lparr>ca_answer = a, ca_citations = [], ca_confidence = High, ca_source = ''s'', ca_policy = ''p'', ca_created = 0, ca_expires = 100\<rparr>"

theorem cache_hit_is_the_last_write_witness:
  "\<exists>v. same_answer v (demo_cached ''new''\<lparr>ca_created := 2\<rparr>) \<and> 5 < ca_expires v"
proof -
  let ?ops = "[Put 1 ''k'' (demo_cached ''old''), Put 2 ''k'' (demo_cached ''new''), Get 3 ''k'', Put 4 ''j'' (demo_cached ''x'')]"
  have "fst (cache_get 5 ''k'' (fold (run_op cache_get cache_put) ?ops [])) = Some (demo_cached ''new''\<lparr>ca_created := 2\<rparr>)"
    by (simp add: cache_get_def cache_put_def tput_def demo_cached_def)
  from cache_hit_is_the_last_write [OF this] show ?thesis by blast
qed

end
