(* ===== verification/Evidence_Phrases.thy ===== *)
theory Evidence_Phrases
  imports Citations Regex
begin

text \<open>
  The rewriting of "the provided evidence" in a served answer (\<open>rewrite_evidence_references\<close> of
  \<open>app/llm/validation.py\<close>). A match never spans a line, so the search is a recursion along a line and
  its masked copy, with the characters already passed kept in reverse for the word boundary and the
  preposition before the phrase. The typographic apostrophe is outside the model's characters.
\<close>

section \<open>Words\<close>

definition blanks :: "string \<Rightarrow> nat" where
  "blanks s = length (takeWhile is_blank s)"

text \<open>The first of the words that the text starts with, case ignored, and what follows passes \<open>after\<close>.\<close>

definition word_prefix :: "string list \<Rightarrow> (string \<Rightarrow> bool) \<Rightarrow> string \<Rightarrow> nat option" where
  "word_prefix ws after s =
     map_option length
       (List.find (\<lambda>w. lower (take (length w) s) = w \<and> after (drop (length w) s)) ws)"

definition evidence_modifiers :: "string list" where
  "evidence_modifiers = [''provided'', ''supplied'', ''given'', ''available'', ''retrieved'', ''above'', ''listed'']"

definition evidence_heads :: "string list" where
  "evidence_heads = [''bullets'', ''items'', ''snippets'', ''excerpts'']"

text \<open>\<open>_EVIDENCE_PHRASE_RE\<close> at a place: the length of the phrase and whether it has a plural head.\<close>

definition phrase_at :: "string \<Rightarrow> string \<Rightarrow> (nat \<times> bool) option" where
  "phrase_at passed s =
     (if \<not> boundary passed \<or> lower (take 3 s) \<noteq> ''the'' then None
      else let a = blanks (drop 3 s); s1 = drop (3 + a) s in
        if a = 0 then None
        else let
          m = (case word_prefix evidence_modifiers (\<lambda>r. blanks r > 0) s1 of
                 None \<Rightarrow> 0 | Some k \<Rightarrow> k + blanks (drop k s1));
          s2 = drop m s1
        in if lower (take 8 s2) \<noteq> ''evidence'' \<or> \<not> boundary (drop 8 s2) then None
           else let n = 3 + a + m + 8; rest = drop n s; b = blanks rest in
             (case (if b = 0 then None else word_prefix evidence_heads boundary (drop b rest)) of
                None \<Rightarrow> Some (n, False)
              | Some k \<Rightarrow> Some (n + b + k, True)))"

section \<open>What may follow\<close>

definition number_list :: "string \<Rightarrow> nat option" where
  "number_list s =
     (case s of
        [] \<Rightarrow> None
      | c # t \<Rightarrow>
          let d = takeWhile is_digit t in
          if c \<noteq> CHR ''['' \<or> d = [] then None
          else map_option (\<lambda>(_, n). 1 + length d + n) (group_tail (drop (length d) t)))"

text \<open>\<open>_EVIDENCE_END_RE\<close>: markers, then punctuation or the end of the text.\<close>

function evidence_end :: "bool \<Rightarrow> string \<Rightarrow> bool" where
  "evidence_end last_line s =
     (let s1 = drop (blanks s) s in
      case number_list s1 of
        Some n \<Rightarrow> evidence_end last_line (drop (max 1 n) s1)
      | None \<Rightarrow> (case s1 of [] \<Rightarrow> last_line | c # _ \<Rightarrow> c \<in> set '',.;:)!?''))"
  by pat_completeness auto
termination
proof (relation "measure (length \<circ> snd)", simp, goal_cases)
  case (1 last_line s s1 n)
  then have "s1 \<noteq> []" "length s1 \<le> length s"
    by (auto simp: number_list_def)
  then show ?case by (cases s1) auto
qed

declare evidence_end.simps [simp del]

definition apostrophe :: char where
  "apostrophe = CHR 0x27"

text \<open>\<open>[A-Za-z]+(?:'[A-Za-z]+)?(?![A-Za-z'])\<close>\<close>

definition verb_word :: "string \<Rightarrow> string option" where
  "verb_word s =
     (let w = takeWhile is_letter s; r = drop (length w) s in
      if w = [] then None
      else if take 1 r \<noteq> [apostrophe] then Some w
      else let w2 = takeWhile is_letter (drop 1 r); r2 = drop (length w2) (drop 1 r) in
        if w2 = [] \<or> take 1 r2 = [apostrophe] then None else Some (w @ apostrophe # w2))"

definition evidence_adverbs :: "string list" where
  "evidence_adverbs = [''clearly'', ''only'', ''also'', ''explicitly'', ''specifically'', ''directly'', ''not'']"

text \<open>\<open>_EVIDENCE_VERB_RE\<close>: the characters before the verb, and the verb.\<close>

definition verb_at :: "string \<Rightarrow> (nat \<times> string) option" where
  "verb_at s =
     (let a = blanks s; s1 = drop a s in
      if a = 0 then None
      else case word_prefix evidence_adverbs (\<lambda>r. blanks r > 0) s1 of
        None \<Rightarrow> map_option (Pair a) (verb_word s1)
      | Some k \<Rightarrow>
          let b = k + blanks (drop k s1) in
          (case verb_word (drop b s1) of
             Some v \<Rightarrow> Some (a + b, v)
           | None \<Rightarrow> map_option (Pair a) (verb_word s1)))"

definition evidence_verbs :: "(string \<times> string) list" where
  "evidence_verbs =
    [(''mentions'', ''mention''), (''says'', ''say''), (''states'', ''state''), (''shows'', ''show''),
     (''lists'', ''list''), (''contains'', ''contain''), (''describes'', ''describe''),
     (''indicates'', ''indicate''), (''suggests'', ''suggest''), (''notes'', ''note''),
     (''includes'', ''include''), (''covers'', ''cover''), (''explains'', ''explain''),
     (''specifies'', ''specify''), (''confirms'', ''confirm''), (''provides'', ''provide''),
     (''does'', ''do''), (''doesn'' @ [apostrophe] @ ''t'', ''don'' @ [apostrophe] @ ''t''),
     (''is'', ''are''), (''isn'' @ [apostrophe] @ ''t'', ''aren'' @ [apostrophe] @ ''t''),
     (''has'', ''have''), (''hasn'' @ [apostrophe] @ ''t'', ''haven'' @ [apostrophe] @ ''t''),
     (''was'', ''were''), (''wasn'' @ [apostrophe] @ ''t'', ''weren'' @ [apostrophe] @ ''t'')]"

definition plural_verbs :: "string list" where
  "plural_verbs = map snd evidence_verbs"

definition match_case :: "string \<Rightarrow> string \<Rightarrow> string" where
  "match_case word like =
     (if length like > 1 \<and> (\<exists>c\<in>set like. is_letter c) \<and> (\<forall>c\<in>set like. is_letter c \<longrightarrow> is_upper c)
      then map upper_char word
      else if like \<noteq> [] \<and> is_upper (hd like) then map upper_char (take 1 word) @ drop 1 word
      else word)"

definition plural_verb :: "string \<Rightarrow> string option" where
  "plural_verb verb = map_option (\<lambda>p. match_case p verb) (map_of evidence_verbs (lower verb))"

text \<open>The edit after a phrase: characters kept, characters dropped, what replaces them.\<close>

definition follower_edit :: "bool \<Rightarrow> bool \<Rightarrow> bool \<Rightarrow> string \<Rightarrow> (nat \<times> nat \<times> string) option" where
  "follower_edit last_line plural_head after_preposition s =
     (if evidence_end last_line s then Some (0, 0, [])
      else case verb_at s of
        None \<Rightarrow> None
      | Some (k, verb) \<Rightarrow>
          let key = lower verb in
          if after_preposition then
            (if key \<in> fst ` set evidence_verbs \<or> key \<in> set plural_verbs then Some (0, 0, []) else None)
          else if plural_head then (if key \<in> set plural_verbs then Some (0, 0, []) else None)
          else map_option (\<lambda>p. (k, length verb, p)) (plural_verb verb))"

definition prepositions :: "string list" where
  "prepositions = [''in'', ''of'', ''from'', ''within'', ''across'', ''on'', ''at'', ''by'', ''for'',
     ''with'', ''throughout'', ''among'', ''about'', ''under'', ''inside'', ''through'', ''into'', ''over'']"

text \<open>\<open>_PREPOSITION_BEFORE_RE\<close> on the reversed characters before the phrase.\<close>

definition after_preposition :: "string \<Rightarrow> bool" where
  "after_preposition passed \<longleftrightarrow>
     blanks passed > 0 \<and> word_prefix (map rev prepositions) boundary (drop (blanks passed) passed) \<noteq> None"

section \<open>The rewriting\<close>

definition sources_i_found :: string where
  "sources_i_found = ''the sources I found''"

type_synonym rewrite = "string \<times> nat \<times> nat" \<comment> \<open>text, rewrites, skipped\<close>

text \<open>
  The search goes on after the edit instead of after the phrase: the edit's characters are blanks,
  an adverb and a verb of the closed lists, where no phrase starts.
\<close>

function rewrite_from :: "bool \<Rightarrow> bool \<Rightarrow> string \<Rightarrow> string \<Rightarrow> string \<Rightarrow> rewrite" where
  "rewrite_from fence last_line passed [] masked = ([], 0, 0)"
| "rewrite_from fence last_line passed (c # line) masked =
     (case phrase_at passed masked of
        None \<Rightarrow>
          (case rewrite_from fence last_line (hd masked # passed) line (drop 1 masked) of
             (s, r, k) \<Rightarrow> (c # s, r, k))
      | Some (n, plural_head) \<Rightarrow>
          (case (if fence then None
                 else follower_edit last_line plural_head (after_preposition passed) (drop n masked)) of
             None \<Rightarrow>
               (case rewrite_from fence last_line (rev (take (max 1 n) masked) @ passed)
                       (drop (max 1 n) (c # line)) (drop (max 1 n) masked) of
                  (s, r, k) \<Rightarrow> (take (max 1 n) (c # line) @ s, r, k + 1))
           | Some (a, d, verb) \<Rightarrow>
               let e = max 1 (n + a + d) in
               (case rewrite_from fence last_line (rev (take e masked) @ passed)
                       (drop e (c # line)) (drop e masked) of
                  (s, r, k) \<Rightarrow>
                    (match_case sources_i_found [c] @ take a (drop n (c # line)) @ verb @ s, r + 1, k))))"
  by pat_completeness auto
termination
  by (relation "measure (\<lambda>(_, _, _, line, _). length line)") auto

definition rewrite_line :: "bool \<Rightarrow> string \<Rightarrow> string \<Rightarrow> rewrite" where
  "rewrite_line last_line line masked = rewrite_from (fence_run line \<noteq> None) last_line [] line masked"

fun rewrite_lines :: "string list \<Rightarrow> string list \<Rightarrow> (string list \<times> nat \<times> nat)" where
  "rewrite_lines (l # ls) (m # ms) =
     (case (rewrite_line (ls = []) l m, rewrite_lines ls ms) of
        ((s, r, k), (ss, rs, ks)) \<Rightarrow> (s # ss, r + rs, k + ks))"
| "rewrite_lines ls ms = ([], 0, 0)"

definition rewrite_evidence_references :: "string \<Rightarrow> rewrite" where
  "rewrite_evidence_references s =
     (let lines = split_on newline s in
      case rewrite_lines lines (strip_lines True None lines) of
        (ls, r, k) \<Rightarrow> (join_on newline ls, r, k))"

definition neutralise_evidence_references :: "string \<Rightarrow> string" where
  "neutralise_evidence_references s = fst (rewrite_evidence_references s)"

section \<open>Markers survive\<close>

definition quiet :: "char \<Rightarrow> bool" where
  "quiet c \<longleftrightarrow> c \<noteq> CHR ''['' \<and> c \<noteq> CHR '']'' \<and> \<not> is_digit c \<and> c \<noteq> code_mask"

lemma find_markers_quiet: "list_all quiet p \<Longrightarrow> find_markers (p @ v) = find_markers v"
  by (induction p) (auto simp: quiet_def)

lemma find_markers_cut:
  assumes "quiet c" shows "find_markers (u @ c # v) = find_markers u @ find_markers v"
proof (induction u)
  case Nil
  show ?case using assms by (simp add: quiet_def)
next
  case (Cons x u)
  have c: "\<not> is_digit c" "c \<noteq> CHR '']''" using assms by (auto simp: quiet_def)
  show ?case
  proof (cases "\<forall>y\<in>set u. is_digit y")
    case True
    then have "takeWhile is_digit (u @ c # v) = u" "takeWhile is_digit u = u"
      using c(1) by (simp_all add: takeWhile_append2 takeWhile_eq_all_conv)
    then show ?thesis using Cons c by (simp add: Let_def del: takeWhile_eq_all_conv)
  next
    case False
    then obtain y where y: "y \<in> set u" "\<not> is_digit y" by blast
    then have t: "takeWhile is_digit (u @ c # v) = takeWhile is_digit u"
      by (rule takeWhile_append1)
    have "length (takeWhile is_digit u) < length u"
      using y by (metis set_takeWhileD takeWhile_eq_all_conv length_takeWhile_le le_neq_implies_less
          takeWhile_eq_take take_all_iff order_refl)
    then have "take 1 (drop (length (takeWhile is_digit u)) (u @ c # v)) = take 1 (drop (length (takeWhile is_digit u)) u)"
      by simp
    then show ?thesis using Cons by (simp only: append_Cons find_markers.simps t Let_def) simp
  qed
qed

lemma find_markers_split:
  "p \<noteq> [] \<Longrightarrow> list_all quiet p \<Longrightarrow> find_markers (u @ p @ v) = find_markers u @ find_markers v"
  by (cases p) (simp_all add: find_markers_cut find_markers_quiet)

lemma quiet_lower: "list_all quiet (lower p) \<Longrightarrow> list_all quiet p"
proof -
  have "quiet (lower_char c) \<Longrightarrow> quiet c" for c
    by (auto simp: quiet_def lower_char_def is_digit_def code_mask_def Let_def split: if_splits)
  then show "list_all quiet (lower p) \<Longrightarrow> list_all quiet p"
    by (auto simp: lower_def list_all_iff)
qed

lemma quiet_blanks: "list_all quiet (take (blanks s) s)"
proof -
  have "take (blanks s) s = takeWhile is_blank s"
    by (simp add: blanks_def takeWhile_eq_take [symmetric])
  moreover have "is_blank c \<Longrightarrow> quiet c" for c
    by (auto simp: is_blank_def quiet_def is_digit_def code_mask_def)
  ultimately show ?thesis
    by (auto simp: list_all_iff dest: set_takeWhileD)
qed

lemma quiet_letter: "is_letter c \<Longrightarrow> quiet c"
  by (auto simp: is_letter_def quiet_def is_digit_def code_mask_def Let_def)

lemma quiet_take_add: "list_all quiet (take i s) \<Longrightarrow> list_all quiet (take j (drop i s)) \<Longrightarrow> list_all quiet (take (i + j) s)"
  by (simp add: take_add)

lemma word_prefix_quiet:
  assumes "word_prefix ws after s = Some k" "\<And>w. w \<in> set ws \<Longrightarrow> list_all quiet w"
  shows "list_all quiet (take k s)"
proof -
  obtain w where f: "List.find (\<lambda>w. lower (take (length w) s) = w \<and> after (drop (length w) s)) ws = Some w"
    and k: "k = length w"
    using assms(1) by (auto simp: word_prefix_def)
  from f have w: "w \<in> set ws" "lower (take (length w) s) = w"
    by (auto simp: find_Some_iff)
  then show ?thesis using assms(2) [OF w(1)] quiet_lower k by simp
qed

lemma quiet_words:
  "w \<in> set evidence_modifiers \<Longrightarrow> list_all quiet w" "w \<in> set evidence_heads \<Longrightarrow> list_all quiet w"
  "w \<in> set evidence_adverbs \<Longrightarrow> list_all quiet w"
  by (auto simp: evidence_modifiers_def evidence_heads_def evidence_adverbs_def quiet_def is_digit_def code_mask_def)

lemma phrase_quiet:
  assumes "phrase_at q s = Some (n, h)" shows "list_all quiet (take n s)"
proof -
  define a where "a = blanks (drop 3 s)"
  define s1 where "s1 = drop (3 + a) s"
  define m where "m = (case word_prefix evidence_modifiers (\<lambda>r. blanks r > 0) s1 of
                 None \<Rightarrow> 0 | Some k \<Rightarrow> k + blanks (drop k s1))"
  define s2 where "s2 = drop m s1"
  define N where "N = 3 + a + m + 8"
  define b where "b = blanks (drop N s)"
  have the: "lower (take 3 s) = ''the''" and ev: "lower (take 8 s2) = ''evidence''"
    and n: "(case (if b = 0 then None else word_prefix evidence_heads boundary (drop b (drop N s))) of
                None \<Rightarrow> Some (N, False) | Some k \<Rightarrow> Some (N + b + k, True)) = Some (n, h)"
    using assms unfolding phrase_at_def Let_def a_def [symmetric] s1_def [symmetric] m_def [symmetric]
      s2_def [symmetric] N_def [symmetric] b_def [symmetric] by (simp_all split: if_splits)
  have q3: "list_all quiet (take 3 s)" and q8: "list_all quiet (take 8 s2)"
    by (rule quiet_lower, simp add: the ev quiet_def is_digit_def code_mask_def)+
  have "list_all quiet (take a (drop 3 s))" unfolding a_def by (rule quiet_blanks)
  with q3 have q1: "list_all quiet (take (3 + a) s)" by (rule quiet_take_add)
  have "list_all quiet (take m s1)"
    unfolding m_def using word_prefix_quiet [OF _ quiet_words(1)]
    by (auto split: option.splits intro!: quiet_take_add quiet_blanks)
  with q1 have "list_all quiet (take (3 + a + m) s)"
    unfolding s1_def by (rule quiet_take_add)
  moreover have "list_all quiet (take 8 (drop (3 + a + m) s))"
    using q8 by (simp add: s2_def s1_def add.commute)
  ultimately have qN: "list_all quiet (take N s)"
    unfolding N_def by (rule quiet_take_add)
  have "list_all quiet (take b (drop N s))" unfolding b_def by (rule quiet_blanks)
  with qN have qb: "list_all quiet (take (N + b) s)" by (rule quiet_take_add)
  show ?thesis
  proof (cases "n = N")
    case False
    then obtain k where k: "word_prefix evidence_heads boundary (drop b (drop N s)) = Some k" "n = N + b + k"
      using n by (auto split: option.splits if_splits)
    have "list_all quiet (take k (drop (N + b) s))"
      using word_prefix_quiet [OF k(1) quiet_words(2)] by (simp add: add.commute)
    then show ?thesis unfolding k(2) by (rule quiet_take_add [OF qb])
  qed (simp add: qN)
qed

lemma verb_word_quiet:
  "verb_word s = Some w \<Longrightarrow> take (length w) s = w \<and> list_all quiet w"
proof -
  assume v: "verb_word s = Some w"
  have l: "list_all quiet (takeWhile is_letter x)" for x
    by (auto simp: list_all_iff dest: set_takeWhileD intro: quiet_letter)
  have a: "quiet apostrophe"
    by (simp add: quiet_def apostrophe_def is_digit_def code_mask_def)
  define u where "u = takeWhile is_letter s"
  define r where "r = drop (length u) s"
  have s: "s = u @ r" unfolding u_def r_def by (simp add: takeWhile_eq_take [symmetric] dropWhile_eq_drop [symmetric])
  show ?thesis
  proof (cases "take 1 r = [apostrophe]")
    case False
    then have "w = u" using v by (auto simp: verb_word_def Let_def u_def [symmetric] r_def [symmetric] split: if_splits)
    then show ?thesis using l [of s, folded u_def] by (subst s) simp
  next
    case True
    then obtain t where t: "r = apostrophe # t" by (cases r) auto
    have "w = u @ apostrophe # takeWhile is_letter t"
      using v unfolding verb_word_def Let_def u_def [symmetric] r_def [symmetric] t
      by (simp split: if_splits)
    moreover have "take (length (takeWhile is_letter t)) t = takeWhile is_letter t"
      by (simp add: takeWhile_eq_take [symmetric])
    ultimately show ?thesis using t l [of s, folded u_def] l [of t] a by (subst s) simp
  qed
qed

lemma verb_quiet:
  assumes "verb_at s = Some (k, v)"
  shows "list_all quiet (take k s) \<and> take (length v) (drop k s) = v \<and> list_all quiet v"
proof -
  define a where "a = blanks s"
  have qa: "list_all quiet (take a s)" unfolding a_def by (rule quiet_blanks)
  from assms have v: "(case word_prefix evidence_adverbs (\<lambda>r. blanks r > 0) (drop a s) of
        None \<Rightarrow> map_option (Pair a) (verb_word (drop a s))
      | Some k \<Rightarrow> (let b = k + blanks (drop k (drop a s)) in
          (case verb_word (drop b (drop a s)) of
             Some v \<Rightarrow> Some (a + b, v)
           | None \<Rightarrow> map_option (Pair a) (verb_word (drop a s))))) = Some (k, v)"
    unfolding verb_at_def a_def [symmetric] by (simp add: Let_def split: if_splits)
  show ?thesis
  proof (cases "k = a \<and> verb_word (drop a s) = Some v")
    case True
    then show ?thesis using qa verb_word_quiet [of "drop a s" v] by simp
  next
    case False
    then obtain j where j: "word_prefix evidence_adverbs (\<lambda>r. blanks r > 0) (drop a s) = Some j"
      "k = a + (j + blanks (drop j (drop a s)))" "verb_word (drop k s) = Some v"
      using v by (auto simp: Let_def add.commute add.left_commute split: option.splits)
    have "list_all quiet (take (j + blanks (drop j (drop a s))) (drop a s))"
      by (rule quiet_take_add [OF word_prefix_quiet [OF j(1) quiet_words(3)] quiet_blanks])
    then have "list_all quiet (take k s)"
      unfolding j(2) by (rule quiet_take_add [OF qa])
    then show ?thesis using verb_word_quiet [OF j(3)] by simp
  qed
qed

lemma quiet_code:
  "quiet c \<longleftrightarrow> (let n = of_char c :: nat in n \<noteq> 91 \<and> n \<noteq> 93 \<and> n \<noteq> 0 \<and> \<not> (48 \<le> n \<and> n \<le> 57))"
proof -
  have "c = d \<longleftrightarrow> of_char c = (of_char d :: nat)" for d :: char
    by simp
  from this [of "CHR ''[''"] this [of "CHR '']''"] this [of "CHR 0x00"] show ?thesis
    by (auto simp: quiet_def code_mask_def is_digit_def Let_def simp del: of_char_eq_iff)
qed

lemma quiet_upper: "quiet c \<Longrightarrow> quiet (upper_char c)"
  unfolding quiet_code upper_char_def Let_def by auto

lemma quiet_match_case: "list_all quiet w \<Longrightarrow> list_all quiet (match_case w like)"
  using quiet_upper by (auto simp: match_case_def list_all_iff dest: in_set_takeD in_set_dropD)

lemma plural_quiet: "plural_verb v = Some p \<Longrightarrow> list_all quiet p"
proof -
  have "\<forall>p\<in>snd ` set evidence_verbs. list_all quiet p"
    by (auto simp: evidence_verbs_def quiet_def is_digit_def code_mask_def apostrophe_def)
  then show "plural_verb v = Some p \<Longrightarrow> list_all quiet p"
    by (force simp: plural_verb_def dest: map_of_SomeD intro!: quiet_match_case)
qed

lemma match_case_quiet: "list_all quiet (match_case sources_i_found [c]) \<and> match_case sources_i_found [c] \<noteq> []"
proof -
  have "list_all quiet sources_i_found"
    by (simp add: sources_i_found_def quiet_code)
  then show ?thesis
    using quiet_match_case [of sources_i_found "[c]"]
    by (auto simp: match_case_def sources_i_found_def)
qed

lemma follower_quiet:
  assumes "follower_edit l h p s = Some (a, d, v)"
  shows "list_all quiet (take (a + d) s) \<and> list_all quiet v"
proof (cases "a = 0 \<and> d = 0 \<and> v = []")
  case False
  then obtain verb where "verb_at s = Some (a, verb)" "d = length verb" "plural_verb verb = Some v"
    using assms by (auto simp: follower_edit_def Let_def split: if_splits option.splits)
  then show ?thesis
    using verb_quiet [of s a verb] plural_quiet [of verb v] quiet_take_add [of a s d] by simp
qed simp

lemma masked_quiet:
  assumes "is_mask m l" "list_all quiet (take n m)"
  shows "take n l = take n m" "is_mask (drop n m) (drop n l)"
proof -
  have len: "length m = length l" using assms(1) by (rule is_mask_length)
  have "code_mask \<notin> set (take n m)"
    using assms(2) by (auto simp: list_all_iff quiet_def)
  then show "take n l = take n m" "is_mask (drop n m) (drop n l)"
    using is_mask_same [of "take n m" "drop n m" "take n l" "drop n l"] assms(1) len by simp_all
qed

lemma quiet_piece:
  assumes "is_mask m (c # l)" "list_all quiet (take n m)" "n > 0"
  shows "list_all quiet (take n (c # l)) \<and> take n (c # l) \<noteq> [] \<and> is_mask (drop n m) (drop n (c # l))"
  using masked_quiet [OF assms(1,2)] assms(2,3) is_mask_length [OF assms(1)] by (cases n) auto

lemma phrase_positive: "phrase_at q s = Some (n, h) \<Longrightarrow> n > 0"
  by (auto simp: phrase_at_def Let_def split: if_splits option.splits)

lemma rewrite_from_markers:
  "is_mask masked line \<Longrightarrow>
   find_markers (u @ fst (rewrite_from fence last_line passed line masked)) = find_markers (u @ line)"
proof (induction fence last_line passed line masked arbitrary: u rule: rewrite_from.induct)
  case (2 fence last_line passed c line masked)
  have t: "line1 = take k (c # line) @ drop k (c # line)" if "line1 = c # line" for k line1
    using that by simp
  show ?case
  proof (cases "phrase_at passed masked")
    case None
    from 2(4) obtain x m where m: "masked = x # m" "is_mask m line"
      by (cases masked) (auto simp: is_mask_def)
    show ?thesis
      using 2(1) [OF None, of "u @ [c]"] m None by (simp add: case_prod_beta)
  next
    case (Some z)
    obtain n h where z: "z = (n, h)" by (cases z)
    note ph = Some [unfolded z]
    have n: "n > 0" "max 1 n = n" using phrase_positive [OF ph] by auto
    note piece = quiet_piece [OF 2(4) phrase_quiet [OF ph] n(1)]
    let ?edit = "if fence then None
                 else follower_edit last_line h (after_preposition passed) (drop n masked)"
    show ?thesis
    proof (cases ?edit)
      case None
      obtain s' r' k' where rest: "rewrite_from fence last_line (rev (take n masked) @ passed)
          (drop n (c # line)) (drop n masked) = (s', r', k')"
        by (rule prod_cases3)
      have "find_markers (w @ fst (rewrite_from fence last_line (rev (take n masked) @ passed)
              (drop n (c # line)) (drop n masked))) = find_markers (w @ drop n (c # line))" for w
        using 2(2) [OF Some z [symmetric] None] piece n(2) by simp
      from this [of "u @ take n (c # line)"]
      show ?thesis using ph None n(2) rest by simp
    next
      case (Some y)
      obtain a d v where y: "y = (a, d, v)" by (cases y)
      note ed = Some [unfolded y]
      then have f: "follower_edit last_line h (after_preposition passed) (drop n masked) = Some (a, d, v)"
        by (simp split: if_splits)
      define e where "e = n + a + d"
      have e: "max 1 (n + a + d) = e" "e > 0" using n unfolding e_def by auto
      have "list_all quiet (take e masked)"
        using quiet_take_add [OF phrase_quiet [OF ph], of "a + d"] follower_quiet [OF f]
        unfolding e_def by (simp add: add.assoc)
      note all = quiet_piece [OF 2(4) this e(2)]
      let ?rest = "rewrite_from fence last_line (rev (take e masked) @ passed) (drop e (c # line)) (drop e masked)"
      have ih: "find_markers (fst ?rest) = find_markers (drop e (c # line))"
        using 2(3) [OF \<open>phrase_at passed masked = Some z\<close> z [symmetric] Some y [symmetric] refl refl, of "[]"] all e(1) by simp
      have kept: "list_all quiet (take a (drop n (c # line)))"
      proof -
        have "take a (drop n (c # line)) = drop n (take (n + a) (take e (c # line)))"
          by (simp add: drop_take e_def min_def)
        also have "list_all quiet \<dots>"
          using all by (metis in_set_dropD in_set_takeD list_all_iff)
        finally show ?thesis .
      qed
      let ?new = "match_case sources_i_found [c] @ take a (drop n (c # line)) @ v"
      have "find_markers (u @ ?new @ fst ?rest) = find_markers u @ find_markers (fst ?rest)"
        using match_case_quiet [of c] kept follower_quiet [OF f] by (intro find_markers_split) auto
      moreover have "find_markers (u @ take e (c # line) @ drop e (c # line)) = find_markers u @ find_markers (drop e (c # line))"
        using all by (intro find_markers_split) auto
      moreover have "fst (rewrite_from fence last_line passed (c # line) masked) = ?new @ fst ?rest"
        using ph ed e(1) by (simp add: Let_def split: prod.splits)
      ultimately show ?thesis using ih by simp
    qed
  qed
qed simp

lemma rewrite_from_counts:
  "is_mask masked line \<Longrightarrow> fst (snd (rewrite_from fence last_line passed line masked)) = 0 \<Longrightarrow>
   fst (rewrite_from fence last_line passed line masked) = line"
proof (induction fence last_line passed line masked rule: rewrite_from.induct)
  case (2 fence last_line passed c line masked)
  show ?case
  proof (cases "phrase_at passed masked")
    case None
    from 2(4) obtain x m where m: "masked = x # m" "is_mask m line"
      by (cases masked) (auto simp: is_mask_def)
    show ?thesis using 2(1) [OF None] 2(5) m None by (simp add: case_prod_beta)
  next
    case (Some z)
    obtain n h where z: "z = (n, h)" by (cases z)
    note ph = Some [unfolded z]
    have n: "n > 0" "max 1 n = n" using phrase_positive [OF ph] by auto
    note piece = quiet_piece [OF 2(4) phrase_quiet [OF ph] n(1)]
    have "(if fence then None
           else follower_edit last_line h (after_preposition passed) (drop n masked)) = None"
      using 2(5) ph by (cases "if fence then None else follower_edit last_line h (after_preposition passed) (drop n masked)")
        (auto simp: Let_def split: prod.splits)
    moreover obtain s' r' k' where rest: "rewrite_from fence last_line (rev (take n masked) @ passed)
        (drop n (c # line)) (drop n masked) = (s', r', k')"
      by (rule prod_cases3)
    ultimately show ?thesis
      using 2(2) [OF Some z [symmetric]] 2(5) piece ph n(2) by simp
  qed
qed simp

lemma find_markers_join:
  "list_all2 (\<lambda>x y. find_markers x = find_markers y) xs ys \<Longrightarrow> find_markers (join_on newline xs) = find_markers (join_on newline ys)"
proof (induction newline xs arbitrary: ys rule: join_on.induct)
  case (2 p)
  then obtain y where "ys = [y]" "find_markers p = find_markers y"
    by (auto simp: list_all2_Cons1)
  then show ?case by simp
next
  case (3 p q ps)
  then obtain y z zs where ys: "ys = y # z # zs" "find_markers p = find_markers y"
    "list_all2 (\<lambda>x y. find_markers x = find_markers y) (q # ps) (z # zs)"
    by (auto simp: list_all2_Cons1)
  have "quiet newline" by (simp add: quiet_def newline_def is_digit_def code_mask_def)
  then show ?case using 3(1) [OF ys(3)] ys(1,2) by (simp add: find_markers_cut)
qed simp

lemma rewrite_lines_markers:
  "list_all2 is_mask ms ls \<Longrightarrow>
   list_all2 (\<lambda>x y. find_markers x = find_markers y) (fst (rewrite_lines ls ms)) ls
   \<and> (fst (snd (rewrite_lines ls ms)) = 0 \<longrightarrow> fst (rewrite_lines ls ms) = ls)"
proof (induction ms ls rule: list_all2_induct)
  case (Cons m ms l ls)
  then show ?case
    using rewrite_from_markers [OF Cons(1), of "[]"] rewrite_from_counts [OF Cons(1)]
    by (simp add: rewrite_line_def case_prod_beta)
qed simp

lemma rewording_keeps_the_markers_parts:
  fixes s :: string
  defines "r \<equiv> rewrite_evidence_references s"
  shows "find_markers (neutralise_evidence_references s) = find_markers s"
    and "fst (snd r) = 0 \<Longrightarrow> fst r = s"
proof -
  have m: "list_all2 is_mask (strip_lines True None (split_on newline s)) (split_on newline s)"
    by (rule strip_lines_mask)
  note l = rewrite_lines_markers [OF m]
  show "find_markers (neutralise_evidence_references s) = find_markers s"
    using find_markers_join [OF l [THEN conjunct1]]
    by (simp add: neutralise_evidence_references_def rewrite_evidence_references_def Let_def case_prod_beta)
  show "fst (snd r) = 0 \<Longrightarrow> fst r = s"
    using l by (simp add: r_def rewrite_evidence_references_def Let_def case_prod_beta)
qed

text \<open>C21: Rewording a served answer never touches a citation. Whatever phrases are replaced, verbs made
  plural and lines left alone, the text carries exactly the markers it had, in the same order, so
  the source cards stay right; and an answer in which no phrase was counted as rewritten is returned
  as it was.\<close>
theorem rewording_keeps_the_markers:
  fixes s :: string
  defines "r \<equiv> rewrite_evidence_references s"
  shows "(find_markers (neutralise_evidence_references s) = find_markers s)
     \<and> ((fst (snd r) = 0) \<longrightarrow> (fst r = s))"
  unfolding r_def using rewording_keeps_the_markers_parts by blast

definition demo_reworded :: string where
  "demo_reworded = ''Nothing here [1].''"

theorem rewording_keeps_the_markers_witness:
  "fst (rewrite_evidence_references demo_reworded) = demo_reworded
   \<and> fst (rewrite_evidence_references ''The provided evidence mentions hooks [2].'')
      = ''The sources I found mention hooks [2].''
   \<and> find_markers (neutralise_evidence_references ''The provided evidence mentions hooks [2].'') = [''2'']"
proof -
  have "fst (snd (rewrite_evidence_references demo_reworded)) = 0"
    by code_simp
  note this = rewording_keeps_the_markers [THEN conjunct2, THEN mp, OF this] rewording_keeps_the_markers [of "''The provided evidence mentions hooks [2].''", THEN conjunct1]
  moreover have "fst (rewrite_evidence_references ''The provided evidence mentions hooks [2].'')
      = ''The sources I found mention hooks [2].''" "find_markers ''The provided evidence mentions hooks [2].'' = [''2'']"
    by code_simp+
  ultimately show ?thesis by simp
qed

end
