(* ===== verification/Orchestrator.thy ===== *)
theory Orchestrator
  imports Answer_Text Evidence_Phrases
begin

text \<open>
  The answer pipeline of \<open>answer/orchestrator.py\<close>: a question is greeted, refused, served from the
  cache or answered from retrieved chunks, and the turn is written with its evidence and its audit row.
  \<open>ask\<close> composes the routing, the retriever, the cache, the citation validator and the clients of the
  other theories as the code does. The clock's readings, the new message ids, the language model at
  each of its calls, the embedder at each retrieval and what other requests commit while the question is
  being answered are the record \<open>world\<close>. An exception carries no database: the route rolls back.
  Log lines and the billing label around the calls are not modelled.
\<close>

section \<open>State\<close>

record answer_settings =
  ao_memory :: bool
  ao_recent_turns :: nat
  ao_alias_check :: bool
  ao_provider :: string
  ao_when_grounded :: bool
  ao_comparison :: bool
  ao_max_candidates :: nat
  ao_top_k :: nat
  ao_policy :: string
  ao_cache_enabled :: bool
  ao_ttl_seconds :: int
  ao_max_tokens :: int
  ao_refusal :: string
  ao_fallback :: string
  ao_identity :: embedder_identity
  ao_min_top_score :: rat
  ao_min_margin :: rat
  ao_create_missing :: bool

record session_row =
  se_id :: string
  se_user :: string

record message_row =
  me_id :: string
  me_session :: string
  me_from_user :: bool
  me_content :: string
  me_normalized :: string
  me_domain :: string
  me_intent :: string
  me_created :: timestamp
  me_citations :: "obj list option"

record evidence_row =
  ev_message :: string
  ev_chunk :: string
  ev_rank :: nat
  ev_score :: rat
  ev_type :: retrieval_type
  ev_used :: bool

record ask_audit =
  aa_user :: string
  aa_request :: string
  aa_session :: string
  aa_message :: string
  aa_domain :: string
  aa_intent :: string
  aa_outcome :: string
  aa_extra :: obj

record answer_db =
  ad_users :: "string list"
  ad_sessions :: "session_row list"
  ad_messages :: "message_row list"
  ad_evidence :: "evidence_row list"
  ad_audits :: "ask_audit list"
  ad_cache :: "cache_row list"
  ad_index :: index_db
  ad_corpus :: corpus

datatype llm_use = Alias_check | Condensing | First_answer | Second_answer

datatype search_turn = First_search | Second_search

record 'v world =
  wo_read_at :: timestamp
  wo_user_at :: timestamp
  wo_assistant_at :: timestamp
  wo_write_at :: timestamp
  wo_expiry_from :: timestamp
  wo_user_msg :: string
  wo_assistant_msg :: string
  wo_prompt :: "llm_use \<Rightarrow> string"
  wo_client :: "llm_use \<Rightarrow> llm_client"
  wo_wired :: bool
  wo_search :: "'v search"
  wo_scan :: "located list \<Rightarrow> located list"
  wo_embeds :: "search_turn \<Rightarrow> nat \<Rightarrow> string \<Rightarrow> emb_error + 'v"
  wo_others :: "answer_db \<Rightarrow> answer_db"

text \<open>\<open>Crash\<close> is any exception the pipeline neither raises nor catches.\<close>

datatype ask_error = Session_gone | Orchestrator_error | Crash

section \<open>Routing a question\<close>

definition message_key :: "message_row \<Rightarrow> timestamp \<times> string" where
  "message_key m = (me_created m, me_id m)"

definition recent_user_questions :: "answer_db \<Rightarrow> string \<Rightarrow> nat \<Rightarrow> string list" where
  "recent_user_questions db sid limit =
     map me_content (take limit (rev (sort_key message_key
       (filter (\<lambda>m. me_session m = sid \<and> me_from_user m) (ad_messages db)))))"

record routed =
  ro_query :: string
  ro_domain :: domain
  ro_intent :: intent
  ro_multi :: "domain list"
  ro_globally :: bool

definition multi_hop :: "routed \<Rightarrow> bool" where
  "multi_hop r \<longleftrightarrow> length (ro_multi r) \<ge> 2"

definition check_alias :: "answer_settings \<Rightarrow> 'v world \<Rightarrow> string \<Rightarrow> string \<Rightarrow> string" where
  "check_alias st w q query =
     (if ao_alias_check st \<and> ao_provider st \<noteq> ''stub'' \<and> contains_ambiguous_citevyn_alias query
         \<and> classify_domain query = Unsupported
      then (case is_citevyn_intent_llm (wo_prompt w Alias_check) (wo_client w Alias_check) q of
              Inr True \<Rightarrow> canonicalize_ambiguous_alias query
            | _ \<Rightarrow> query)
      else query)"

definition condense :: "answer_settings \<Rightarrow> 'v world \<Rightarrow> string \<Rightarrow> string list \<Rightarrow> bool \<Rightarrow> string \<Rightarrow> string" where
  "condense st w q prior needed query =
     (if needed \<and> prior \<noteq> [] \<and> ao_provider st \<noteq> ''stub''
      then (let condensed = (case condense_question_llm (wo_prompt w Condensing) (wo_client w Condensing) q prior of
                               Inl e \<Rightarrow> q | Inr c \<Rightarrow> c)
            in if condensed = q then query else condensed)
      else query)"

definition route_question :: "answer_settings \<Rightarrow> 'v world \<Rightarrow> answer_db \<Rightarrow> string \<Rightarrow> string \<Rightarrow> routed" where
  "route_question st w db sid q =
     (let routed_question = canonicalize_self_reference q;
          prior = (if ao_memory st then recent_user_questions db sid (ao_recent_turns st) else []);
          resolved = (if ao_memory st then build_contextual_query routed_question prior else routed_question);
          memory_rewrote = (resolved \<noteq> routed_question);
          query = check_alias st w q (canonicalize_product_name resolved);
          d = classify_domain query;
          i = (if is_unsupported d then Unsupported_intent else classify_intent query d);
          globally = (ao_when_grounded st \<and> i = Unsupported_intent)
      in \<lparr>ro_query = condense st w q prior (globally \<or> memory_rewrote) query,
          ro_domain = d, ro_intent = i, ro_multi = classify_domains query, ro_globally = globally\<rparr>)"

section \<open>Writing the turn\<close>

text \<open>
  The owner of the session, read from the database and locked; the rows for a missing one are made only
  for tests and the evaluation harness. \<open>wo_others\<close> is what was committed before the lock.
\<close>

definition ensure_user :: "answer_settings \<Rightarrow> string \<Rightarrow> answer_db \<Rightarrow> ask_error + string \<times> answer_db" where
  "ensure_user st sid db =
     (case tget se_id (ad_sessions db) sid of
        Some s \<Rightarrow> Inr (se_user s, db)
      | None \<Rightarrow>
          if \<not> ao_create_missing st then Inl Session_gone
          else Inr (''demo_user'', db\<lparr>
            ad_users := (if ''demo_user'' \<in> set (ad_users db) then ad_users db else ad_users db @ [''demo_user'']),
            ad_sessions := ad_sessions db @ [\<lparr>se_id = sid, se_user = ''demo_user''\<rparr>]\<rparr>))"

text \<open>\<open>uuid.UUID(str(c["chunk_id"]))\<close>: the id of a chunk is kept as the canonical text of its UUID.\<close>

fun cited_chunk_ids :: "obj list \<Rightarrow> string list option" where
  "cited_chunk_ids [] = Some []"
| "cited_chunk_ids (c # cs) =
     (case (jget c ''chunk_id'', cited_chunk_ids cs) of (JStr i, Some is) \<Rightarrow> Some (i # is) | _ \<Rightarrow> None)"

definition evidence_trace :: "string \<Rightarrow> string list \<Rightarrow> evidence_hit list \<Rightarrow> evidence_row list" where
  "evidence_trace message cited evidence =
     map (\<lambda>h. \<lparr>ev_message = message, ev_chunk = rc_id h, ev_rank = eh_rank h, ev_score = rc_score h,
        ev_type = eh_type h, ev_used = (rc_id h \<in> set cited)\<rparr>) evidence"

definition persist_messages ::
    "answer_settings \<Rightarrow> 'v world \<Rightarrow> string \<Rightarrow> string \<Rightarrow> string \<Rightarrow> domain \<Rightarrow> intent \<Rightarrow> string \<Rightarrow> evidence_hit list
       \<Rightarrow> obj list \<Rightarrow> answer_db \<Rightarrow> ask_error + string \<times> answer_db" where
  "persist_messages st w sid q normalized d i answer evidence citations db =
     and_then (ensure_user st sid (wo_others w db)) (\<lambda>(user, db).
     case cited_chunk_ids citations of
       None \<Rightarrow> Inl Crash
     | Some cited \<Rightarrow>
         let user_msg = \<lparr>me_id = wo_user_msg w, me_session = sid, me_from_user = True, me_content = q,
               me_normalized = normalized, me_domain = domain_value d, me_intent = intent_value i,
               me_created = wo_user_at w, me_citations = None\<rparr>;
             assistant_msg = \<lparr>me_id = wo_assistant_msg w, me_session = sid, me_from_user = False, me_content = answer,
               me_normalized = normalized, me_domain = domain_value d, me_intent = intent_value i,
               me_created = max (wo_assistant_at w) (wo_user_at w + 1),
               me_citations = (if citations = [] then None else Some citations)\<rparr>
         in Inr (user, db\<lparr>ad_messages := ad_messages db @ [user_msg, assistant_msg],
              ad_evidence := ad_evidence db @ evidence_trace (wo_user_msg w) cited evidence\<rparr>))"

definition persist_audit ::
    "'v world \<Rightarrow> string \<Rightarrow> string \<Rightarrow> string \<Rightarrow> domain \<Rightarrow> intent \<Rightarrow> string \<Rightarrow> obj \<Rightarrow> answer_db \<Rightarrow> answer_db" where
  "persist_audit w request sid user d i outcome extra db =
     db\<lparr>ad_audits := ad_audits db @ [\<lparr>aa_user = user, aa_request = request, aa_session = sid,
        aa_message = wo_assistant_msg w, aa_domain = domain_value d, aa_intent = intent_value i,
        aa_outcome = outcome, aa_extra = extra\<rparr>]\<rparr>"

section \<open>The ways a question ends\<close>

type_synonym answered = "ask_error + answer_response \<times> answer_db"

definition respond_unsupported ::
    "answer_settings \<Rightarrow> 'v world \<Rightarrow> string \<Rightarrow> string \<Rightarrow> string \<Rightarrow> domain \<Rightarrow> answer_db \<Rightarrow> answered" where
  "respond_unsupported st w request sid q d db =
     and_then (persist_messages st w sid q (strip q) d Unsupported_intent (ao_refusal st) [] [] db) (\<lambda>(user, db).
       Inr (build_no_answer_response request (domain_value d) Unsupported_intent ''unsupported'' (ao_refusal st)
              (Some (wo_assistant_msg w)) No_strategy [],
            persist_audit w request sid user d Unsupported_intent ''unsupported''
              [(''reason'', JStr ''unsupported_domain''), (''retrieval_strategy'', JStr (strategy_value No_strategy))] db))"

definition greeting_response :: string where
  "greeting_response = ''Hi! I'' @ apos @ ''m CiteVyn. I answer questions about Claude API, Claude Code, Codex, and Gemini API using cited official documentation. What would you like to know?''"

definition respond_greeting ::
    "answer_settings \<Rightarrow> 'v world \<Rightarrow> string \<Rightarrow> string \<Rightarrow> string \<Rightarrow> answer_db \<Rightarrow> answered" where
  "respond_greeting st w request sid q db =
     (let d = (if is_unsupported (classify_domain q) then General else classify_domain q) in
      and_then (persist_messages st w sid q (strip q) d Greeting greeting_response [] [] db) (\<lambda>(user, db).
       Inr (\<lparr>rs_request = request, rs_message = Some (wo_assistant_msg w), rs_answer = greeting_response,
              rs_citations = [], rs_docs_as_of = None, rs_domain = domain_value d, rs_intent = intent_value Greeting,
              rs_confidence = None_confidence, rs_cache_hit = False, rs_strategy = No_strategy,
              rs_unsupported = False, rs_no_answer = False, rs_source = [], rs_policy = [], rs_suggestions = []\<rparr>,
            persist_audit w request sid user d Greeting ''greeting''
              [(''retrieval_strategy'', JStr (strategy_value No_strategy))] db)))"

definition respond_cache_hit ::
    "answer_settings \<Rightarrow> 'v world \<Rightarrow> string \<Rightarrow> string \<Rightarrow> string \<Rightarrow> domain \<Rightarrow> intent \<Rightarrow> cached_answer \<Rightarrow> answer_db \<Rightarrow> answered" where
  "respond_cache_hit st w request sid q d i cached db =
     and_then (persist_messages st w sid q (strip q) d i (ca_answer cached) [] (ca_citations cached) db) (\<lambda>(user, db).
       Inr (\<lparr>rs_request = request, rs_message = Some (wo_assistant_msg w), rs_answer = ca_answer cached,
              rs_citations = ca_citations cached, rs_docs_as_of = docs_as_of (ca_citations cached),
              rs_domain = domain_value d, rs_intent = intent_value i, rs_confidence = ca_confidence cached,
              rs_cache_hit = True, rs_strategy = From_cache, rs_unsupported = False, rs_no_answer = False,
              rs_source = ca_source cached, rs_policy = ca_policy cached, rs_suggestions = []\<rparr>,
            persist_audit w request sid user d i ''cache_hit''
              [(''retrieval_strategy'', JStr (strategy_value From_cache)), (''source_version_hash'', JStr (ca_source cached))] db))"

definition respond_no_answer ::
    "answer_settings \<Rightarrow> 'v world \<Rightarrow> string \<Rightarrow> string \<Rightarrow> string \<Rightarrow> domain \<Rightarrow> intent \<Rightarrow> string \<Rightarrow> string \<Rightarrow> evidence_hit list
       \<Rightarrow> strategy \<Rightarrow> answer_db \<Rightarrow> answered" where
  "respond_no_answer st w request sid q d i source reason evidence strat db =
     and_then (persist_messages st w sid q (strip q) d i (ao_fallback st) evidence [] db) (\<lambda>(user, db).
       Inr (build_no_answer_response request (domain_value d) i reason (ao_fallback st) (Some (wo_assistant_msg w))
              No_strategy (if i \<noteq> Unsupported_intent then build_suggestions evidence else []),
            persist_audit w request sid user d i ''no_answer''
              [(''reason'', JStr reason), (''retrieval_strategy'', JStr (strategy_value strat)),
               (''source_version_hash'', JStr source)] db))"

text \<open>The reason of a failed validation, as Python prints a list.\<close>

definition out_of_range_reason :: "citation_result \<Rightarrow> nat \<Rightarrow> string" where
  "out_of_range_reason v n =
     ''citation index out of range: ['' @ concat (case map show_nat (cr_out_of_range v) of
          [] \<Rightarrow> [] | x # xs \<Rightarrow> x # map (\<lambda>y. '', '' @ y) xs)
     @ '']; evidence has '' @ show_nat n @ '' bullet(s)''"

definition respond_validation_failed ::
    "answer_settings \<Rightarrow> 'v world \<Rightarrow> string \<Rightarrow> string \<Rightarrow> string \<Rightarrow> domain \<Rightarrow> intent \<Rightarrow> string \<Rightarrow> string \<Rightarrow> evidence_hit list
       \<Rightarrow> strategy \<Rightarrow> answer_db \<Rightarrow> answered" where
  "respond_validation_failed st w request sid q d i source reason evidence strat db =
     and_then (persist_messages st w sid q (strip q) d i (ao_fallback st) evidence [] db) (\<lambda>(user, db).
       Inr (build_no_answer_response request (domain_value d) i ''citation_validation_failed'' (ao_fallback st)
              (Some (wo_assistant_msg w)) strat (if i \<noteq> Unsupported_intent then build_suggestions evidence else []),
            persist_audit w request sid user d i ''citation_validation_failed''
              [(''reason'', JStr reason), (''retrieval_strategy'', JStr (strategy_value strat)),
               (''source_version_hash'', JStr source)] db))"

definition policy_version :: "answer_settings \<Rightarrow> string" where
  "policy_version st = (if ao_comparison st then ao_policy st @ ''+cmp'' else ao_policy st)"

definition marker_of :: "obj \<Rightarrow> json" where
  "marker_of c = jget c ''marker''"

definition persist_and_respond ::
    "answer_settings \<Rightarrow> 'v world \<Rightarrow> string \<Rightarrow> string \<Rightarrow> string \<Rightarrow> domain \<Rightarrow> intent \<Rightarrow> string \<Rightarrow> obj list \<Rightarrow> evidence_hit list
       \<Rightarrow> strategy \<Rightarrow> string \<Rightarrow> confidence \<Rightarrow> string \<Rightarrow> string \<Rightarrow> vector_degrade \<Rightarrow> answer_db \<Rightarrow> answered" where
  "persist_and_respond st w request sid q d i answer citations evidence strat source conf key normalized_key degrade db =
     and_then (persist_messages st w sid q (strip q) d i answer evidence citations db) (\<lambda>(user, db).
       let cache_written = (degrade = No_degrade);
           value = \<lparr>ca_answer = answer, ca_citations = citations, ca_confidence = conf, ca_source = source,
             ca_policy = policy_version st, ca_created = wo_write_at w,
             ca_expires = wo_expiry_from w + microseconds (ao_ttl_seconds st)\<rparr>;
           stored = (if cache_written then store_put (ao_cache_enabled st) (wo_write_at w) key value (ad_cache db)
                     else ad_cache db);
           db = persist_audit w request sid user d i ''answer''
             [(''retrieval_strategy'', JStr (strategy_value strat)), (''source_version_hash'', JStr source),
              (''cache_hit'', JBool False), (''cache_written'', JBool cache_written),
              (''cited_markers'', JArr (map marker_of citations))] (db\<lparr>ad_cache := stored\<rparr>);
           stored = (if cache_written then backfill_cache_metadata key normalized_key (domain_value d) (ad_cache db)
                     else ad_cache db)
       in Inr (\<lparr>rs_request = request, rs_message = Some (wo_assistant_msg w), rs_answer = answer,
              rs_citations = citations, rs_docs_as_of = docs_as_of citations, rs_domain = domain_value d,
              rs_intent = intent_value i, rs_confidence = conf, rs_cache_hit = False, rs_strategy = strat,
              rs_unsupported = False, rs_no_answer = False, rs_source = source, rs_policy = policy_version st,
              rs_suggestions = []\<rparr>,
            db\<lparr>ad_cache := stored\<rparr>))"

section \<open>Retrieval and generation\<close>

text \<open>The version and the source hash of the one active index; empty texts when there is none, or more.\<close>

definition retrieve_active_index :: "answer_db \<Rightarrow> string \<times> string" where
  "retrieve_active_index db =
     (let resolution = resolve_active_index (ad_index db) in
      if ar_state resolution = Ambiguous then ([], [])
      else (case ar_row resolution of None \<Rightarrow> ([], []) | Some r \<Rightarrow> (ix_version r, ix_source_hash r)))"

definition default_retriever :: "answer_settings \<Rightarrow> 'v world \<Rightarrow> string \<Rightarrow> 'v retriever" where
  "default_retriever st w version =
     \<lparr>rt_version = (if version = [] then None else Some version), rt_identity = Some (ao_identity st),
      rt_wired = wo_wired w, rt_search = wo_search w, rt_confidence = Some (ao_min_top_score st, ao_min_margin st),
      rt_scan = wo_scan w\<rparr>"

definition searched :: "domain list \<Rightarrow> string list" where
  "searched ds = take max_multihop_domains (map domain_value ds)"

definition search_corpus ::
    "answer_settings \<Rightarrow> 'v world \<Rightarrow> answer_db \<Rightarrow> search_turn \<Rightarrow> 'v retriever \<Rightarrow> routed \<Rightarrow> string \<Rightarrow> intent
       \<Rightarrow> (escape + retrieval_result) reported" where
  "search_corpus st w db turn rt r query i =
     (if multi_hop r
      then retrieve_multi rt (wo_embeds w turn) (ad_index db) (ad_corpus db) query (map domain_value (ro_multi r)) i
             (ao_max_candidates st) (ao_top_k st)
      else retrieve rt (wo_embeds w turn 0) (ad_index db) (ad_corpus db) query
             (if ro_globally r then None else Some (domain_value (ro_domain r))) i (ao_max_candidates st) (ao_top_k st))"

definition generate :: "answer_settings \<Rightarrow> 'v world \<Rightarrow> llm_use \<Rightarrow> string \<Rightarrow> evidence_hit list \<Rightarrow> domain list \<Rightarrow> llm_error + string" where
  "generate st w use query evidence ds =
     (let instruction = (if ao_comparison st \<and> length ds \<ge> 2 then Some (comparison_instruction (searched ds)) else None) in
      and_then (wo_client w use \<lparr>rq_system = wo_prompt w use, rq_user = build_user_prompt query evidence instruction,
                  rq_max_tokens = ao_max_tokens st\<rparr>)
        (\<lambda>res. Inr (res_text res)))"

record attempt =
  at_evidence :: "evidence_hit list"
  at_degrade :: vector_degrade
  at_text :: string
  at_validation :: citation_result
  at_strategy :: strategy

definition retry_without_exact_lookup ::
    "answer_settings \<Rightarrow> 'v world \<Rightarrow> answer_db \<Rightarrow> 'v retriever \<Rightarrow> routed \<Rightarrow> (ask_error + attempt option) reported" where
  "retry_without_exact_lookup st w db rt r =
     (let stripped = strip_flag_tokens (ro_query r);
          retry_query = (if stripped = [] then ro_query r else stripped)
      in case search_corpus st w db Second_search rt r retry_query Faq of
           (Inl e, reports) \<Rightarrow> (Inl Crash, reports)
         | (Inr result, reports) \<Rightarrow>
             if rr_hits result = [] then (Inr None, reports)
             else (case generate st w Second_answer (ro_query r) (rr_hits result) (ro_multi r) of
                     Inl e \<Rightarrow> if is_llm_unavailable e then (Inr None, reports) else (Inl Crash, reports)
                   | Inr answer \<Rightarrow>
                       (let v = validate_citations answer (length (rr_hits result)) in
                        if \<not> cr_valid v \<or> cr_singly v = [] then (Inr None, reports)
                        else (Inr (Some \<lparr>at_evidence = rr_hits result, at_degrade = rr_degrade result, at_text = answer,
                                at_validation = v, at_strategy = strategy_for Faq (rr_hits result)\<rparr>), reports))))"

text \<open>The served text: groups split, the context never called the evidence, uncovered products named.\<close>

definition served_text :: "answer_settings \<Rightarrow> routed \<Rightarrow> attempt \<Rightarrow> string" where
  "served_text st r a =
     (let answer = neutralise_evidence_references (expand_grouped_markers (at_text a));
          note = (if multi_hop r \<and> ao_comparison st \<and> at_degrade a = No_degrade
                  then missing_note (missing_areas (searched (ro_multi r)) (at_evidence a) (cr_singly (at_validation a)))
                  else [])
      in if note = [] then answer
         else rev (dropWhile py_isspace (rev answer)) @ [newline, newline] @ note)"

definition visible_citations :: "attempt \<Rightarrow> obj list" where
  "visible_citations a = map (marked_citation (at_evidence a)) (cr_cited (at_validation a))"

definition cache_area :: "routed \<Rightarrow> string" where
  "cache_area r =
     (if multi_hop r then join_on (CHR ''+'') (sort (map domain_value (ro_multi r))) else domain_value (ro_domain r))"

definition cache_fields :: "answer_settings \<Rightarrow> routed \<Rightarrow> string \<Rightarrow> key_fields" where
  "cache_fields st r source =
     \<lparr>kf_question = lower (strip (ro_query r)), kf_area = cache_area r, kf_source = source,
      kf_policy = policy_version st, kf_embedder = cache_key_component (ao_identity st)\<rparr>"

section \<open>The pipeline\<close>

text \<open>From a validated attempt to the end: one more look when an exact hit did not answer, then the gate.\<close>

definition finish_answer ::
    "answer_settings \<Rightarrow> 'v world \<Rightarrow> string \<Rightarrow> string \<Rightarrow> string \<Rightarrow> routed \<Rightarrow> string \<Rightarrow> string \<Rightarrow> 'v retriever \<Rightarrow> attempt
       \<Rightarrow> answer_db \<Rightarrow> answered reported" where
  "finish_answer st w request sid q r source key rt first db =
     (case (if cr_singly (at_validation first) = [] \<and> at_strategy first = By_exact_lookup
            then retry_without_exact_lookup st w db rt r else (Inr None, [])) of
        (Inl e, reports) \<Rightarrow> (Inl e, reports)
      | (Inr retried, reports) \<Rightarrow>
          (let a = (case retried of None \<Rightarrow> first | Some second \<Rightarrow> second) in
           if cr_singly (at_validation a) = []
           then (respond_no_answer st w request sid q (ro_domain r) (ro_intent r) source
                   (if is_no_answer_refusal (at_text a) then ''no_answer'' else ''uncited_answer'')
                   (at_evidence a) (at_strategy a) db, reports)
           else (persist_and_respond st w request sid q (ro_domain r) (ro_intent r) (served_text st r a)
                   (visible_citations a) (at_evidence a) (at_strategy a) source
                   (confidence_for (cr_singly (at_validation a)) (length (at_evidence a)))
                   key (lower (strip (ro_query r))) (at_degrade a) db, reports)))"

definition answer_from_corpus ::
    "answer_settings \<Rightarrow> 'v world \<Rightarrow> string \<Rightarrow> string \<Rightarrow> string \<Rightarrow> routed \<Rightarrow> string \<Rightarrow> string \<Rightarrow> string \<Rightarrow> answer_db
       \<Rightarrow> answered reported" where
  "answer_from_corpus st w request sid q r version source key db =
     (let rt = default_retriever st w version in
      case search_corpus st w db First_search rt r (ro_query r) (ro_intent r) of
        (Inl e, reports) \<Rightarrow> (Inl Crash, reports)
      | (Inr result, reports) \<Rightarrow>
          if rr_hits result = []
          then (if rr_degrade result = Arm_unavailable then Inl Orchestrator_error
                else if ro_globally r then respond_unsupported st w request sid q (ro_domain r) db
                else respond_no_answer st w request sid q (ro_domain r) (ro_intent r) source ''weak_evidence'' []
                       Hybrid_reranked db, reports)
          else
            (let strat = strategy_for (ro_intent r) (rr_hits result) in
             case generate st w First_answer (ro_query r) (rr_hits result) (ro_multi r) of
               Inl e \<Rightarrow> (Inl (if is_llm_unavailable e then Orchestrator_error else Crash), reports)
             | Inr answer \<Rightarrow>
                 (let v = validate_citations answer (length (rr_hits result)) in
                  if \<not> cr_valid v
                  then (respond_validation_failed st w request sid q (ro_domain r) (ro_intent r) source
                          (out_of_range_reason v (length (rr_hits result))) (rr_hits result) strat db, reports)
                  else (case finish_answer st w request sid q r source key rt
                               \<lparr>at_evidence = rr_hits result, at_degrade = rr_degrade result, at_text = answer,
                                at_validation = v, at_strategy = strat\<rparr> db of
                          (res, reports') \<Rightarrow> (res, reports @ reports')))))"

definition ask ::
    "(string \<Rightarrow> string) \<Rightarrow> answer_settings \<Rightarrow> 'v world \<Rightarrow> string \<Rightarrow> string \<Rightarrow> string \<Rightarrow> answer_db \<Rightarrow> answered reported" where
  "ask sha st w request sid q db =
     (if is_greeting q then (respond_greeting st w request sid q db, [])
      else let r = route_question st w db sid q in
        if ro_intent r = Unsupported_intent \<and> \<not> ro_globally r
        then (respond_unsupported st w request sid q (ro_domain r) db, [])
        else let (version, source) = retrieve_active_index db;
                 key = build_cache_key sha (cache_fields st r source);
                 (cached, table) = store_get (ao_cache_enabled st) (wo_read_at w) key (ad_cache db);
                 db = db\<lparr>ad_cache := table\<rparr>
             in case cached of
                  Some c \<Rightarrow> (respond_cache_hit st w request sid q (ro_domain r) (ro_intent r) c db, [])
                | None \<Rightarrow>
                    if should_skip_retrieval (ro_intent r) \<and> \<not> ro_globally r
                    then (respond_no_answer st w request sid q (ro_domain r) (ro_intent r) source ''no_answer'' []
                            No_strategy db, [])
                    else answer_from_corpus st w request sid q r version source key db)"

end
