(* ===== verification/Answer_Laws.thy ===== *)
theory Answer_Laws
  imports Orchestrator
begin

text \<open>
  What the answer pipeline of \<open>Orchestrator\<close> guarantees: every way a question ends is one of six, and
  for each of them what is returned, written and cached.
\<close>

section \<open>What an empty retrieval says\<close>

lemma safe_vector_failed:
  assumes "safe_vector_retrieve rt e conf co q area n degrade = (Inr (cs, d), reports)" and "embedder_failed reports"
  shows "d = Arm_unavailable \<and> degrade = No_degrade"
  using assms by (auto simp: safe_vector_retrieve_def embedder_failed_def split: if_splits sum.splits emb_error.splits)

lemma retrieve_failed:
  assumes "retrieve rt e db co q area i limit k = (Inr r, reports)" and "embedder_failed reports"
  shows "rr_degrade r = Arm_unavailable \<and> vector_arm_degrade rt db = No_degrade"
proof (cases "area = None")
  case True
  with assms show ?thesis
    by (auto simp: retrieve_def retrieve_global_def finalize_def split: prod.splits sum.splits dest!: safe_vector_failed)
next
  case False
  have n: "\<not> embedder_failed []" by (simp add: embedder_failed_def)
  from False assms show ?thesis
    by (auto simp: retrieve_def Let_def finalize_def n split: prod.splits sum.splits if_splits dest!: safe_vector_failed)
qed

lemma embedder_failed_simps [simp]:
  "\<not> embedder_failed []" "embedder_failed (a @ b) \<longleftrightarrow> embedder_failed a \<or> embedder_failed b"
  by (auto simp: embedder_failed_def)

lemma retrieve_degrade_cases:
  assumes "retrieve rt e db co q area i limit k = (Inr r, reports)" and "vector_arm_degrade rt db = No_degrade"
    and "rt_identity rt \<noteq> None" and "rr_hits r = []"
  shows "rr_degrade r \<in> {No_degrade, Arm_unavailable}"
proof -
  have a: "\<not> active_index_ambiguous rt db"
    using assms(2,3) by (auto simp: vector_arm_degrade_def active_index_ambiguous_def active_index_stamp_def
        is_index_embedder_mismatch_def Let_def split: option.splits if_splits)
  have s: "safe_vector_retrieve rt e conf co q area n No_degrade = (Inr (cs, d), reports) \<Longrightarrow> d \<in> {No_degrade, Arm_unavailable}"
    for conf n cs d reports
    by (auto simp: safe_vector_retrieve_def split: sum.splits emb_error.splits)
  obtain hits d where "r = finalize rt db hits d" "d \<in> {No_degrade, Arm_unavailable}"
  proof (cases "area = None")
    case True
    with assms(1,2) s that show thesis
      by (auto simp: retrieve_def retrieve_global_def split: prod.splits sum.splits)
  next
    case False
    with assms(1,2) s that show thesis
      by (auto simp: retrieve_def Let_def split: prod.splits sum.splits if_splits)
  qed
  with assms(4) a show ?thesis by (auto simp: finalize_def evidence_spans_indexes_def)
qed

lemma retrieve_areas_failed:
  assumes "retrieve_areas rt embeds db co q i limit k n areas = (Inr rs, reports)" and "embedder_failed reports"
  shows "\<exists>r\<in>set rs. rr_degrade r = Arm_unavailable \<and> vector_arm_degrade rt db = No_degrade"
  using assms
proof (induction areas arbitrary: n rs reports)
  case (Cons a areas)
  from Cons.prems(1) obtain r ra rs' rb where r: "retrieve rt (embeds n) db co q (Some a) i limit k = (Inr r, ra)"
    and rs': "retrieve_areas rt embeds db co q i limit k (Suc n) areas = (Inr rs', rb)" "rs = r # rs'" "reports = ra @ rb"
    by (auto split: prod.splits sum.splits)
  with Cons.prems(2) consider "embedder_failed ra" | "embedder_failed rb" by auto
  then show ?case using retrieve_failed [OF r] Cons.IH [OF rs'(1)] rs'(2) by cases auto
qed simp

lemma retrieve_areas_degrades:
  assumes "retrieve_areas rt embeds db co q i limit k n areas = (Inr rs, reports)" and "vector_arm_degrade rt db = No_degrade"
    and "rt_identity rt \<noteq> None" and "\<forall>r\<in>set rs. rr_hits r = []"
  shows "\<forall>r\<in>set rs. rr_degrade r \<in> {No_degrade, Arm_unavailable}"
  using assms
proof (induction areas arbitrary: n rs reports)
  case (Cons a areas)
  from Cons.prems(1) obtain r ra rs' rb where r: "retrieve rt (embeds n) db co q (Some a) i limit k = (Inr r, ra)"
    and rs': "retrieve_areas rt embeds db co q i limit k (Suc n) areas = (Inr rs', rb)" "rs = r # rs'"
    by (auto split: prod.splits sum.splits)
  from Cons.prems(4) rs'(2) have h: "rr_hits r = []" "\<forall>r\<in>set rs'. rr_hits r = []" by simp_all
  from retrieve_degrade_cases [OF r Cons.prems(2,3) h(1)] Cons.IH [OF rs'(1) Cons.prems(2,3) h(2)] show ?case
    unfolding rs'(2) by simp
qed simp

lemma round_robin_nonempty:
  assumes "hits \<in> set per_area" and "hits \<noteq> []"
  shows "round_robin_merge per_area \<noteq> []"
proof -
  let ?step = "\<lambda>rank hits merged. if rank < length hits then take_hit (hits ! rank) merged else merged"
  have t: "take_hit h m \<noteq> []" for h m by (auto simp: take_hit_def)
  have inner: "m \<noteq> [] \<or> (\<exists>h\<in>set hss. rank < length h) \<Longrightarrow> fold (?step rank) hss m \<noteq> []" for m hss rank
    by (induction hss arbitrary: m) (auto simp: t)
  have keep: "m \<noteq> [] \<Longrightarrow> fold (\<lambda>rank. fold (?step rank) per_area) ranks m \<noteq> []" for m ranks
    by (induction ranks arbitrary: m) (simp_all add: inner)
  have "length hits \<le> fold max (map length per_area) 0"
    using assms(1) Max.set_eq_fold [of 0 "map length per_area"] by (metis List.finite_set Max_ge imageI list.set_intros(2) list.set_map)
  then have "0 < fold max (map length per_area) 0" using assms(2) by (cases hits) auto
  then have "[0..<fold max (map length per_area) 0] = 0 # [1..<fold max (map length per_area) 0]" by (simp add: upt_rec)
  moreover have "fold (?step 0) per_area [] \<noteq> []" using assms by (intro inner) auto
  ultimately show ?thesis unfolding round_robin_merge_def using keep by simp
qed

lemma keep_each_length: "length kept \<le> length (fold (keep_area merged k) areas kept)"
proof (induction areas arbitrary: kept)
  case (Cons a areas)
  have "length kept \<le> length (keep_area merged k a kept)" by (auto simp: keep_area_def split: option.splits)
  with Cons [of "keep_area merged k a kept"] show ?case by simp
qed simp

lemma search_failed:
  assumes s: "search_corpus st w db turn (default_retriever st w version) r query i = (Inr result, reports)"
    and e: "embedder_failed reports" and h: "rr_hits result = []" and k: "0 < ao_top_k st"
  shows "rr_degrade result = Arm_unavailable"
proof (cases "multi_hop r")
  case False
  with s e retrieve_failed show ?thesis unfolding search_corpus_def by (metis (no_types, lifting))
next
  case True
  let ?rt = "default_retriever st w version"
  have id: "rt_identity ?rt \<noteq> None" by (simp add: default_retriever_def)
  let ?areas = "take max_multihop_domains (map domain_value (ro_multi r))"
  from True s obtain rs where
    rs: "retrieve_areas ?rt (wo_embeds w turn) (ad_index db) (ad_corpus db) query i (ao_max_candidates st) (ao_top_k st) 0 ?areas = (Inr rs, reports)"
    and r: "result = finalize ?rt (ad_index db) (ranked (keep_each_area (rerank (int (ao_top_k st)) (round_robin_merge (map rr_hits rs)))
       (round_robin_merge (map rr_hits rs)) ?areas (ao_top_k st))) (combine_degrades (map rr_degrade rs))"
    by (auto simp: search_corpus_def retrieve_multi_def Let_def split: prod.splits sum.splits)
  from retrieve_areas_failed [OF rs e] obtain f where f: "f \<in> set rs" "rr_degrade f = Arm_unavailable"
    "vector_arm_degrade ?rt (ad_index db) = No_degrade" by blast
  from h have "length (rerank (int (ao_top_k st)) (round_robin_merge (map rr_hits rs))) = 0"
    using keep_each_length [of "rerank (int (ao_top_k st)) (round_robin_merge (map rr_hits rs))"]
    by (metis r finalize_hits keep_each_area_def le_zero_eq length_0_conv map_ranked(7))
  then have "round_robin_merge (map rr_hits rs) = []" using k by (simp add: rerank_def min_def split: if_splits)
  then have "\<forall>r\<in>set rs. rr_hits r = []" using round_robin_nonempty [of _ "map rr_hits rs"] by fastforce
  with retrieve_areas_degrades [OF rs f(3) id] have d: "\<forall>r\<in>set rs. rr_degrade r \<in> {No_degrade, Arm_unavailable}" by blast
  then have "combine_degrades (map rr_degrade rs) = Arm_unavailable"
    using f(1,2) by (auto simp: combine_degrades_def degrade_precedence_def image_iff)
  then show ?thesis by (simp add: r finalize_def)
qed

section \<open>The six ends\<close>

lemma persist_messages_Inr:
  assumes "persist_messages st w sid q normalized d i answer evidence citations db = Inr (user, db')"
  obtains db0 cited where "ensure_user st sid (wo_others w db) = Inr (user, db0)" "cited_chunk_ids citations = Some cited"
    "db' = db0\<lparr>ad_messages := ad_messages db0 @
       [\<lparr>me_id = wo_user_msg w, me_session = sid, me_from_user = True, me_content = q, me_normalized = normalized,
         me_domain = domain_value d, me_intent = intent_value i, me_created = wo_user_at w, me_citations = None\<rparr>,
        \<lparr>me_id = wo_assistant_msg w, me_session = sid, me_from_user = False, me_content = answer, me_normalized = normalized,
         me_domain = domain_value d, me_intent = intent_value i, me_created = max (wo_assistant_at w) (wo_user_at w + 1),
         me_citations = (if citations = [] then None else Some citations)\<rparr>],
      ad_evidence := ad_evidence db0 @ evidence_trace (wo_user_msg w) cited evidence\<rparr>"
  using assms
  by (auto simp: persist_messages_def Let_def and_then_Inr_iff split: option.splits)

lemma persist_audit_sel [simp]:
  "ad_cache (persist_audit w request sid user d i outcome extra db) = ad_cache db"
  "ad_messages (persist_audit w request sid user d i outcome extra db) = ad_messages db"
  "ad_sessions (persist_audit w request sid user d i outcome extra db) = ad_sessions db"
  "ad_users (persist_audit w request sid user d i outcome extra db) = ad_users db"
  "ad_evidence (persist_audit w request sid user d i outcome extra db) = ad_evidence db"
  "ad_index (persist_audit w request sid user d i outcome extra db) = ad_index db"
  "ad_corpus (persist_audit w request sid user d i outcome extra db) = ad_corpus db"
  by (simp_all add: persist_audit_def)

text \<open>An attempt that passed the validator and the gate, from one retrieval and one generation.\<close>

definition attempted ::
    "answer_settings \<Rightarrow> 'v world \<Rightarrow> answer_db \<Rightarrow> routed \<Rightarrow> string \<Rightarrow> attempt \<Rightarrow> bool" where
  "attempted st w db r version a \<longleftrightarrow>
     (\<exists>turn query i result reports use.
        search_corpus st w db turn (default_retriever st w version) r query i = (Inr result, reports)
        \<and> rr_hits result \<noteq> [] \<and> at_evidence a = rr_hits result \<and> at_degrade a = rr_degrade result
        \<and> generate st w use (ro_query r) (rr_hits result) (ro_multi r) = Inr (at_text a)
        \<and> at_validation a = validate_citations (at_text a) (length (rr_hits result))
        \<and> cr_valid (at_validation a))"

lemma attemptedI:
  assumes "search_corpus st w db turn (default_retriever st w version) r query i = (Inr result, reports)" "rr_hits result \<noteq> []"
    and "generate st w use (ro_query r) (rr_hits result) (ro_multi r) = Inr (at_text a)"
    and "at_evidence a = rr_hits result" "at_degrade a = rr_degrade result"
    and "at_validation a = validate_citations (at_text a) (length (rr_hits result))" "cr_valid (at_validation a)"
  shows "attempted st w db r version a"
  unfolding attempted_def using assms by blast

lemma attempted_evidence: "attempted st w db r version a \<Longrightarrow> at_evidence a \<noteq> []"
  by (auto simp: attempted_def)

lemma search_corpus_cache [simp]:
  "search_corpus st w (db\<lparr>ad_cache := t\<rparr>) turn rt r query i = search_corpus st w db turn rt r query i"
  by (simp add: search_corpus_def)

lemma retry_cache [simp]:
  "retry_without_exact_lookup st w (db\<lparr>ad_cache := t\<rparr>) rt r = retry_without_exact_lookup st w db rt r"
  by (simp add: retry_without_exact_lookup_def)

lemma retried_is_attempted:
  assumes "retry_without_exact_lookup st w db (default_retriever st w version) r = (Inr (Some a), reports)"
  shows "attempted st w db r version a \<and> cr_singly (at_validation a) \<noteq> []"
  using assms unfolding retry_without_exact_lookup_def
  by (auto simp: Let_def intro: attemptedI split: prod.splits sum.splits if_splits)

lemma finish_answer_cases:
  assumes "finish_answer st w request sid q r source key (default_retriever st w version) first db = (Inr (resp, db'), reports)"
    and "attempted st w db r version first"
  obtains (no_answer) reason evidence strat where
      "respond_no_answer st w request sid q (ro_domain r) (ro_intent r) source reason evidence strat db = Inr (resp, db')"
      "reason \<in> {''no_answer'', ''uncited_answer''}" "evidence \<noteq> []"
  | (served) a where "attempted st w db r version a" "cr_singly (at_validation a) \<noteq> []"
      "persist_and_respond st w request sid q (ro_domain r) (ro_intent r) (served_text st r a) (visible_citations a)
         (at_evidence a) (at_strategy a) source (confidence_for (cr_singly (at_validation a)) (length (at_evidence a)))
         key (lower (strip (ro_query r))) (at_degrade a) db = Inr (resp, db')"
proof -
  obtain retried reports' where t: "(if cr_singly (at_validation first) = [] \<and> at_strategy first = By_exact_lookup
      then retry_without_exact_lookup st w db (default_retriever st w version) r else (Inr None, [])) = (Inr retried, reports')"
    using assms(1) by (auto simp: finish_answer_def split: prod.splits sum.splits)
  define a where "a = (case retried of None \<Rightarrow> first | Some second \<Rightarrow> second)"
  have a: "attempted st w db r version a"
  proof (cases retried)
    case None
    with assms(2) show ?thesis by (simp add: a_def)
  next
    case (Some b)
    with t have "retry_without_exact_lookup st w db (default_retriever st w version) r = (Inr (Some b), reports')"
      by (simp split: if_splits)
    from retried_is_attempted [OF this] Some show ?thesis by (simp add: a_def)
  qed
  show thesis
  proof (cases "cr_singly (at_validation a) = []")
    case True
    show thesis
      by (rule no_answer [where reason = "if is_no_answer_refusal (at_text a) then ''no_answer'' else ''uncited_answer''" and evidence = "at_evidence a" and strat = "at_strategy a"])
        (use assms(1) t True attempted_evidence [OF a] in \<open>simp_all add: finish_answer_def a_def [symmetric] Let_def\<close>)
  next
    case False
    show thesis by (rule served [OF a False]) (use assms(1) t False in \<open>simp add: finish_answer_def a_def [symmetric] Let_def\<close>)
  qed
qed

text \<open>The answer cache as the read of this question leaves it, when it got that far.\<close>

definition tables_read :: "(string \<Rightarrow> string) \<Rightarrow> answer_settings \<Rightarrow> 'v world \<Rightarrow> answer_db \<Rightarrow> string \<Rightarrow> string \<Rightarrow> cache_row list set" where
  "tables_read sha st w db sid q =
     {ad_cache db, snd (store_get (ao_cache_enabled st) (wo_read_at w)
        (build_cache_key sha (cache_fields st (route_question st w db sid q) (snd (retrieve_active_index db)))) (ad_cache db))}"

lemma ask_cases:
  assumes "ask sha st w request sid q db = (Inr (resp, db'), reports)"
  obtains (greeting) "is_greeting q" "respond_greeting st w request sid q db = Inr (resp, db')"
  | (refused) table where "ro_intent (route_question st w db sid q) = Unsupported_intent"
      "0 < ao_top_k st \<Longrightarrow> \<not> embedder_failed reports"
      "respond_unsupported st w request sid q (ro_domain (route_question st w db sid q)) (db\<lparr>ad_cache := table\<rparr>) = Inr (resp, db')"
      "table \<in> tables_read sha st w db sid q"
  | (cached) version source c table where "retrieve_active_index db = (version, source)"
      "store_get (ao_cache_enabled st) (wo_read_at w)
         (build_cache_key sha (cache_fields st (route_question st w db sid q) source)) (ad_cache db) = (Some c, table)"
      "respond_cache_hit st w request sid q (ro_domain (route_question st w db sid q)) (ro_intent (route_question st w db sid q))
         c (db\<lparr>ad_cache := table\<rparr>) = Inr (resp, db')"
      "table \<in> tables_read sha st w db sid q"
  | (no_answer) source reason evidence strat table where
      "respond_no_answer st w request sid q (ro_domain (route_question st w db sid q)) (ro_intent (route_question st w db sid q))
         source reason evidence strat (db\<lparr>ad_cache := table\<rparr>) = Inr (resp, db')"
      "reason \<in> {''no_answer'', ''uncited_answer'', ''weak_evidence''}"
      "0 < ao_top_k st \<Longrightarrow> embedder_failed reports \<Longrightarrow> evidence \<noteq> []"
      "table \<in> tables_read sha st w db sid q"
  | (invalid) source reason evidence strat table where
      "respond_validation_failed st w request sid q (ro_domain (route_question st w db sid q)) (ro_intent (route_question st w db sid q))
         source reason evidence strat (db\<lparr>ad_cache := table\<rparr>) = Inr (resp, db')"
      "evidence \<noteq> []"
      "table \<in> tables_read sha st w db sid q"
  | (served) version source a table where "retrieve_active_index db = (version, source)"
      "attempted st w db (route_question st w db sid q) version a" "cr_singly (at_validation a) \<noteq> []"
      "persist_and_respond st w request sid q (ro_domain (route_question st w db sid q)) (ro_intent (route_question st w db sid q))
         (served_text st (route_question st w db sid q) a) (visible_citations a) (at_evidence a) (at_strategy a) source
         (confidence_for (cr_singly (at_validation a)) (length (at_evidence a)))
         (build_cache_key sha (cache_fields st (route_question st w db sid q) source))
         (lower (strip (ro_query (route_question st w db sid q)))) (at_degrade a) (db\<lparr>ad_cache := table\<rparr>) = Inr (resp, db')"
      "table \<in> tables_read sha st w db sid q"
proof (cases "is_greeting q")
  case True
  with assms show thesis by (intro greeting) (simp_all add: ask_def)
next
  case False
  define r where "r = route_question st w db sid q"
  obtain version source where vs: "retrieve_active_index db = (version, source)" by (metis surj_pair)
  define key where "key = build_cache_key sha (cache_fields st r source)"
  obtain c table where ct: "store_get (ao_cache_enabled st) (wo_read_at w) key (ad_cache db) = (c, table)" by (metis surj_pair)
  have table: "ad_cache db \<in> tables_read sha st w db sid q" "table \<in> tables_read sha st w db sid q"
    using ct by (simp_all add: tables_read_def vs key_def r_def)
  note ask = assms [unfolded ask_def Let_def, folded r_def, unfolded vs prod.case, folded key_def, unfolded ct prod.case]
  consider (refuse) "ro_intent r = Unsupported_intent" "\<not> ro_globally r"
    | (hit) x where "\<not> (ro_intent r = Unsupported_intent \<and> \<not> ro_globally r)" "c = Some x"
    | (skip) "\<not> (ro_intent r = Unsupported_intent \<and> \<not> ro_globally r)" "c = None" "should_skip_retrieval (ro_intent r) \<and> \<not> ro_globally r"
    | (go) "\<not> (ro_intent r = Unsupported_intent \<and> \<not> ro_globally r)" "c = None" "\<not> (should_skip_retrieval (ro_intent r) \<and> \<not> ro_globally r)"
    by (cases c) blast+
  then show thesis
  proof cases
    case refuse
    with ask False have "reports = []" by (simp add: embedder_failed_def)
    with refuse ask False show thesis by (intro refused [of "ad_cache db"]) (simp_all add: r_def table)
  next
    case (hit x)
    have "respond_cache_hit st w request sid q (ro_domain r) (ro_intent r) x (db\<lparr>ad_cache := table\<rparr>) = Inr (resp, db')"
      using ask by (simp only: if_not_P [OF False] if_not_P [OF hit(1)] hit(2) option.case prod.inject if_False)
    then show thesis by (intro cached [OF vs ct [unfolded key_def r_def hit(2)]]) (simp_all add: r_def table)
  next
    case skip
    have "respond_no_answer st w request sid q (ro_domain r) (ro_intent r) source ''no_answer'' [] No_strategy (db\<lparr>ad_cache := table\<rparr>)
        = Inr (resp, db')"
      using ask by (simp only: if_not_P [OF False] if_not_P [OF skip(1)] skip(2) option.case if_P [OF skip(3)] prod.inject if_False if_True)
    moreover have "reports = []"
      using ask by (simp only: if_not_P [OF False] if_not_P [OF skip(1)] skip(2) option.case if_P [OF skip(3)] prod.inject if_False if_True)
    ultimately show thesis by (intro no_answer [of source "''no_answer''" "[]" No_strategy table]) (simp_all add: r_def table)
  next
    case go
    then have run: "answer_from_corpus st w request sid q r version source key (db\<lparr>ad_cache := table\<rparr>) = (Inr (resp, db'), reports)"
      using ask by (simp only: if_not_P [OF False] if_not_P [OF go(1)] go(2) option.case if_not_P [OF go(3)] if_False)
    obtain result reps where s: "search_corpus st w db First_search (default_retriever st w version) r (ro_query r) (ro_intent r) = (Inr result, reps)"
      using run by (auto simp: answer_from_corpus_def Let_def split: prod.splits sum.splits)
    show thesis
    proof (cases "rr_hits result = []")
      case True
      with run s have "(if ro_globally r then respond_unsupported st w request sid q (ro_domain r) (db\<lparr>ad_cache := table\<rparr>)
          else respond_no_answer st w request sid q (ro_domain r) (ro_intent r) source ''weak_evidence'' [] Hybrid_reranked
                 (db\<lparr>ad_cache := table\<rparr>)) = Inr (resp, db')" and x: "reps = reports" "rr_degrade result \<noteq> Arm_unavailable"
        by (auto simp: answer_from_corpus_def split: if_splits)
      moreover have "0 < ao_top_k st \<Longrightarrow> \<not> embedder_failed reports"
        using search_failed [OF s _ True] x by blast
      moreover have "ro_globally r \<Longrightarrow> ro_intent r = Unsupported_intent" by (simp add: r_def route_question_def Let_def)
      ultimately show thesis
        by (cases "ro_globally r") (auto simp: r_def table intro: refused no_answer)
    next
      case False
      with run s obtain answer where g: "generate st w First_answer (ro_query r) (rr_hits result) (ro_multi r) = Inr answer"
        by (auto simp: answer_from_corpus_def Let_def split: sum.splits)
      define first where "first = \<lparr>at_evidence = rr_hits result, at_degrade = rr_degrade result, at_text = answer,
        at_validation = validate_citations answer (length (rr_hits result)), at_strategy = strategy_for (ro_intent r) (rr_hits result)\<rparr>"
      show thesis
      proof (cases "cr_valid (validate_citations answer (length (rr_hits result)))")
        case bad: False
        have "respond_validation_failed st w request sid q (ro_domain r) (ro_intent r) source
            (out_of_range_reason (validate_citations answer (length (rr_hits result))) (length (rr_hits result)))
            (rr_hits result) (strategy_for (ro_intent r) (rr_hits result)) (db\<lparr>ad_cache := table\<rparr>) = Inr (resp, db')"
          using run s False g bad by (simp add: answer_from_corpus_def Let_def)
        then show thesis unfolding r_def by (rule invalid [OF _ False table(2)])
      next
        case True
        then have "attempted st w db r version first"
          by (intro attemptedI [OF s False]) (use g in \<open>simp_all add: first_def\<close>)
        then have a: "attempted st w (db\<lparr>ad_cache := table\<rparr>) r version first" by (simp add: attempted_def)
        obtain reps' where f: "finish_answer st w request sid q r source key (default_retriever st w version) first
            (db\<lparr>ad_cache := table\<rparr>) = (Inr (resp, db'), reps')"
          using run s False g True by (auto simp: answer_from_corpus_def Let_def first_def split: prod.splits)
        show thesis
        proof (cases rule: finish_answer_cases [OF f a])
          case (1 reason evidence strat)
          then show thesis by (intro no_answer [of source reason evidence strat table]) (auto simp: r_def table)
        next
          case (2 a)
          then show thesis
            by (intro served [OF vs, of a table]) (simp_all add: r_def key_def attempted_def table)
        qed
      qed
    qed
  qed
qed

section \<open>The record of a turn\<close>

text \<open>What every end writes: the two messages with the evidence, and one audit row for the owner.\<close>

definition written :: "answer_settings \<Rightarrow> 'v world \<Rightarrow> string \<Rightarrow> string \<Rightarrow> answer_db \<Rightarrow> answer_response \<Rightarrow> answer_db \<Rightarrow> bool" where
  "written st w sid q db resp db' \<longleftrightarrow>
     (\<exists>d i evidence user db1 audit_row.
        persist_messages st w sid q (strip q) d i (rs_answer resp) evidence (rs_citations resp) db = Inr (user, db1)
        \<and> rs_domain resp = domain_value d \<and> rs_intent resp = intent_value i \<and> rs_message resp = Some (wo_assistant_msg w)
        \<and> db'\<lparr>ad_cache := []\<rparr> = db1\<lparr>ad_cache := [], ad_audits := ad_audits db1 @ [audit_row]\<rparr>
        \<and> aa_user audit_row = user \<and> aa_session audit_row = sid \<and> aa_message audit_row = wo_assistant_msg w
        \<and> aa_domain audit_row = rs_domain resp \<and> aa_intent audit_row = rs_intent resp)"

lemma writtenI:
  assumes "persist_messages st w sid q (strip q) d i (rs_answer resp) evidence (rs_citations resp) db = Inr (user, db1)"
    and "db'\<lparr>ad_cache := []\<rparr> = db1\<lparr>ad_cache := [], ad_audits := ad_audits db'\<rparr>"
    and "ad_audits db' = ad_audits db1 @ [\<lparr>aa_user = user, aa_request = request, aa_session = sid, aa_message = wo_assistant_msg w,
        aa_domain = domain_value d, aa_intent = intent_value i, aa_outcome = outcome, aa_extra = extra\<rparr>]"
    and "rs_domain resp = domain_value d" "rs_intent resp = intent_value i" "rs_message resp = Some (wo_assistant_msg w)"
  shows "written st w sid q db resp db'"
  unfolding written_def
  by (rule exI [of _ d], rule exI [of _ i], rule exI [of _ evidence], rule exI [of _ user], rule exI [of _ db1],
      rule exI [of _ "\<lparr>aa_user = user, aa_request = request, aa_session = sid, aa_message = wo_assistant_msg w,
        aa_domain = domain_value d, aa_intent = intent_value i, aa_outcome = outcome, aa_extra = extra\<rparr>"])
    (use assms in simp)

lemma no_answer_sel [simp]:
  "rs_answer (build_no_answer_response request dv i reason copy msg strat sgs) = copy"
  "rs_citations (build_no_answer_response request dv i reason copy msg strat sgs) = []"
  "rs_domain (build_no_answer_response request dv i reason copy msg strat sgs) = dv"
  "rs_intent (build_no_answer_response request dv i reason copy msg strat sgs) = intent_value i"
  "rs_message (build_no_answer_response request dv i reason copy msg strat sgs) = msg"
  "rs_no_answer (build_no_answer_response request dv i reason copy msg strat sgs)"
  "\<not> rs_cache_hit (build_no_answer_response request dv i reason copy msg strat sgs)"
  "rs_docs_as_of (build_no_answer_response request dv i reason copy msg strat sgs) = None"
  "rs_confidence (build_no_answer_response request dv i reason copy msg strat sgs) = None_confidence"
  "rs_unsupported (build_no_answer_response request dv i reason copy msg strat sgs)
     \<longleftrightarrow> reason = ''unsupported'' \<or> reason \<notin> set no_answer_reasons"
  "rs_suggestions (build_no_answer_response request dv i reason copy msg strat sgs) = sgs"
  by (auto simp: build_no_answer_response_def Let_def)

lemma ends_written:
  "respond_unsupported st w request sid q d db = Inr (resp, db') \<Longrightarrow> written st w sid q db resp db'"
  "respond_greeting st w request sid q db = Inr (resp, db') \<Longrightarrow> written st w sid q db resp db'"
  "respond_cache_hit st w request sid q d i c db = Inr (resp, db') \<Longrightarrow> written st w sid q db resp db'"
  "respond_no_answer st w request sid q d i source reason evidence strat db = Inr (resp, db') \<Longrightarrow> written st w sid q db resp db'"
  "respond_validation_failed st w request sid q d i source reason evidence strat db = Inr (resp, db') \<Longrightarrow> written st w sid q db resp db'"
  "persist_and_respond st w request sid q d i answer cs evidence strat source conf key nk degrade db = Inr (resp, db')
     \<Longrightarrow> written st w sid q db resp db'"
  by (auto simp: respond_unsupported_def respond_greeting_def respond_cache_hit_def respond_no_answer_def
      respond_validation_failed_def persist_and_respond_def Let_def and_then_Inr_iff persist_audit_def intro!: writtenI)

lemma ask_written:
  assumes "ask sha st w request sid q db = (Inr (resp, db'), reports)"
  obtains table where "table \<in> tables_read sha st w db sid q" "written st w sid q (db\<lparr>ad_cache := table\<rparr>) resp db'"
  using assms
proof (cases rule: ask_cases)
  case greeting
  then show thesis using that [of "ad_cache db"] by (simp add: ends_written tables_read_def)
qed (blast intro: that ends_written)+

text \<open>C33: A turn is written whole or not at all. When \<open>ask\<close> returns, whatever the branch, the session
  still existed at the moment its row was locked, exactly two messages of it were added, first the
  user's question as typed and then the assistant's answer as returned, strictly later, under the
  returned message id and with the returned citations; the retrieval trace belongs to the question,
  one audit row names the owner of the session and the answer, and no other row of the database
  changed but the answer cache.\<close>
theorem turn_is_written_whole:
  assumes "ask sha st w request sid q db = (Inr (resp, db'), reports)" and "\<not> ao_create_missing st"
  shows "\<exists>table\<in>tables_read sha st w db sid q. \<exists>before owner asked answered evs log.
    before = wo_others w (db\<lparr>ad_cache := table\<rparr>) \<and> tget se_id (ad_sessions before) sid = Some owner
    \<and> db' = before\<lparr>ad_messages := ad_messages before @ [asked, answered], ad_evidence := ad_evidence before @ evs,
        ad_audits := ad_audits before @ [log], ad_cache := ad_cache db'\<rparr>
    \<and> me_session asked = sid \<and> me_from_user asked \<and> me_content asked = q \<and> me_citations asked = None
    \<and> me_session answered = sid \<and> \<not> me_from_user answered \<and> me_content answered = rs_answer resp
    \<and> me_created asked < me_created answered \<and> rs_message resp = Some (me_id answered)
    \<and> me_citations answered = (if rs_citations resp = [] then None else Some (rs_citations resp))
    \<and> me_domain answered = rs_domain resp \<and> me_intent answered = rs_intent resp
    \<and> (\<forall>e\<in>set evs. ev_message e = me_id asked)
    \<and> aa_user log = se_user owner \<and> aa_session log = sid \<and> aa_message log = me_id answered"
proof -
  from ask_written [OF assms(1)] obtain table where t: "table \<in> tables_read sha st w db sid q"
    and w: "written st w sid q (db\<lparr>ad_cache := table\<rparr>) resp db'" .
  then obtain d i evidence user db1 log where
    p: "persist_messages st w sid q (strip q) d i (rs_answer resp) evidence (rs_citations resp) (db\<lparr>ad_cache := table\<rparr>) = Inr (user, db1)"
    and v: "rs_domain resp = domain_value d" "rs_intent resp = intent_value i" "rs_message resp = Some (wo_assistant_msg w)"
    and e: "db'\<lparr>ad_cache := []\<rparr> = db1\<lparr>ad_cache := [], ad_audits := ad_audits db1 @ [log]\<rparr>"
    and l: "aa_user log = user" "aa_session log = sid" "aa_message log = wo_assistant_msg w"
    unfolding written_def by blast
  from persist_messages_Inr [OF p] obtain db0 cited where
    u: "ensure_user st sid (wo_others w (db\<lparr>ad_cache := table\<rparr>)) = Inr (user, db0)"
    and db1: "db1 = db0\<lparr>ad_messages := ad_messages db0 @
       [\<lparr>me_id = wo_user_msg w, me_session = sid, me_from_user = True, me_content = q, me_normalized = strip q,
         me_domain = domain_value d, me_intent = intent_value i, me_created = wo_user_at w, me_citations = None\<rparr>,
        \<lparr>me_id = wo_assistant_msg w, me_session = sid, me_from_user = False, me_content = rs_answer resp, me_normalized = strip q,
         me_domain = domain_value d, me_intent = intent_value i, me_created = max (wo_assistant_at w) (wo_user_at w + 1),
         me_citations = (if rs_citations resp = [] then None else Some (rs_citations resp))\<rparr>],
      ad_evidence := ad_evidence db0 @ evidence_trace (wo_user_msg w) cited evidence\<rparr>" .
  from u assms(2) obtain owner where o: "tget se_id (ad_sessions (wo_others w (db\<lparr>ad_cache := table\<rparr>))) sid = Some owner"
    "user = se_user owner" "db0 = wo_others w (db\<lparr>ad_cache := table\<rparr>)"
    by (auto simp: ensure_user_def split: option.splits if_splits)
  have "db' = db1\<lparr>ad_audits := ad_audits db1 @ [log], ad_cache := ad_cache db'\<rparr>"
    using arg_cong [OF e, of "\<lambda>x. x\<lparr>ad_cache := ad_cache db'\<rparr>"] by simp
  with o l v show ?thesis
    unfolding db1
    by (intro bexI [OF _ t] exI [of _ "wo_others w (db\<lparr>ad_cache := table\<rparr>)"] exI [of _ owner]
        exI [of _ "\<lparr>me_id = wo_user_msg w, me_session = sid, me_from_user = True, me_content = q, me_normalized = strip q,
          me_domain = domain_value d, me_intent = intent_value i, me_created = wo_user_at w, me_citations = None\<rparr>"]
        exI [of _ "\<lparr>me_id = wo_assistant_msg w, me_session = sid, me_from_user = False, me_content = rs_answer resp,
          me_normalized = strip q, me_domain = domain_value d, me_intent = intent_value i,
          me_created = max (wo_assistant_at w) (wo_user_at w + 1),
          me_citations = (if rs_citations resp = [] then None else Some (rs_citations resp))\<rparr>"]
        exI [of _ "evidence_trace (wo_user_msg w) cited evidence"] exI [of _ log])
      (simp add: evidence_trace_def)
qed

section \<open>A served answer has a card for its markers\<close>

lemma find_markers_head:
  "find_markers (c # s) \<noteq> [] \<longleftrightarrow>
     (\<exists>d r. c = CHR ''['' \<and> d \<noteq> [] \<and> list_all is_digit d \<and> s = d @ '']'' @ r) \<or> find_markers s \<noteq> []"
proof (cases "find_markers s = []")
  case True
  let ?d = "takeWhile is_digit s"
  have "take 1 (drop (length ?d) s) = '']'' \<longleftrightarrow> (\<exists>r. s = ?d @ '']'' @ r)"
    by (cases "drop (length ?d) s") (metis append_take_drop_id length_takeWhile_le takeWhile_eq_take append_Cons append_Nil
      append_eq_conv_conj list.distinct(1) list.inject take_Nil take_Suc_Cons One_nat_def take0)+
  moreover have "list_all is_digit ?d" by (auto simp: list_all_iff dest: set_takeWhileD)
  moreover have "list_all is_digit d \<Longrightarrow> s = d @ '']'' @ r \<Longrightarrow> ?d = d" for d r
    by (auto simp: list_all_iff is_digit_def takeWhile_append2)
  ultimately have *: "(\<exists>d r. d \<noteq> [] \<and> list_all is_digit d \<and> s = d @ '']'' @ r) \<longleftrightarrow> ?d \<noteq> [] \<and> take 1 (drop (length ?d) s) = '']''"
    by metis
  have "find_markers (c # s) \<noteq> [] \<longleftrightarrow> c = CHR ''['' \<and> ?d \<noteq> [] \<and> take 1 (drop (length ?d) s) = '']''"
    using True by (simp add: Let_def)
  then show ?thesis using True * by simp
qed (simp add: Let_def)

lemma expand_line_markers:
  "is_mask m l \<Longrightarrow> find_markers l \<noteq> [] \<Longrightarrow> find_markers (expand_line l m) \<noteq> []"
proof (induction l arbitrary: m rule: length_induct)
  case (1 l)
  from is_mask_length [OF 1(2)] show ?case
  proof (cases rule: expand_line_cases)
    case nil
    with 1(3) show ?thesis by simp
  next
    case (char c l' d m')
    have m': "is_mask m' l'" using 1(2) char by (simp add: is_mask_def)
    from 1(3) char(1) find_markers_head [of c l'] consider (here) d r where "c = CHR ''[''" "d \<noteq> []" "list_all is_digit d" "l' = d @ '']'' @ r"
      | (later) "find_markers l' \<noteq> []" by auto
    then show ?thesis
    proof cases
      case here
      have n: "\<forall>x\<in>set (d @ '']''). x \<noteq> CHR ''[''" using here(3) by (auto simp: list_all_iff is_digit_def)
      let ?x = "expand_line l' m'"
      have "takeWhile (\<lambda>c. c \<noteq> CHR ''['') ?x = (d @ '']'') @ takeWhile (\<lambda>c. c \<noteq> CHR ''['') r"
        using expand_line_prefix [OF m'] takeWhile_append2 [of "d @ '']''" "\<lambda>c. c \<noteq> CHR ''[''" r] n here(4) by simp
      then obtain t where "?x = d @ '']'' @ t" by (metis append.assoc takeWhile_dropWhile_id)
      with here show ?thesis using find_markers_head [of c ?x] char(5) by auto
    next
      case later
      with 1(1) m' char have "find_markers (expand_line l' m') \<noteq> []" by simp
      with char(5) find_markers_head [of c] show ?thesis by simp
    qed
  next
    case (group g ds m' u l')
    then obtain e es where "ds = e # es" "e \<noteq> []" "list_all is_digit e" by (cases ds) (auto simp: is_group_def)
    then have "show_markers ds @ expand_line l' m' = CHR ''['' # e @ '']'' @ (show_markers es @ expand_line l' m')"
      by (simp add: show_markers_def)
    with group(7) show ?thesis using find_markers_head [of "CHR ''[''" "e @ '']'' @ (show_markers es @ expand_line l' m')"]
        \<open>e \<noteq> []\<close> \<open>list_all is_digit e\<close> by auto
  qed
qed

lemma find_markers_lines: "find_markers (join_on newline ls) \<noteq> [] \<longleftrightarrow> (\<exists>l\<in>set ls. find_markers l \<noteq> [])"
proof (induction newline ls rule: join_on.induct)
  case (3 p q ps)
  have "quiet newline" by (simp add: quiet_def newline_def is_digit_def code_mask_def)
  with 3 show ?case by (simp add: find_markers_cut)
qed simp_all

lemma expansion_keeps_a_marker:
  assumes "find_markers s \<noteq> []"
  shows "find_markers (expand_grouped_markers s) \<noteq> []"
proof -
  let ?ls = "split_on newline s" and ?ms = "strip_lines True None (split_on newline s)"
  have mask: "list_all2 is_mask ?ms ?ls" by (rule strip_lines_mask)
  from assms obtain l where "l \<in> set ?ls" "find_markers l \<noteq> []"
    using find_markers_lines [of ?ls] by auto
  then obtain i where i: "i < length ?ls" "l = ?ls ! i" by (metis in_set_conv_nth)
  have len: "length ?ms = length ?ls" using mask by (rule list_all2_lengthD)
  have "is_mask (?ms ! i) l" using mask i by (simp add: list_all2_nthD2)
  then have "find_markers (expand_one l (?ms ! i)) \<noteq> []"
    using expand_line_markers \<open>find_markers l \<noteq> []\<close> by (simp add: expand_one_def)
  moreover have "expand_one l (?ms ! i) \<in> set (map2 expand_one ?ls ?ms)"
    using i len by (auto simp: set_zip intro!: image_eqI [of _ _ "(l, ?ms ! i)"])
  ultimately show ?thesis unfolding expand_grouped_markers_def Let_def find_markers_lines by blast
qed

lemma sublist_rstrip:
  assumes "sublist w s" and "w \<noteq> []" and "\<not> P (last w)"
  shows "sublist w (rev (dropWhile P (rev s)))"
proof -
  from assms(1) obtain u v where s: "s = u @ w @ v" by (auto simp: sublist_def)
  obtain x y where w: "w = x @ [y]" "\<not> P y" using assms(2,3) by (metis append_butlast_last_id)
  have "\<exists>v'. dropWhile P (rev v @ y # rev x @ rev u) = v' @ y # rev x @ rev u"
    by (cases "\<forall>z\<in>set (rev v). P z") (use w(2) in \<open>auto simp: dropWhile_append\<close>)
  then obtain v' where "dropWhile P (rev s) = v' @ y # rev x @ rev u" by (auto simp: s w(1))
  then have "rev (dropWhile P (rev s)) = u @ w @ rev v'" by (simp add: w(1))
  then show ?thesis by (auto simp: sublist_def)
qed

lemma served_text_shows:
  assumes "m \<in> set (cited_markers (expand_grouped_markers (at_text a)))"
  shows "sublist (''['' @ m @ '']'') (served_text st r a)"
proof -
  let ?answer = "neutralise_evidence_references (expand_grouped_markers (at_text a))"
  have s: "sublist (''['' @ m @ '']'') ?answer"
    using cited_markers_written [OF assms]
    by (subst (asm) rewording_keeps_the_markers_parts(1) [of "expand_grouped_markers (at_text a)", symmetric])
      (simp only: find_markers_iff)
  then have "sublist (''['' @ m @ '']'') (rev (dropWhile py_isspace (rev ?answer)))"
    by (rule sublist_rstrip) (simp_all add: py_isspace_def)
  then have "sublist (''['' @ m @ '']'') (rev (dropWhile py_isspace (rev ?answer)) @ t)" for t
    by (metis append.assoc sublist_def)
  with s show ?thesis by (simp add: served_text_def Let_def)
qed

lemma marked_citation_sel [simp]:
  "jget (marked_citation evidence i) ''chunk_id'' = JStr (rc_id (evidence ! (i - 1)))"
  "jget (marked_citation evidence i) ''marker'' = JInt (int i)"
  by (simp_all add: marked_citation_def chunk_to_citation_def jget_def)

lemma valid_attempt:
  assumes "cr_valid (validate_citations answer n)" and "cr_singly (validate_citations answer n) \<noteq> []"
  shows "\<not> is_no_answer_refusal answer"
    and "cr_cited (validate_citations answer n) = indices (cited_markers (expand_grouped_markers answer))"
    and "\<forall>i\<in>set (cr_cited (validate_citations answer n)). 1 \<le> i \<and> i \<le> n"
    and "cr_cited (validate_citations answer n) \<noteq> []"
proof -
  show r: "\<not> is_no_answer_refusal answer" using assms(2) by (auto simp: validate_citations_def)
  note v = validate_cases [OF r, of n, unfolded Let_def]
  show c: "cr_cited (validate_citations answer n) = indices (cited_markers (expand_grouped_markers answer))" by (simp add: v)
  show "\<forall>i\<in>set (cr_cited (validate_citations answer n)). 1 \<le> i \<and> i \<le> n"
  proof -
    have "\<forall>i\<in>set (indices (cited_markers (expand_grouped_markers answer))) \<union> set (indices (cited_markers answer)). \<not> (i < 1 \<or> i > n)"
      using assms(1) unfolding v by (simp only: citation_result.simps filter_empty_conv set_sorted_list_of_set finite_Un List.finite_set)
    then show ?thesis unfolding c by (meson UnI1 not_less)
  qed
  have "cited_markers answer \<noteq> []" using assms(2) by (auto simp: v indices_def)
  then have "cited_markers (expand_grouped_markers answer) \<noteq> []"
    using expansion_keeps_a_marker cited_markers_empty by metis
  then show "cr_cited (validate_citations answer n) \<noteq> []" unfolding c by (metis set_indices image_is_empty set_empty)
qed

lemma attempted_grounded:
  assumes "attempted st w db r version a" and "scan_ok (wo_scan w)" and "search_ok (wo_search w)"
  shows "\<forall>h\<in>set (at_evidence a). grounded (if version = [] then None else Some version) (ad_corpus db) (core h)"
proof -
  from assms(1) obtain turn query i result reports where s:
    "search_corpus st w db turn (default_retriever st w version) r query i = (Inr result, reports)"
    and e: "at_evidence a = rr_hits result" unfolding attempted_def by blast
  have ok: "retriever_ok (default_retriever st w version)"
    using assms(2,3) by (simp add: retriever_ok_def default_retriever_def)
  have "\<forall>h\<in>set (rr_hits result). grounded (rt_version (default_retriever st w version)) (ad_corpus db) (core h)"
    using s retrieve_multi_grounded [OF ok] retrieve_grounded [OF ok] unfolding search_corpus_def
    by (metis (no_types, lifting) fst_conv)
  then show ?thesis by (simp add: e default_retriever_def)
qed

lemma and_then_persist:
  "persist_and_respond st w request sid q d i answer cs evidence strat source conf key nk degrade db = Inr (resp, db')
     \<Longrightarrow> rs_citations resp = cs \<and> rs_answer resp = answer \<and> rs_confidence resp = conf \<and> rs_source resp = source
       \<and> rs_policy resp = policy_version st \<and> \<not> rs_unsupported resp \<and> \<not> rs_no_answer resp \<and> \<not> rs_cache_hit resp
       \<and> rs_domain resp = domain_value d \<and> rs_intent resp = intent_value i"
  by (auto simp: persist_and_respond_def and_then_Inr_iff Let_def)


section \<open>The model has no say in the routing\<close>

text \<open>The text the deterministic rules route by.\<close>

definition routing_query :: "answer_settings \<Rightarrow> answer_db \<Rightarrow> string \<Rightarrow> string \<Rightarrow> string" where
  "routing_query st db sid q = canonicalize_product_name (if ao_memory st
     then build_contextual_query (canonicalize_self_reference q) (recent_user_questions db sid (ao_recent_turns st))
     else canonicalize_self_reference q)"

definition intent_of :: "string \<Rightarrow> intent" where
  "intent_of query = (if is_unsupported (classify_domain query) then Unsupported_intent else classify_intent query (classify_domain query))"

lemma route_question_sel:
  "ro_domain (route_question st w db sid q) = classify_domain (check_alias st w q (routing_query st db sid q))"
  "ro_multi (route_question st w db sid q) = classify_domains (check_alias st w q (routing_query st db sid q))"
  "ro_intent (route_question st w db sid q) = intent_of (check_alias st w q (routing_query st db sid q))"
  "ro_globally (route_question st w db sid q) \<longleftrightarrow>
     ao_when_grounded st \<and> intent_of (check_alias st w q (routing_query st db sid q)) = Unsupported_intent"
  by (simp_all add: route_question_def routing_query_def intent_of_def Let_def)

lemma intent_of_unsupported: "intent_of query = Unsupported_intent \<longleftrightarrow> classify_domain query = Unsupported"
  by (simp add: intent_of_def is_unsupported_def classify_intent_def)

lemma routing_query_alias [simp]: "routing_query (st\<lparr>ao_alias_check := b\<rparr>) db sid q = routing_query st db sid q"
  by (simp add: routing_query_def)


section \<open>An outage is not a refusal\<close>

lemma refusal_trace:
  "respond_no_answer st w request sid q d i source reason evidence strat db = Inr (resp, db') \<Longrightarrow> \<not> ao_create_missing st
     \<Longrightarrow> \<exists>cited. ad_evidence db' = ad_evidence (wo_others w db) @ evidence_trace (wo_user_msg w) cited evidence"
  "respond_validation_failed st w request sid q d i source reason evidence strat db = Inr (resp, db') \<Longrightarrow> \<not> ao_create_missing st
     \<Longrightarrow> \<exists>cited. ad_evidence db' = ad_evidence (wo_others w db) @ evidence_trace (wo_user_msg w) cited evidence"
  by (auto simp: respond_no_answer_def respond_validation_failed_def and_then_Inr_iff ensure_user_def
      split: option.splits if_splits elim!: persist_messages_Inr)


section \<open>What is cached\<close>

lemma attempted_clean:
  assumes "attempted st w db r version a" and "at_degrade a = No_degrade"
  shows "\<not> (version = [] \<and> ar_state (resolve_active_index (ad_index db)) = Ambiguous)
    \<and> (\<forall>h\<in>set (at_evidence a). \<forall>h'\<in>set (at_evidence a). \<forall>v v'. rc_index h = Some v \<and> rc_index h' = Some v' \<longrightarrow> v = v')"
proof -
  from assms obtain turn query i result reports where s:
    "search_corpus st w db turn (default_retriever st w version) r query i = (Inr result, reports)"
    and e: "at_evidence a = rr_hits result" "rr_degrade result = No_degrade" unfolding attempted_def by metis
  have "whole (default_retriever st w version) (ad_index db) result reports"
    using s e(2) retrieve_multi_clean retrieve_clean unfolding search_corpus_def by (metis (no_types, lifting))
  then have w: "\<not> evidence_spans_indexes (rr_hits result)" "\<not> active_index_ambiguous (default_retriever st w version) (ad_index db)"
    by (simp_all add: whole_def)
  have "\<forall>h\<in>set (rr_hits result). \<forall>h'\<in>set (rr_hits result). \<forall>v v'. rc_index h = Some v \<and> rc_index h' = Some v' \<longrightarrow> v = v'"
    using one_index [OF w(1)] by blast
  with w(2) show ?thesis by (cases "version = []") (simp_all add: active_index_ambiguous_def default_retriever_def e(1))
qed

lemma persist_messages_cache:
  assumes "persist_messages st w sid q normalized d i answer evidence citations db = Inr (user, db1)" and "\<not> ao_create_missing st"
  shows "ad_cache db1 = ad_cache (wo_others w db)"
  by (rule persist_messages_Inr [OF assms(1)]) (use assms(2) in \<open>auto simp: ensure_user_def split: option.splits if_splits\<close>)

definition cached_value :: "answer_settings \<Rightarrow> 'v world \<Rightarrow> answer_response \<Rightarrow> cached_answer" where
  "cached_value st w resp =
     \<lparr>ca_answer = rs_answer resp, ca_citations = rs_citations resp, ca_confidence = rs_confidence resp,
      ca_source = rs_source resp, ca_policy = rs_policy resp, ca_created = wo_write_at w,
      ca_expires = wo_expiry_from w + microseconds (ao_ttl_seconds st)\<rparr>"

lemma persisted_cache:
  assumes "persist_and_respond st w request sid q d i answer cs evidence strat source conf key nk degrade db = Inr (resp, db')"
    and "\<not> ao_create_missing st"
  shows "ad_cache db' = (if degrade = No_degrade
     then backfill_cache_metadata key nk (domain_value d)
            (store_put (ao_cache_enabled st) (wo_write_at w) key (cached_value st w resp) (ad_cache (wo_others w db)))
     else ad_cache (wo_others w db))"
proof -
  from assms(1) obtain user db1 where p: "persist_messages st w sid q (strip q) d i answer evidence cs db = Inr (user, db1)"
    by (auto simp: persist_and_respond_def and_then_Inr_iff)
  have "ad_cache db1 = ad_cache (wo_others w db)" by (rule persist_messages_cache [OF p assms(2)])
  with assms(1) p and_then_persist [OF assms(1)] show ?thesis
    by (auto simp: persist_and_respond_def Let_def cached_value_def)
qed

lemma other_ends_cache:
  assumes "\<not> ao_create_missing st"
  shows "respond_unsupported st w request sid q d db = Inr (resp, db') \<Longrightarrow> ad_cache db' = ad_cache (wo_others w db)"
    "respond_greeting st w request sid q db = Inr (resp, db') \<Longrightarrow> ad_cache db' = ad_cache (wo_others w db)"
    "respond_cache_hit st w request sid q d i c db = Inr (resp, db') \<Longrightarrow> ad_cache db' = ad_cache (wo_others w db)"
    "respond_no_answer st w request sid q d i source reason evidence strat db = Inr (resp, db') \<Longrightarrow> ad_cache db' = ad_cache (wo_others w db)"
    "respond_validation_failed st w request sid q d i source reason evidence strat db = Inr (resp, db')
       \<Longrightarrow> ad_cache db' = ad_cache (wo_others w db)"
  using persist_messages_cache [OF _ assms]
  by (auto simp: respond_unsupported_def respond_greeting_def respond_cache_hit_def respond_no_answer_def
      respond_validation_failed_def Let_def and_then_Inr_iff)

lemma ambiguous_index_has_no_version:
  "retrieve_active_index db = (version, source) \<Longrightarrow> ar_state (resolve_active_index (ad_index db)) = Ambiguous \<Longrightarrow> version = []"
  by (auto simp: retrieve_active_index_def Let_def)


lemma stored_answer_is_read:
  assumes "now < ca_expires v"
  shows "fst (store_get True now key (backfill_cache_metadata key nk area (store_put True t key v table))) = Some (v\<lparr>ca_created := t\<rparr>)"
  using assms by (simp add: store_get_def store_put_def cache_get_fst cache_put_def backfill_cache_metadata_def tget_tput)

definition cache_written :: "answer_db \<Rightarrow> bool" where
  "cache_written db \<longleftrightarrow> (''cache_written'', JBool True) \<in> set (aa_extra (last (ad_audits db)))"

lemma cache_written_iff:
  "respond_unsupported st w request sid q d db = Inr (resp, db') \<Longrightarrow> \<not> cache_written db'"
  "respond_greeting st w request sid q db = Inr (resp, db') \<Longrightarrow> \<not> cache_written db'"
  "respond_cache_hit st w request sid q d i c db = Inr (resp, db') \<Longrightarrow> \<not> cache_written db'"
  "respond_no_answer st w request sid q d i source reason evidence strat db = Inr (resp, db') \<Longrightarrow> \<not> cache_written db'"
  "respond_validation_failed st w request sid q d i source reason evidence strat db = Inr (resp, db') \<Longrightarrow> \<not> cache_written db'"
  "persist_and_respond st w request sid q d i answer cs evidence strat source conf key nk degrade db = Inr (resp, db')
     \<Longrightarrow> cache_written db' \<longleftrightarrow> degrade = No_degrade"
  by (auto simp: respond_unsupported_def respond_greeting_def respond_cache_hit_def respond_no_answer_def
      respond_validation_failed_def persist_and_respond_def Let_def and_then_Inr_iff persist_audit_def cache_written_def)


section \<open>Examples\<close>

definition demo_ask_settings :: answer_settings where
  "demo_ask_settings = \<lparr>ao_memory = True, ao_recent_turns = 4, ao_alias_check = True, ao_provider = ''anthropic'',
     ao_when_grounded = True, ao_comparison = False, ao_max_candidates = 20, ao_top_k = 6, ao_policy = ''v1'',
     ao_cache_enabled = True, ao_ttl_seconds = 60, ao_max_tokens = 500, ao_refusal = ''refused'', ao_fallback = ''no answer'',
     ao_identity = \<lparr>emb_provider = Some ''stub'', emb_model = Some ''m'', emb_dim = Some 3\<rparr>, ao_min_top_score = 1 / 2, ao_min_margin = 0,
     ao_create_missing = False\<rparr>"

definition demo_ask_world :: "string \<Rightarrow> timestamp \<Rightarrow> unit world" where
  "demo_ask_world reply t = \<lparr>wo_read_at = t, wo_user_at = t, wo_assistant_at = t, wo_write_at = t, wo_expiry_from = t,
     wo_user_msg = ''m1'', wo_assistant_msg = ''m2'', wo_prompt = (\<lambda>_. ''''),
     wo_client = (\<lambda>_ _. Inr \<lparr>res_text = reply, res_input = 1, res_output = 1, res_model = ''m'', res_provider = ''p''\<rparr>),
     wo_wired = False, wo_search = (\<lambda>_ _ _. []), wo_scan = id, wo_embeds = (\<lambda>_ _ _. Inr ()), wo_others = id\<rparr>"

definition demo_answer_db :: answer_db where
  "demo_answer_db = \<lparr>ad_users = [''u1''], ad_sessions = [\<lparr>se_id = ''s1'', se_user = ''u1''\<rparr>], ad_messages = [], ad_evidence = [],
     ad_audits = [], ad_cache = [], ad_index = \<lparr>ix_rows = [\<lparr>ix_version = ''v1'', ix_status = Active, ix_source_hash = ''h1'', ix_created = 0,
       ix_promoted = Some 1, ix_run = None, ix_embedder = \<lparr>emb_provider = Some ''stub'', emb_model = Some ''m'', emb_dim = Some 3\<rparr>\<rparr>],
       ix_runs = [], ix_audit = []\<rparr>, ad_corpus = demo_corpus\<lparr>documents := [demo_document ''d1'' ''v1''\<lparr>dc_as_of := None\<rparr>]\<rparr>\<rparr>"

definition demo_asked :: "(ask_error + answer_response \<times> answer_db) \<times> health_report list" where
  "demo_asked = ask id demo_ask_settings (demo_ask_world ''Use it [1].'' 10) ''r'' ''s1'' ''Is a codex tool free?'' demo_answer_db"

lemma demo_asked_served:
  "(case fst demo_asked of Inl _ \<Rightarrow> None
    | Inr (resp, db') \<Rightarrow> Some (rs_no_answer resp, rs_cache_hit resp, rs_intent resp, rs_answer resp, map me_content (ad_messages db'),
        map cw_key (ad_cache db'), aa_extra (last (ad_audits db')) ! 3))
   = Some (False, False, ''faq'', ''Use it [1].'', [''Is a codex tool free?'', ''Use it [1].''],
        [''is a codex tool free?'' @ [key_separator] @ ''codex'' @ [key_separator] @ ''h1'' @ [key_separator] @ ''v1''
           @ [key_separator] @ ''stub|m|3''], (''cache_written'', JBool True))"
  by code_simp

lemma answered_result:
  "(case fst p of Inl e \<Rightarrow> False | Inr (x, y) \<Rightarrow> P x y) \<Longrightarrow> \<exists>x y. p = (Inr (x, y), snd p) \<and> P x y"
  by (cases p) (auto split: sum.splits)

lemma demo_asked_result:
  obtains resp db' reports where "demo_asked = (Inr (resp, db'), reports)" "\<not> rs_no_answer resp" "\<not> rs_cache_hit resp"
    "rs_intent resp = ''faq''" "length (ad_messages db') = 2" "ad_cache db' \<noteq> []"
proof -
  obtain x reports where x: "demo_asked = (x, reports)" by (cases demo_asked)
  from demo_asked_served [unfolded x] obtain resp db' where "x = Inr (resp, db')" by (cases x) auto
  with x have r: "demo_asked = (Inr (resp, db'), reports)" by simp
  from demo_asked_served [unfolded r] have s: "rs_no_answer resp = False" "rs_cache_hit resp = False" "rs_intent resp = ''faq''"
    "map me_content (ad_messages db') = [''Is a codex tool free?'', ''Use it [1].'']" "map cw_key (ad_cache db') \<noteq> []"
    by auto
  from s(4) have "length (ad_messages db') = 2" by (metis length_Cons length_map list.size(3) numeral_2_eq_2)
  with that [OF r] s show thesis by simp
qed

lemma demo_world_ok: "scan_ok (wo_scan (demo_ask_world reply t))" "search_ok (wo_search (demo_ask_world reply t))"
  by (simp_all add: demo_ask_world_def scan_ok_def search_ok_def)

lemma demo_settings_sel [simp]:
  "\<not> ao_create_missing demo_ask_settings" "ao_cache_enabled demo_ask_settings" "ao_top_k demo_ask_settings = 6"
  by (simp_all add: demo_ask_settings_def)

theorem turn_is_written_whole_witness:
  "\<exists>resp db' reports asked answered. demo_asked = (Inr (resp, db'), reports) \<and> ad_messages db' = [asked, answered]
     \<and> me_created asked < me_created answered \<and> me_content answered = rs_answer resp"
proof -
  obtain resp db' reports where r: "demo_asked = (Inr (resp, db'), reports)" "length (ad_messages db') = 2"
    using demo_asked_result by metis
  from turn_is_written_whole [OF r(1) [unfolded demo_asked_def]] obtain table before owner asked answered evs log where
    "db' = before\<lparr>ad_messages := ad_messages before @ [asked, answered], ad_evidence := ad_evidence before @ evs,
        ad_audits := ad_audits before @ [log], ad_cache := ad_cache db'\<rparr>"
    "me_created asked < me_created answered" "me_content answered = rs_answer resp"
    by (auto simp del: length_0_conv)
  moreover from this(1) have "ad_messages db' = ad_messages before @ [asked, answered]" by (metis answer_db.ext_inject answer_db.surjective answer_db.update_convs(3) answer_db.update_convs(4) answer_db.update_convs(5) answer_db.update_convs(6))
  ultimately show ?thesis using r by (intro exI [of _ resp] exI [of _ db'] exI [of _ reports] exI [of _ asked] exI [of _ answered]) auto
qed


definition demo_outage :: "(ask_error + answer_response \<times> answer_db) \<times> health_report list" where
  "demo_outage = ask id demo_ask_settings ((demo_ask_world no_answer_refusal 10)\<lparr>wo_wired := True,
     wo_embeds := (\<lambda>_ _ _. Inl (unavailable Transport_error))\<rparr>) ''r'' ''s1'' ''Is a codex tool free?'' demo_answer_db"



definition demo_again :: "(ask_error + answer_response \<times> answer_db) \<times> health_report list" where
  "demo_again = ask id demo_ask_settings (demo_ask_world ''Something else [2].'' 20) ''r2'' ''s1'' ''  is a CODEX tool free?''
     (case fst demo_asked of Inl _ \<Rightarrow> demo_answer_db | Inr (_, db') \<Rightarrow> db')"


text \<open>
  A question that names no product may still be answered, from a confident search of everything. Its
  response carries the domain \<open>unsupported\<close> while its flag \<open>unsupported\<close> is false.
\<close>

lemma unsupported_domain_of_a_served_answer:
  "(case fst (ask id demo_ask_settings ((demo_ask_world ''Use it [1].'' 10)\<lparr>wo_wired := True,
       wo_search := (\<lambda>_ rows _. map (\<lambda>x. (x, 1 / 10)) (take 1 rows))\<rparr>) ''r'' ''s1'' ''Which tool restricts commands?'' demo_answer_db) of
     Inl _ \<Rightarrow> None
   | Inr (resp, _) \<Rightarrow> Some (rs_domain resp, rs_unsupported resp, rs_no_answer resp, rs_answer resp))
   = Some (''unsupported'', False, False, ''Use it [1].'')"
  by code_simp

end
