(* ===== verification/Exact_Terms.thy ===== *)
theory Exact_Terms
  imports Regex
begin

text \<open>
  The exact-term extractor, \<open>app/worker/exact_terms.py\<close>: eight patterns run over the body of a chunk,
  in their order. The table the terms go to is unique in text, product and chunk, while the extractor
  removes duplicates per text and type, so what the ingestion relies on is that no text is found
  under two types. That is proved here from the patterns' shapes.
\<close>

section \<open>The patterns\<close>

datatype term_type =
    Flag_term | Command_term | Config_key_term | Model_name_term | Api_parameter_term
  | Error_message_term | Environment_variable_term | File_name_term | Slash_command_term

text \<open>Evaluation on the bits of a character.\<close>

lemma is_letter_bits [code]:
  "is_letter (Char b0 b1 b2 b3 b4 b5 b6 b7) =
     (b6 \<and> \<not> b7 \<and> (b0 \<or> b1 \<or> b2 \<or> b3 \<or> b4) \<and> \<not> (b4 \<and> b3 \<and> (b2 \<or> b1 \<and> b0)))"
  by (cases b0; cases b1; cases b2; cases b3; cases b4; cases b5; cases b6; cases b7)
    (simp_all add: is_letter_def)

lemma is_upper_bits [code]:
  "is_upper (Char b0 b1 b2 b3 b4 b5 b6 b7) =
     (b6 \<and> \<not> b5 \<and> \<not> b7 \<and> (b0 \<or> b1 \<or> b2 \<or> b3 \<or> b4) \<and> \<not> (b4 \<and> b3 \<and> (b2 \<or> b1 \<and> b0)))"
  by (cases b0; cases b1; cases b2; cases b3; cases b4; cases b5; cases b6; cases b7)
    (simp_all add: is_upper_def)

lemma is_digit_bits [code]:
  "is_digit (Char b0 b1 b2 b3 b4 b5 b6 b7) = (b5 \<and> b4 \<and> \<not> b6 \<and> \<not> b7 \<and> \<not> (b3 \<and> (b2 \<or> b1)))"
  by (cases b0; cases b1; cases b2; cases b3; cases b4; cases b5; cases b6; cases b7)
    (simp_all add: is_digit_def)

definition is_lower :: "char \<Rightarrow> bool" where
  "is_lower c \<longleftrightarrow> is_letter c \<and> \<not> is_upper c"

definition lower_digit_or :: "string \<Rightarrow> char \<Rightarrow> bool" where
  "lower_digit_or s c \<longleftrightarrow> is_lower c \<or> is_digit c \<or> one_of s c"

definition flag_re :: regex where
  "flag_re = seqs [lit ''--'', Class is_lower, between 1 40 (Class (lower_digit_or ''-''))]"

definition slash_cmd_re :: regex where
  "slash_cmd_re = seqs [Not_behind is_word, Not_behind ((=) (CHR ''/'')), lit ''/'', Class is_lower,
     between 1 40 (Class (lower_digit_or ''-''))]"

definition env_var_re :: regex where
  "env_var_re = seqs [Boundary, Class is_upper,
     between 2 40 (Class (\<lambda>c. is_upper c \<or> is_digit c \<or> c = CHR ''_'')), Boundary]"

definition header_re :: regex where
  "header_re = seqs [Boundary, lit ''x-'', Class is_lower, between 2 30 (Class (lower_digit_or ''-'')),
     lit ''-'', Class is_lower, between 2 30 (Class (lower_digit_or ''-'')), Boundary]"

definition file_name_re :: regex where
  "file_name_re = Alt
     (seqs [Boundary, Class is_lower, between 1 40 (Class (lower_digit_or ''_-'')), lit ''.'',
        between 1 5 (Class (lower_digit_or '''')), Boundary])
     (seqs [Not_ahead Boundary, lit ''.'', Class is_lower, between 1 40 (Class (lower_digit_or ''_-'')),
        Boundary])"

definition api_param_re :: regex where
  "api_param_re = seqs [Boundary, Class is_lower, between 2 30 (Class (lower_digit_or ''_'')), Boundary]"

definition digits_re :: regex where
  "digits_re = plus (Class is_digit)"

definition model_name_re :: regex where
  "model_name_re = alts
     [seqs [Boundary, lit ''claude-'', alts [lit ''opus'', lit ''sonnet'', lit ''haiku''], lit ''-'',
        digits_re, lit ''-'', digits_re],
      seqs [Boundary, lit ''gemini-'', digits_re, lit ''-'', digits_re, lit ''-'',
        alts [lit ''pro'', lit ''flash'']],
      seqs [Boundary, lit ''gpt-'', digits_re, opt (alts [lit ''o'', lit ''pro'', lit ''mini'']), Boundary]]"

definition quote_char :: char where
  "quote_char = CHR 0x22"

definition error_msg_re :: regex where
  "error_msg_re = seqs [Class ((=) quote_char), Class is_lower,
     between 4 60 (Class (lower_digit_or '' _-'')), Class ((=) quote_char)]"

definition pattern_order :: "(regex \<times> term_type) list" where
  "pattern_order =
     [(flag_re, Flag_term), (slash_cmd_re, Slash_command_term), (env_var_re, Environment_variable_term),
      (header_re, Api_parameter_term), (file_name_re, File_name_term), (error_msg_re, Error_message_term),
      (model_name_re, Model_name_term), (api_param_re, Config_key_term)]"

definition non_terms :: "string list" where
  "non_terms = [''THE'', ''AND'', ''FOR'', ''WITH'', ''FROM'', ''INTO'', ''EVERY'', ''EACH'', ''WHEN'',
     ''WHILE'', ''ALSO'', ''ALL'', ''ANY'', ''ARE'', ''NOT'', ''USE'', ''USED'', ''SET'', ''HAS'', ''HAVE'',
     ''THIS'', ''THAT'']"

definition is_meaningful :: "string \<Rightarrow> term_type \<Rightarrow> bool" where
  "is_meaningful word type =
     (if type = Environment_variable_term \<and> word \<in> set non_terms then False
      else \<not> (type = Config_key_term \<and> map upper_char word \<in> set non_terms))"

section \<open>The extraction\<close>

definition re_findall :: "regex \<Rightarrow> string \<Rightarrow> string list" where
  "re_findall r s = map (\<lambda>(a, b). take (b - a) (drop a s)) (re_spans r s)"

definition keep_term :: "term_type \<Rightarrow> string \<Rightarrow> (string \<times> term_type) list \<Rightarrow> (string \<times> term_type) list" where
  "keep_term type word found =
     (if \<not> is_meaningful word type then found
      else if (word, type) \<in> set found then found
      else found @ [(word, type)])"

definition extract_terms :: "string \<Rightarrow> (string \<times> term_type) list" where
  "extract_terms s =
     fold (\<lambda>(r, type) found. fold (keep_term type) (re_findall r s) found) pattern_order []"

section \<open>What a pattern can take\<close>

definition takes :: "regex \<Rightarrow> string \<Rightarrow> bool" where
  "takes r u \<longleftrightarrow> (\<exists>x y. y \<in> set (ends r x) \<and> snd x = u @ snd y)"

fun over :: "(char \<Rightarrow> bool) \<Rightarrow> regex \<Rightarrow> bool" where
  "over P (Class Q) \<longleftrightarrow> (\<forall>c. Q c \<longrightarrow> P c)"
| "over P (Seq a b) \<longleftrightarrow> over P a \<and> over P b"
| "over P (Alt a b) \<longleftrightarrow> over P a \<and> over P b"
| "over P (Star a) \<longleftrightarrow> over P a"
| "over P r \<longleftrightarrow> True"

lemma over_times [simp]: "over P r \<Longrightarrow> over P (times n r)"
  by (induction n) auto

lemma over_up_to [simp]: "over P r \<Longrightarrow> over P (up_to n r)"
  by (induction n) (auto simp: opt_def)

lemma over_between [simp]: "over P r \<Longrightarrow> over P (between n m r)"
  by (simp add: between_def)

lemma over_plus [simp]: "over P (plus r) \<longleftrightarrow> over P r"
  by (auto simp: plus_def)

lemma over_seqs [simp]: "over P (seqs rs) \<longleftrightarrow> (\<forall>r\<in>set rs. over P r)"
  by (induction rs rule: seqs.induct) auto

lemma over_lit [simp]: "over P (lit s) \<longleftrightarrow> (\<forall>c\<in>set s. P c)"
  by (auto simp: lit_def)

lemma over_ends: "over P r \<Longrightarrow> y \<in> set (ends r x) \<Longrightarrow> \<exists>u. snd x = u @ snd y \<and> list_all P u"
proof (induction r x arbitrary: y rule: ends.induct)
  case (3 a b x)
  then obtain z where z: "z \<in> set (ends a x)" "y \<in> set (ends b z)" by auto
  then obtain u v where "snd x = u @ snd z" "list_all P u" "snd z = v @ snd y" "list_all P v"
    using 3 by (metis over.simps(2))
  then show ?case by (intro exI [of _ "u @ v"]) simp
next
  case (5 a x)
  show ?case
  proof (cases "y = x")
    case False
    then obtain z where z: "z \<in> set (ends a x)" "length (snd z) < length (snd x)" "y \<in> set (ends (Star a) z)"
      using 5(4) by (auto simp: ends.simps(5) [of a x] split: if_splits)
    have "over P a" using 5(3) by simp
    then obtain u where u: "snd x = u @ snd z" "list_all P u" using 5(1) z(1) by blast
    obtain v where v: "snd z = v @ snd y" "list_all P v" using 5(2) 5(3) z by blast
    from u v show ?thesis by (intro exI [of _ "u @ v"]) simp
  qed (auto intro: exI [of _ "[]"])
qed (auto split: list.splits if_splits)

lemma over_takes: "over P r \<Longrightarrow> takes r u \<Longrightarrow> list_all P u"
  unfolding takes_def using over_ends by fastforce

lemma takes_Class: "takes (Class P) u \<Longrightarrow> \<exists>c. u = [c] \<and> P c"
proof -
  assume "takes (Class P) u"
  then obtain x y where y: "y \<in> set (ends (Class P) x)" and x: "snd x = u @ snd y"
    unfolding takes_def by blast
  from y obtain c s where c: "snd x = c # s" by (cases "snd x") simp_all
  with y have "snd x = [c] @ snd y" "P c" by (simp_all split: if_splits)
  with x have "u @ snd y = [c] @ snd y" by simp
  then have "u = [c]" by (rule append_same_eq [THEN iffD1])
  with \<open>P c\<close> show ?thesis by blast
qed

lemma takes_Seq: "takes (Seq a b) u \<Longrightarrow> \<exists>v w. u = v @ w \<and> takes a v \<and> takes b w"
proof -
  assume "takes (Seq a b) u"
  then obtain x y z where z: "z \<in> set (ends a x)" "y \<in> set (ends b z)" "snd x = u @ snd y"
    unfolding takes_def by auto
  from ends_advance [OF z(1)] obtain v where v: "snd x = v @ snd z" by (elim exE conjE)
  from ends_advance [OF z(2)] obtain w where w: "snd z = w @ snd y" by (elim exE conjE)
  from v w z(3) have "u @ snd y = (v @ w) @ snd y" by simp
  then have "u = v @ w" by (rule append_same_eq [THEN iffD1])
  moreover have "takes a v" "takes b w" unfolding takes_def using z v w by blast+
  ultimately show ?thesis by blast
qed

lemma takes_Alt [simp]: "takes (Alt a b) u \<longleftrightarrow> takes a u \<or> takes b u"
  unfolding takes_def by auto

lemma takes_empty_ways [dest]:
  "takes Eps u \<Longrightarrow> u = []" "takes Boundary u \<Longrightarrow> u = []" "takes (Not_behind P) u \<Longrightarrow> u = []"
  "takes (Not_ahead a) u \<Longrightarrow> u = []"
proof -
  show "takes (Not_behind P) u \<Longrightarrow> u = []"
    unfolding takes_def by (elim exE conjE) (simp split: list.splits if_splits)
qed (auto simp: takes_def split: if_splits)

lemma takes_seqs_Cons:
  "takes (seqs (r # rs)) u \<Longrightarrow> \<exists>v w. u = v @ w \<and> takes r v \<and> takes (seqs rs) w"
proof (cases rs)
  case Nil
  assume "takes (seqs (r # rs)) u"
  moreover have "takes Eps []" unfolding takes_def by (intro exI [of _ "([], [])"]) simp
  ultimately show ?thesis using Nil by auto
qed (use takes_Seq in auto)

lemma takes_lit: "takes (lit s) u \<Longrightarrow> u = s"
proof (induction s arbitrary: u)
  case (Cons c s)
  then show ?case
    using takes_seqs_Cons [of "Class ((=) c)" "map (\<lambda>c. Class ((=) c)) s" u]
    by (force simp: lit_def dest: takes_Class)
qed (auto simp: lit_def)

lemma find_from_takes: "find_from r p s = Some (i, n) \<Longrightarrow> takes r (take n (drop i s))"
proof -
  assume f: "find_from r p s = Some (i, n)"
  from find_from_match [OF f] obtain y ys
    where y: "ends r (rev (take i s) @ p, drop i s) = y # ys" "n = length (drop i s) - length (snd y)"
    by (auto simp: match_here_def split: list.splits)
  then have "y \<in> set (ends r (rev (take i s) @ p, drop i s))" by simp
  then obtain u where "drop i s = u @ snd y" using ends_advance by fastforce
  with y show ?thesis
    unfolding takes_def by (intro exI [of _ "(rev (take i s) @ p, drop i s)"] exI [of _ y]) simp
qed

lemma spans_from_takes:
  "(a, b) \<in> set (spans_from r pos p s) \<Longrightarrow> pos \<le> a \<and> takes r (take (b - a) (drop (a - pos) s))"
proof (induction r pos p s rule: spans_from.induct)
  case (1 r pos p s)
  obtain i n where f: "find_from r p s = Some (i, n)"
    using 1(2) by (cases "find_from r p s") (simp_all add: spans_from.simps [of r pos p s], blast)
  let ?k = "max 1 (i + n)"
  consider "a = pos + i" "b = pos + i + n"
    | "s \<noteq> []" "(a, b) \<in> set (spans_from r (pos + ?k) (rev (take ?k s) @ p) (drop ?k s))"
    using 1(2) f by (simp add: spans_from.simps [of r pos p s] Let_def split: if_splits) blast+
  then show ?case
  proof cases
    case 1
    then show ?thesis using find_from_takes [OF f] by simp
  next
    case 2
    have "pos + ?k \<le> a \<and> takes r (take (b - a) (drop (a - (pos + ?k)) (drop ?k s)))"
      by (rule 1(1) [OF f refl refl 2(1) 2(2)])
    then show ?thesis by (auto simp: add.commute)
  qed
qed

lemma re_findall_takes: "w \<in> set (re_findall r s) \<Longrightarrow> takes r w"
  unfolding re_findall_def re_spans_def using spans_from_takes by fastforce

section \<open>No text has two types\<close>

definition shape :: "string \<Rightarrow> term_type" where
  "shape w =
     (if hd w = CHR ''-'' then Flag_term
      else if hd w = CHR ''/'' then Slash_command_term
      else if is_upper (hd w) then Environment_variable_term
      else if hd w = quote_char then Error_message_term
      else if CHR ''.'' \<in> set w then File_name_term
      else if CHR ''-'' \<in> set w then (if hd w = CHR ''x'' then Api_parameter_term else Model_name_term)
      else Config_key_term)"

lemmas takes_parts = takes_Class takes_lit takes_empty_ways

lemma takes_tail: "takes (seqs rs) u \<Longrightarrow> (\<forall>r\<in>set rs. over P r) \<Longrightarrow> list_all P u"
  using over_takes [of P "seqs rs" u] by simp

lemma takes_flag: "takes flag_re w \<Longrightarrow> shape w = Flag_term"
  unfolding flag_re_def by (drule takes_seqs_Cons) (auto dest!: takes_parts simp: shape_def is_upper_def quote_char_def)

lemma takes_slash_cmd: "takes slash_cmd_re w \<Longrightarrow> shape w = Slash_command_term"
  unfolding slash_cmd_re_def
  by (drule takes_seqs_Cons, elim exE conjE, drule takes_seqs_Cons, elim exE conjE, drule takes_seqs_Cons)
    (auto dest!: takes_parts simp: shape_def is_upper_def quote_char_def)

text \<open>A pattern that starts at a word boundary: what is left of it starts the text.\<close>

lemma takes_at_boundary: "takes (seqs (Boundary # rs)) w \<Longrightarrow> takes (seqs rs) w"
  by (drule takes_seqs_Cons) (auto dest!: takes_parts)

lemma takes_env_var: "takes env_var_re w \<Longrightarrow> shape w = Environment_variable_term"
  unfolding env_var_re_def
  by (drule takes_at_boundary, drule takes_seqs_Cons)
    (auto dest!: takes_parts simp: shape_def is_upper_def quote_char_def)

lemma takes_error_msg: "takes error_msg_re w \<Longrightarrow> shape w = Error_message_term"
  unfolding error_msg_re_def
  by (drule takes_seqs_Cons) (auto dest!: takes_parts simp: shape_def is_upper_def quote_char_def)

lemma is_lower_facts:
  "is_lower c \<Longrightarrow> \<not> is_upper c \<and> c \<noteq> CHR ''-'' \<and> c \<noteq> CHR ''/'' \<and> c \<noteq> CHR ''.'' \<and> c \<noteq> quote_char"
  by (auto simp: is_lower_def is_letter_def is_upper_def quote_char_def)

lemma lower_digit_or_punct [simp]:
  "lower_digit_or s (CHR ''.'') \<longleftrightarrow> CHR ''.'' \<in> set s"
  "lower_digit_or s (CHR ''-'') \<longleftrightarrow> CHR ''-'' \<in> set s"
  by (simp_all add: lower_digit_or_def is_lower_def is_letter_def is_digit_def one_of_def)

text \<open>Every text of a pattern avoids a character none of its classes has.\<close>

lemma takes_avoids: "over (\<lambda>d. d \<noteq> c) r \<Longrightarrow> takes r u \<Longrightarrow> c \<notin> set u"
  using over_takes [of "\<lambda>d. d \<noteq> c" r u] by (auto simp: list_all_iff)

lemma takes_api_param: "takes api_param_re w \<Longrightarrow> shape w = Config_key_term"
proof -
  assume t: "takes api_param_re w"
  have "CHR ''.'' \<notin> set w"
    by (rule takes_avoids [OF _ t]) (auto simp: api_param_re_def intro!: over_between dest: is_lower_facts)
  moreover have "CHR ''-'' \<notin> set w"
    by (rule takes_avoids [OF _ t]) (auto simp: api_param_re_def intro!: over_between dest: is_lower_facts)
  moreover have "is_lower (hd w)"
    using takes_seqs_Cons [OF takes_at_boundary [OF t [unfolded api_param_re_def]]] by (auto dest!: takes_parts)
  ultimately show ?thesis using is_lower_facts [of "hd w"] by (simp add: shape_def)
qed

lemma takes_header: "takes header_re w \<Longrightarrow> shape w = Api_parameter_term"
proof -
  assume t: "takes header_re w"
  have "CHR ''.'' \<notin> set w"
    by (rule takes_avoids [OF _ t]) (auto simp: header_re_def intro!: over_between dest: is_lower_facts)
  moreover have "\<exists>v. w = ''x-'' @ v"
    using takes_seqs_Cons [OF takes_at_boundary [OF t [unfolded header_re_def]]] by (auto dest!: takes_parts)
  ultimately show ?thesis by (auto simp: shape_def is_upper_def quote_char_def)
qed

lemma takes_file_name: "takes file_name_re w \<Longrightarrow> shape w = File_name_term"
  unfolding file_name_re_def takes_Alt
proof (elim disjE)
  assume "takes (seqs [Boundary, Class is_lower, between 1 40 (Class (lower_digit_or ''_-'')), lit ''.'',
      between 1 5 (Class (lower_digit_or '''')), Boundary]) w"
  from takes_seqs_Cons [OF takes_at_boundary [OF this]] obtain c v
    where c: "is_lower c" "w = c # v"
      "takes (seqs [between 1 40 (Class (lower_digit_or ''_-'')), lit ''.'',
        between 1 5 (Class (lower_digit_or '''')), Boundary]) v"
    by (auto dest!: takes_parts)
  from takes_seqs_Cons [OF c(3)] obtain u t where "v = u @ t"
      "takes (seqs [lit ''.'', between 1 5 (Class (lower_digit_or '''')), Boundary]) t" by blast
  moreover from takes_seqs_Cons [OF this(2)] obtain t' where "t = ''.'' @ t'"
    by (auto dest!: takes_parts simp del: seqs.simps)
  ultimately have "CHR ''.'' \<in> set v" by simp
  with c show ?thesis using is_lower_facts [of c] by (simp add: shape_def)
next
  assume "takes (seqs [Not_ahead Boundary, lit ''.'', Class is_lower,
      between 1 40 (Class (lower_digit_or ''_-'')), Boundary]) w"
  from takes_seqs_Cons [OF this] obtain v where "takes (seqs [lit ''.'', Class is_lower,
      between 1 40 (Class (lower_digit_or ''_-'')), Boundary]) v" "w = v"
    by (auto dest!: takes_parts simp del: seqs.simps)
  from takes_seqs_Cons [OF this(1)] this(2) obtain t where "w = CHR ''.'' # t"
    by (auto dest!: takes_parts simp del: seqs.simps)
  then show ?thesis by (simp add: shape_def is_upper_def quote_char_def)
qed

lemma takes_model_name: "takes model_name_re w \<Longrightarrow> shape w = Model_name_term"
proof -
  assume t: "takes model_name_re w"
  have d: "is_digit c \<Longrightarrow> c \<noteq> CHR ''.''" for c by (auto simp: is_digit_def)
  have "CHR ''.'' \<notin> set w"
    by (rule takes_avoids [OF _ t]) (auto simp: model_name_re_def digits_re_def opt_def dest: d)
  moreover have "(\<exists>v. w = ''claude-'' @ v) \<or> (\<exists>v. w = ''gemini-'' @ v) \<or> (\<exists>v. w = ''gpt-'' @ v)"
    using t unfolding model_name_re_def alts.simps takes_Alt
    by (elim disjE) (drule takes_at_boundary, drule takes_seqs_Cons, force dest!: takes_lit)+
  ultimately show ?thesis by (auto simp: shape_def is_upper_def quote_char_def)
qed

lemma found_shape: "(r, type) \<in> set pattern_order \<Longrightarrow> takes r w \<Longrightarrow> shape w = type"
  unfolding pattern_order_def
  by (auto intro: takes_flag takes_slash_cmd takes_env_var takes_header takes_file_name takes_error_msg
      takes_model_name takes_api_param)

definition sound_terms :: "(string \<times> term_type) list \<Rightarrow> bool" where
  "sound_terms found \<longleftrightarrow> distinct found \<and> (\<forall>(w, type)\<in>set found. shape w = type)"

lemma sound_keep_term: "sound_terms found \<Longrightarrow> shape w = type \<Longrightarrow> sound_terms (keep_term type w found)"
  by (auto simp: sound_terms_def keep_term_def)

lemma sound_fold_keep:
  "sound_terms found \<Longrightarrow> (\<forall>w\<in>set ws. shape w = type) \<Longrightarrow> sound_terms (fold (keep_term type) ws found)"
  by (induction ws arbitrary: found) (auto intro: sound_keep_term)

lemma sound_patterns:
  "sound_terms found \<Longrightarrow> (\<forall>(r, type)\<in>set ps. \<forall>w. takes r w \<longrightarrow> shape w = type) \<Longrightarrow>
    sound_terms (fold (\<lambda>(r, type) found. fold (keep_term type) (re_findall r s) found) ps found)"
proof (induction ps arbitrary: found)
  case (Cons p ps)
  then show ?case
    by (cases p) (auto intro!: Cons.IH sound_fold_keep dest: re_findall_takes)
qed simp

lemma sound_extract_terms: "sound_terms (extract_terms s)"
  unfolding extract_terms_def
  by (rule sound_patterns) (auto simp: sound_terms_def intro: found_shape)

lemma sound_terms_texts: "sound_terms found \<Longrightarrow> distinct (map fst found)"
  by (induction found) (auto simp: sound_terms_def)

lemma extracted_texts_distinct: "distinct (map fst (extract_terms s))"
  by (rule sound_terms_texts [OF sound_extract_terms])
end
