(* ===== verification/Ingestion.thy ===== *)
theory Ingestion
  imports Exact_Terms Answer_Text
begin

text \<open>
  The ingestion worker: the source allowlist, the parser, the chunker, the fetcher, one run of a source
  and the CLI's drive over the sources (\<open>app/worker\<close>: \<open>allowlist.py\<close>, \<open>parser.py\<close>, \<open>chunker.py\<close>,
  \<open>fetchers.py\<close>, \<open>runner.py\<close>, \<open>cli.py\<close>), and the admin's list of jobs. A run is one transaction: its
  result is the tables it commits. The dash that joins a title to a heading lies outside the model's
  characters and is a field of the worker, as are the hash, the embedder and the text of a database error.
\<close>

section \<open>Sources\<close>

record source_spec =
  ss_name :: string
  ss_area :: string
  ss_title :: string
  ss_fetcher :: string
  ss_location :: string
  ss_url :: string
  ss_as_of :: "date option"
  ss_sha :: "string option"

definition mvp_sources :: "source_spec list" where
  "mvp_sources =
     [\<lparr>ss_name = ''claude_api'', ss_area = ''claude_api'', ss_title = ''Claude API Reference'',
        ss_fetcher = ''local'', ss_location = ''app/worker/sources/claude_api.md'',
        ss_url = ''https://docs.anthropic.com/en/api/overview'', ss_as_of = Some (2026, 7, 18),
        ss_sha = Some ''4480285f11b4ad1694dd2ca3623b51075b8a410d777d7c0773d4dee9500e33cf''\<rparr>,
      \<lparr>ss_name = ''claude_code'', ss_area = ''claude_code'', ss_title = ''Claude Code Reference'',
        ss_fetcher = ''local'', ss_location = ''app/worker/sources/claude_code.md'',
        ss_url = ''https://docs.anthropic.com/en/docs/claude-code/overview'', ss_as_of = Some (2026, 7, 19),
        ss_sha = Some ''5ad05394cad5122cdada82bbb3a900908f510ec228ebe43cb4d0187ccd4ab11c''\<rparr>,
      \<lparr>ss_name = ''codex'', ss_area = ''codex'', ss_title = ''Codex Reference'',
        ss_fetcher = ''local'', ss_location = ''app/worker/sources/codex.md'',
        ss_url = ''https://developers.openai.com/codex/'', ss_as_of = Some (2026, 7, 19),
        ss_sha = Some ''e7daf653f771c8687d68c8f39c6291302c1a94598811741afaa0b0b36b4c9b5b''\<rparr>,
      \<lparr>ss_name = ''gemini_api'', ss_area = ''gemini_api'', ss_title = ''Gemini API Reference'',
        ss_fetcher = ''local'', ss_location = ''app/worker/sources/gemini_api.md'',
        ss_url = ''https://ai.google.dev/gemini-api/docs'', ss_as_of = Some (2026, 7, 18),
        ss_sha = Some ''be6a4b89de4d23fc99c1a846cc649c5fad565092c4f2db51a5bc97ab9a03e663''\<rparr>,
      \<lparr>ss_name = ''citevyn'', ss_area = ''citevyn'', ss_title = ''About CiteVyn'',
        ss_fetcher = ''local'', ss_location = ''app/worker/sources/citevyn.md'',
        ss_url = ''/about'', ss_as_of = Some (2026, 10, 29),
        ss_sha = Some ''35d2e9179a9968c441e1c3aa6590af1a9e134b6838370119433ccf8e45f46b2b''\<rparr>,
      \<lparr>ss_name = ''concepts'', ss_area = ''concepts'', ss_title = ''AI Concepts and Glossary'',
        ss_fetcher = ''local'', ss_location = ''app/worker/sources/concepts.md'',
        ss_url = ''/about'', ss_as_of = Some (2026, 9, 25),
        ss_sha = Some ''9c60b7d3bda7c1f62e831489277adb36f528a53d1a89a522ad8ed9475dfd98ac''\<rparr>]"

definition get_source :: "string \<Rightarrow> source_spec option" where
  "get_source n = List.find (\<lambda>s. ss_name s = n) mvp_sources"

definition list_source_names :: "string list" where
  "list_source_names = map ss_name mvp_sources"

definition resolve_sources :: "string option \<Rightarrow> source_spec list option" where
  "resolve_sources n = (case n of None \<Rightarrow> Some mvp_sources | Some m \<Rightarrow> map_option (\<lambda>s. [s]) (get_source m))"

section \<open>The parser\<close>

record block =
  bl_heading :: string
  bl_text :: string

record parsed_document =
  pd_title :: string
  pd_blocks :: "block list"

definition line_break :: "char \<Rightarrow> bool" where
  "line_break c \<longleftrightarrow> c \<in> set [CHR 0x0A, CHR 0x0B, CHR 0x0C, CHR 0x0D, CHR 0x1C, CHR 0x1D, CHR 0x1E, CHR 0x85]"

text \<open>\<open>str.splitlines()\<close>; the line read so far is kept reversed.\<close>

fun lines_from :: "string \<Rightarrow> string \<Rightarrow> string list" where
  "lines_from cur [] = (if cur = [] then [] else [rev cur])"
| "lines_from cur (c # s) =
     (if c = CHR 0x0D \<and> s \<noteq> [] \<and> hd s = CHR 0x0A then rev cur # lines_from [] (tl s)
      else if line_break c then rev cur # lines_from [] s
      else lines_from (c # cur) s)"

definition splitlines :: "string \<Rightarrow> string list" where
  "splitlines s = lines_from [] s"

definition rstrip :: "string \<Rightarrow> string" where
  "rstrip s = rev (lstrip (rev s))"

definition iter_lines :: "string \<Rightarrow> string list" where
  "iter_lines raw = filter (\<lambda>l. l \<noteq> []) (map rstrip (splitlines raw))"

record parsing =
  pg_title :: string
  pg_blocks :: "block list"
  pg_heading :: "string option"
  pg_text :: "string list"

definition flush_block :: "parsing \<Rightarrow> parsing" where
  "flush_block p =
     (case pg_heading p of
        None \<Rightarrow> p
      | Some h \<Rightarrow>
          let body = strip (join_on (CHR '' '') (pg_text p)) in
          p\<lparr>pg_blocks := (if body \<noteq> [] then pg_blocks p @ [\<lparr>bl_heading = h, bl_text = body\<rparr>] else pg_blocks p),
            pg_text := []\<rparr>)"

definition parse_line :: "string \<Rightarrow> parsing \<Rightarrow> parsing" where
  "parse_line l p =
     (if prefix ''# '' l \<and> pg_title p = [] then p\<lparr>pg_title := strip (drop 2 l)\<rparr>
      else if prefix ''## '' l then (flush_block p)\<lparr>pg_heading := Some (strip (drop 3 l)), pg_text := []\<rparr>
      else if pg_heading p = None then p
      else p\<lparr>pg_text := pg_text p @ [l]\<rparr>)"

definition parse_lines :: "string list \<Rightarrow> parsed_document" where
  "parse_lines ls =
     (let p = flush_block (fold parse_line ls \<lparr>pg_title = [], pg_blocks = [], pg_heading = None, pg_text = []\<rparr>)
      in \<lparr>pd_title = pg_title p, pd_blocks = pg_blocks p\<rparr>)"

definition parse_markdown :: "string \<Rightarrow> parsed_document" where
  "parse_markdown raw = parse_lines (iter_lines raw)"

section \<open>The chunker\<close>

record chunk_draft =
  cd_order :: nat
  cd_heading :: string
  cd_text :: string
  cd_pre_text :: string

definition build_draft :: "string \<Rightarrow> nat \<Rightarrow> string \<Rightarrow> block \<Rightarrow> chunk_draft" where
  "build_draft dash n title b =
     \<lparr>cd_order = n, cd_heading = bl_heading b,
      cd_text = title @ '' '' @ dash @ '' '' @ bl_heading b @ ''. '' @ bl_text b,
      cd_pre_text = bl_text b\<rparr>"

definition chunk_document :: "string \<Rightarrow> parsed_document \<Rightarrow> source_spec \<Rightarrow> string option \<Rightarrow> chunk_draft list" where
  "chunk_document dash p s fallback =
     (let title = (if pd_title p \<noteq> [] then pd_title p
                   else case fallback of
                     Some f \<Rightarrow> if f \<noteq> [] then f else ss_title s
                   | None \<Rightarrow> ss_title s)
      in map (\<lambda>(n, b). build_draft dash n title b) (enumerate 0 (pd_blocks p)))"

section \<open>The fetcher\<close>

type_synonym raised = "string \<times> string" \<comment> \<open>the exception's class and its message\<close>

datatype file_content = No_file | Not_utf8 string | File_text string

datatype fetcher = Local_fetcher | Http_fetcher

definition build_fetcher :: "source_spec \<Rightarrow> fetcher" where
  "build_fetcher s = (if ss_fetcher s = ''http'' then Http_fetcher else Local_fetcher)"

record file_store =
  fs_root :: string
  fs_read :: "string \<Rightarrow> file_content"
  fs_repr :: "string \<Rightarrow> string"

definition fetch :: "file_store \<Rightarrow> fetcher \<Rightarrow> source_spec \<Rightarrow> raised + string" where
  "fetch fs f s =
     (case f of
        Http_fetcher \<Rightarrow> Inl (''FetchError'', ''HttpFetcher is not wired in the MVP. Source '' @ fs_repr fs (ss_name s)
          @ '' declared fetcher='' @ fs_repr fs (ss_fetcher s) @ ''.'')
      | Local_fetcher \<Rightarrow>
          let path = fs_root fs @ ''/'' @ ss_location s in
          (case fs_read fs path of
             No_file \<Rightarrow> Inl (''FetchError'', ''local fixture not found: '' @ path @ '' (source=''
               @ fs_repr fs (ss_name s) @ '')'')
           | Not_utf8 e \<Rightarrow> Inl (''FetchError'', ''local fixture is not valid utf-8: '' @ path @ '' ('' @ e @ '')'')
           | File_text t \<Rightarrow> Inr t))"

section \<open>Tables\<close>

record doc_row = document +
  dr_area :: string
  dr_identity :: string
  dr_fetched :: timestamp
  dr_indexed :: "timestamp option"

record chunk_row = chunk +
  cr_checksum :: string
  cr_vector :: "pyfloat list option"

record term_row = exact_term +
  tr_type :: term_type
  tr_area :: string

datatype job_status = Job_pending | Job_running | Job_completed | Job_failed

datatype job_stage = Fetching | Parsing | Chunking | Embedding | Indexing

record job_row =
  jb_id :: string
  jb_source :: string
  jb_status :: job_status
  jb_stage :: job_stage
  jb_started :: timestamp
  jb_completed :: "timestamp option"
  jb_error_type :: "string option"
  jb_error_message :: "string option"
  jb_retryable :: bool

record ingest_db =
  in_index :: index_db
  in_docs :: "doc_row list"
  in_chunks :: "chunk_row list"
  in_terms :: "term_row list"
  in_jobs :: "job_row list"

text \<open>What retrieval reads of these tables.\<close>

definition corpus_of :: "ingest_db \<Rightarrow> corpus" where
  "corpus_of db = \<lparr>documents = map document.truncate (in_docs db), chunks = map chunk.truncate (in_chunks db),
     terms = map exact_term.truncate (in_terms db)\<rparr>"

section \<open>Jobs\<close>

datatype fresh = Job_id | Doc_id | Chunk_id nat

datatype moment = Job_started | Doc_fetched | Doc_indexed | Job_ended

definition create_job :: "(fresh \<Rightarrow> string) \<Rightarrow> (moment \<Rightarrow> timestamp) \<Rightarrow> source_spec \<Rightarrow> job_row" where
  "create_job ids now s =
     \<lparr>jb_id = ids Job_id, jb_source = ss_name s, jb_status = Job_pending, jb_stage = Fetching,
      jb_started = now Job_started, jb_completed = None, jb_error_type = None, jb_error_message = None,
      jb_retryable = False\<rparr>"

definition set_stage :: "job_stage \<Rightarrow> job_row \<Rightarrow> job_row" where
  "set_stage st j =
     (let j' = (if jb_status j = Job_pending then j\<lparr>jb_status := Job_running\<rparr> else j) in j'\<lparr>jb_stage := st\<rparr>)"

definition mark_failed :: "timestamp \<Rightarrow> raised \<Rightarrow> job_row \<Rightarrow> job_row" where
  "mark_failed t e j =
     j\<lparr>jb_status := Job_failed, jb_stage := Indexing, jb_completed := Some t,
       jb_error_type := Some (fst e), jb_error_message := Some (snd e), jb_retryable := False\<rparr>"

definition mark_completed :: "timestamp \<Rightarrow> job_row \<Rightarrow> job_row" where
  "mark_completed t j =
     j\<lparr>jb_status := Job_completed, jb_stage := Indexing, jb_completed := Some t,
       jb_error_type := None, jb_error_message := None, jb_retryable := False\<rparr>"

definition get_job :: "ingest_db \<Rightarrow> string \<Rightarrow> job_row option" where
  "get_job db i = tget jb_id (in_jobs db) i"

definition list_jobs :: "ingest_db \<Rightarrow> job_status option \<Rightarrow> string option \<Rightarrow> int \<Rightarrow> job_row list" where
  "list_jobs db status source limit =
     take (nat (max 1 (min limit 200)))
       (sort_key (\<lambda>j. - jb_started j)
         (filter (\<lambda>j. (case status of None \<Rightarrow> True | Some st \<Rightarrow> jb_status j = st)
             \<and> (case source of None \<Rightarrow> True | Some n \<Rightarrow> jb_source j = n)) (in_jobs db)))"

section \<open>One run\<close>

record worker =
  wk_files :: file_store
  wk_fetcher :: fetcher
  wk_embed :: "string list \<Rightarrow> raised + pyfloat list option list"
  wk_hash :: string
  wk_version :: string
  wk_provider :: "string option"
  wk_model :: "string option"
  wk_dim :: int
  wk_dash :: string
  wk_sha :: "string \<Rightarrow> string"
  wk_integrity :: string

definition provenance :: "worker \<Rightarrow> embedder_identity" where
  "provenance w = \<lparr>emb_provider = wk_provider w, emb_model = wk_model w,
     emb_dim = (if wk_provider w = None then None else Some (wk_dim w))\<rparr>"

definition drafts_of :: "worker \<Rightarrow> source_spec \<Rightarrow> string \<Rightarrow> chunk_draft list" where
  "drafts_of w s raw = chunk_document (wk_dash w) (parse_markdown raw) s None"

text \<open>\<open>ORDER BY last_fetched_at DESC LIMIT 1\<close>; of equal times the earlier row.\<close>

fun newest_fetched :: "doc_row list \<Rightarrow> doc_row option" where
  "newest_fetched [] = None"
| "newest_fetched (d # ds) =
     (case newest_fetched ds of None \<Rightarrow> Some d | Some e \<Rightarrow> if dr_fetched d < dr_fetched e then Some e else Some d)"

definition find_document_for_source :: "ingest_db \<Rightarrow> string \<Rightarrow> string \<Rightarrow> doc_row option" where
  "find_document_for_source db n v =
     newest_fetched (filter (\<lambda>d. dc_source d = n \<and> dc_index d = v) (in_docs db))"

definition upsert_document ::
    "worker \<Rightarrow> (fresh \<Rightarrow> string) \<Rightarrow> (moment \<Rightarrow> timestamp) \<Rightarrow> source_spec \<Rightarrow> ingest_db \<Rightarrow> raised + doc_row \<times> ingest_db" where
  "upsert_document w ids now s db =
     (let url = (if ss_url s \<noteq> [] then ss_url s else ss_location s) in
      case find_document_for_source db (ss_name s) (wk_version w) of
        Some d \<Rightarrow>
          let d' = d\<lparr>dr_fetched := now Doc_fetched, dr_indexed := Some (now Doc_indexed), dc_status := Doc_active,
            dc_title := ss_title s, dc_url := url, dr_identity := wk_sha w (ss_name s @ ss_title s),
            dc_as_of := ss_as_of s\<rparr> in
          Inr (d', db\<lparr>in_docs := tput dc_id d' (in_docs db)\<rparr>)
      | None \<Rightarrow>
          if get_version (in_index db) (wk_version w) = None then Inl (''IntegrityError'', wk_integrity w)
          else let d = \<lparr>dc_id = ids Doc_id, dc_index = wk_version w, dc_source = ss_name s, dc_url = url,
            dc_title = ss_title s, dc_status = Doc_active, dc_as_of = ss_as_of s, dr_area = ss_area s,
            dr_identity = wk_sha w (ss_name s @ ss_title s), dr_fetched = now Doc_fetched,
            dr_indexed = Some (now Doc_indexed)\<rparr> in
          Inr (d, db\<lparr>in_docs := tput dc_id d (in_docs db)\<rparr>))"

definition delete_existing_chunks :: "string \<Rightarrow> ingest_db \<Rightarrow> ingest_db" where
  "delete_existing_chunks doc db =
     db\<lparr>in_terms := tdel (\<lambda>t. et_doc t = doc) (in_terms db), in_chunks := tdel (\<lambda>c. ch_doc c = doc) (in_chunks db)\<rparr>"

definition zip_strict :: "'a list \<Rightarrow> 'b list \<Rightarrow> raised + ('a \<times> 'b) list" where
  "zip_strict xs ys =
     (if length ys < length xs then Inl (''ValueError'', ''zip() argument 2 is shorter than argument 1'')
      else if length xs < length ys then Inl (''ValueError'', ''zip() argument 2 is longer than argument 1'')
      else Inr (zip xs ys))"

definition new_chunk ::
    "worker \<Rightarrow> (fresh \<Rightarrow> string) \<Rightarrow> source_spec \<Rightarrow> string \<Rightarrow> chunk_draft \<times> pyfloat list option \<Rightarrow> chunk_row" where
  "new_chunk w ids s doc = (\<lambda>(d, v).
     \<lparr>ch_id = ids (Chunk_id (cd_order d)), ch_doc = doc, ch_area = ss_area s, ch_section = cd_heading d,
      ch_heading = cd_heading d, ch_parent = None, ch_text = cd_text d, ch_summary = take 120 (cd_text d),
      ch_order = int (cd_order d), ch_embedded = (v \<noteq> None), cr_checksum = wk_sha w (cd_text d), cr_vector = v\<rparr>)"

definition materialize_chunks ::
    "worker \<Rightarrow> (fresh \<Rightarrow> string) \<Rightarrow> (moment \<Rightarrow> timestamp) \<Rightarrow> source_spec \<Rightarrow> chunk_draft list \<Rightarrow> ingest_db
       \<Rightarrow> raised + chunk_row list \<times> ingest_db" where
  "materialize_chunks w ids now s drafts db =
     and_then (upsert_document w ids now s db) (\<lambda>(doc, db1).
       let db2 = delete_existing_chunks (dc_id doc) db1 in
       and_then (wk_embed w (map cd_text drafts)) (\<lambda>vectors.
       and_then (zip_strict drafts vectors) (\<lambda>pairs.
         let cs = map (new_chunk w ids s (dc_id doc)) pairs in
         Inr (cs, db2\<lparr>in_chunks := in_chunks db2 @ cs\<rparr>))))"

text \<open>\<open>text.split(". ", 1)[-1]\<close>, the whole text when there is no separator.\<close>

fun after_stop :: "string \<Rightarrow> string option" where
  "after_stop (c # d # s) = (if c = CHR ''.'' \<and> d = CHR '' '' then Some s else after_stop (d # s))"
| "after_stop s = None"

definition term_body :: "string \<Rightarrow> string" where
  "term_body t = (case after_stop t of None \<Rightarrow> t | Some b \<Rightarrow> b)"

definition chunk_terms :: "source_spec \<Rightarrow> chunk_row \<Rightarrow> term_row list" where
  "chunk_terms s c =
     map (\<lambda>(t, type). \<lparr>et_text = t, et_doc = ch_doc c, et_chunk = ch_id c, tr_type = type, tr_area = ss_area s\<rparr>)
       (extract_terms (term_body (ch_text c)))"

definition materialize_terms :: "source_spec \<Rightarrow> chunk_row list \<Rightarrow> term_row list" where
  "materialize_terms s cs = concat (map (chunk_terms s) cs)"

text \<open>The unique constraint of the table.\<close>

definition term_key :: "term_row \<Rightarrow> string \<times> string \<times> string" where
  "term_key t = (et_text t, tr_area t, et_chunk t)"

definition ingest ::
    "worker \<Rightarrow> (fresh \<Rightarrow> string) \<Rightarrow> (moment \<Rightarrow> timestamp) \<Rightarrow> source_spec \<Rightarrow> ingest_db
       \<Rightarrow> raised + chunk_row list \<times> term_row list \<times> ingest_db" where
  "ingest w ids now s db =
     and_then (fetch (wk_files w) (wk_fetcher w) s) (\<lambda>raw.
       let drafts = drafts_of w s raw in
       if drafts = [] then Inl (''ParseError'', ''source '' @ fs_repr (wk_files w) (ss_name s)
         @ '' parsed to zero '' @ [CHR 0x27] @ ''## '' @ [CHR 0x27]
         @ '' sections; refusing to replace its existing chunks with none'')
       else and_then (materialize_chunks w ids now s drafts db) (\<lambda>(cs, db').
         let ts = materialize_terms s cs in
         if unique term_key (in_terms db' @ ts) then Inr (cs, ts, db'\<lparr>in_terms := in_terms db' @ ts\<rparr>)
         else Inl (''IntegrityError'', wk_integrity w)))"

record run_result =
  rr_job :: string
  rr_source :: string
  rr_status :: job_status
  rr_document :: "string option"
  rr_chunks :: nat
  rr_terms :: nat
  rr_error :: "raised option"

definition run ::
    "worker \<Rightarrow> (fresh \<Rightarrow> string) \<Rightarrow> (moment \<Rightarrow> timestamp) \<Rightarrow> source_spec \<Rightarrow> ingest_db \<Rightarrow> run_result \<times> ingest_db" where
  "run w ids now s db =
     (let job = create_job ids now s in
      case ingest w ids now s db of
        Inl e \<Rightarrow>
          (\<lparr>rr_job = jb_id job, rr_source = ss_name s, rr_status = Job_failed, rr_document = None, rr_chunks = 0,
            rr_terms = 0, rr_error = Some e\<rparr>,
           db\<lparr>in_jobs := in_jobs db @ [mark_failed (now Job_ended) e job]\<rparr>)
      | Inr (cs, ts, db') \<Rightarrow>
          (\<lparr>rr_job = jb_id job, rr_source = ss_name s, rr_status = Job_completed,
            rr_document = (case cs of [] \<Rightarrow> None | c # _ \<Rightarrow> Some (ch_doc c)), rr_chunks = length cs,
            rr_terms = length ts, rr_error = None\<rparr>,
           db'\<lparr>in_jobs := in_jobs db'
             @ [mark_completed (now Job_ended) (fold set_stage [Fetching, Parsing, Chunking, Embedding, Indexing] job)]\<rparr>))"

section \<open>The drive over the sources\<close>

definition version_hash_image :: "(source_spec \<Rightarrow> raised + string) \<Rightarrow> source_spec list \<Rightarrow> string" where
  "version_hash_image read sources =
     concat (map (\<lambda>s. ss_name s @ [CHR 0x1F]
         @ (case ss_as_of s of None \<Rightarrow> [] | Some d \<Rightarrow> iso_date d) @ [CHR 0x1F]
         @ (case read s of Inl _ \<Rightarrow> CHR 0x00 # ''<unfetchable>'' | Inr t \<Rightarrow> t) @ [CHR 0x1E])
       (sort_key ss_name sources))"

definition content_version_hash :: "(string \<Rightarrow> string) \<Rightarrow> file_store \<Rightarrow> source_spec list \<Rightarrow> string" where
  "content_version_hash sha fs sources =
     ''sha256:'' @ sha (version_hash_image (\<lambda>s. fetch fs (build_fetcher s) s) sources)"

fun run_all ::
    "worker \<Rightarrow> (nat \<Rightarrow> fresh \<Rightarrow> string) \<Rightarrow> (nat \<Rightarrow> moment \<Rightarrow> timestamp) \<Rightarrow> nat \<Rightarrow> source_spec list \<Rightarrow> ingest_db
       \<Rightarrow> run_result list \<times> ingest_db" where
  "run_all w ids now i [] db = ([], db)"
| "run_all w ids now i (s # ss) db =
     (let (r, db1) = run w (ids i) (now i) s db; (rs, db2) = run_all w ids now (Suc i) ss db1 in (r # rs, db2))"

definition failures :: "run_result list \<Rightarrow> nat" where
  "failures rs = length (filter (\<lambda>r. rr_status r = Job_failed) rs)"

definition drive ::
    "worker \<Rightarrow> (nat \<Rightarrow> fresh \<Rightarrow> string) \<Rightarrow> timestamp \<Rightarrow> (nat \<Rightarrow> moment \<Rightarrow> timestamp) \<Rightarrow> source_spec list \<Rightarrow> ingest_db
       \<Rightarrow> int \<times> run_result list \<times> ingest_db" where
  "drive w ids start now sources db =
     (let db0 = db\<lparr>in_index := snd (ensure_index_version (wk_version w) (wk_hash w) (provenance w) start (in_index db))\<rparr>;
          (rs, db1) = run_all w ids now 0 sources db0;
          full = (set (map ss_name sources) = set (map ss_name mvp_sources));
          db2 = (if failures rs = 0 \<and> full
                 then db1\<lparr>in_index := advance_source_version_hash (wk_version w) (wk_hash w) (in_index db1)\<rparr>
                 else db1)
      in (if failures rs = 0 then 0 else 2, rs, db2))"

section \<open>What the parser and the chunker keep\<close>

lemma flush_block_texts: "(\<forall>b\<in>set (pg_blocks p). bl_text b \<noteq> []) \<Longrightarrow> \<forall>b\<in>set (pg_blocks (flush_block p)). bl_text b \<noteq> []"
  by (auto simp: flush_block_def Let_def split: option.splits)

lemma parse_line_texts: "(\<forall>b\<in>set (pg_blocks p). bl_text b \<noteq> []) \<Longrightarrow> \<forall>b\<in>set (pg_blocks (parse_line l p)). bl_text b \<noteq> []"
  using flush_block_texts [of p] by (auto simp: parse_line_def)

lemma parsed_blocks_have_text: "b \<in> set (pd_blocks (parse_markdown raw)) \<Longrightarrow> bl_text b \<noteq> []"
proof -
  have fold: "(\<forall>b\<in>set (pg_blocks p). bl_text b \<noteq> []) \<Longrightarrow> \<forall>b\<in>set (pg_blocks (fold parse_line ls p)). bl_text b \<noteq> []" for ls p
  proof (induction ls arbitrary: p)
    case (Cons l ls)
    show ?case using Cons.IH [OF parse_line_texts [OF Cons.prems]] by simp
  qed simp
  assume "b \<in> set (pd_blocks (parse_markdown raw))"
  moreover have "\<forall>b\<in>set (pd_blocks (parse_markdown raw)). bl_text b \<noteq> []"
    unfolding parse_markdown_def parse_lines_def Let_def parsed_document.simps
    by (rule flush_block_texts [OF fold]) simp
  ultimately show ?thesis by blast
qed

lemma length_chunk_document [simp]: "length (chunk_document dash p s f) = length (pd_blocks p)"
  by (simp add: chunk_document_def Let_def)

lemma chunk_document_nth:
  assumes "i < length (pd_blocks p)"
  shows "cd_order (chunk_document dash p s f ! i) = i"
    and "cd_pre_text (chunk_document dash p s f ! i) = bl_text (pd_blocks p ! i)"
  using assms by (simp_all add: chunk_document_def Let_def build_draft_def nth_enumerate_eq)

lemma orders_chunk_document: "map cd_order (chunk_document dash p s f) = [0..<length (pd_blocks p)]"
  by (rule nth_equalityI) (simp_all add: chunk_document_nth)

text \<open>
  The body the terms are taken from is the block's text when neither the title nor the heading holds
  a full stop and a space; otherwise what follows the first of these is searched as well.
\<close>

lemma after_stop_skip:
  "(\<forall>u v. p @ ''.'' \<noteq> u @ ''. '' @ v) \<Longrightarrow> after_stop (p @ ''. '' @ t) = Some t"
proof (induction p)
  case (Cons c p)
  have "\<forall>u v. p @ ''.'' \<noteq> u @ ''. '' @ v"
  proof (intro allI notI)
    fix u v assume "p @ ''.'' = u @ ''. '' @ v"
    then have "(c # p) @ ''.'' = (c # u) @ ''. '' @ v" by simp
    with Cons.prems show False by blast
  qed
  then have ih: "after_stop (p @ ''. '' @ t) = Some t" by (rule Cons.IH)
  show ?case
  proof (cases p)
    case Nil
    then show ?thesis by simp
  next
    case (Cons d q)
    have "\<not> (c = CHR ''.'' \<and> d = CHR '' '')"
      using Cons.prems [rule_format, of "[]" "q @ ''.''"] Cons by auto
    with ih Cons show ?thesis by auto
  qed
qed simp

lemma term_body_of_draft:
  assumes "\<forall>u v. title @ '' '' @ dash @ '' '' @ bl_heading b @ ''.'' \<noteq> u @ ''. '' @ v"
  shows "term_body (cd_text (build_draft dash n title b)) = cd_pre_text (build_draft dash n title b)"
  using after_stop_skip [of "title @ '' '' @ dash @ '' '' @ bl_heading b" "bl_text b"] assms
  by (simp add: term_body_def build_draft_def)

lemma term_body_leaks_the_heading:
  "term_body (cd_text (build_draft ''-'' 0 ''Guide''
     \<lparr>bl_heading = ''1. Set --flag'', bl_text = ''Body''\<rparr>)) = ''Set --flag. Body''"
  by code_simp

section \<open>What one run changes\<close>

definition doc_keys :: "ingest_db \<Rightarrow> (string \<times> string \<times> string) list" where
  "doc_keys db = map (\<lambda>d. (dc_id d, dc_source d, dc_index d)) (in_docs db)"

definition section_texts :: "ingest_db \<Rightarrow> string \<Rightarrow> string \<Rightarrow> string list" where
  "section_texts db n v = map ch_text (filter (\<lambda>c. (ch_doc c, n, v) \<in> set (doc_keys db)) (in_chunks db))"

definition ingest_ok :: "ingest_db \<Rightarrow> bool" where
  "ingest_ok db \<longleftrightarrow>
     distinct (map fst (doc_keys db)) \<and> distinct (map snd (doc_keys db))
     \<and> unique ch_id (in_chunks db) \<and> unique term_key (in_terms db)
     \<and> (\<forall>t\<in>set (in_terms db). \<exists>c\<in>set (in_chunks db). ch_id c = et_chunk t \<and> ch_doc c = et_doc t)"

definition ids_fresh :: "(fresh \<Rightarrow> string) \<Rightarrow> ingest_db \<Rightarrow> bool" where
  "ids_fresh ids db \<longleftrightarrow> inj ids \<and> (\<forall>f. ids f \<notin> fst ` set (doc_keys db) \<and> ids f \<notin> ch_id ` set (in_chunks db))"

lemma fresh_not_stored: "ids_fresh ids db \<Longrightarrow> i \<in> ch_id ` set (in_chunks db) \<Longrightarrow> i \<notin> range ids"
proof
  assume f: "ids_fresh ids db" and i: "i \<in> ch_id ` set (in_chunks db)" and "i \<in> range ids"
  then obtain g where "i = ids g" by blast
  with f i show False by (simp add: ids_fresh_def)
qed

lemma newest_fetched_in: "newest_fetched ds = Some d \<Longrightarrow> d \<in> set ds"
  by (induction ds arbitrary: d) (auto split: option.splits if_splits)

lemma newest_fetched_None [simp]: "newest_fetched ds = None \<longleftrightarrow> ds = []"
  by (cases ds) (auto split: option.splits if_splits)

lemma find_document_Some:
  "find_document_for_source db n v = Some d \<Longrightarrow> d \<in> set (in_docs db) \<and> dc_source d = n \<and> dc_index d = v"
  unfolding find_document_for_source_def by (drule newest_fetched_in) simp

lemma find_document_None:
  "find_document_for_source db n v = None \<Longrightarrow> (i, n, v) \<notin> set (doc_keys db)"
  by (auto simp: find_document_for_source_def doc_keys_def filter_empty_conv)

lemma keys_of_replace:
  assumes "d \<in> set ds" "distinct (map dc_id ds)" "dc_id d' = dc_id d" "dc_source d' = dc_source d" "dc_index d' = dc_index d"
  shows "map (\<lambda>d. (dc_id d, dc_source d, dc_index d)) (tput dc_id d' ds) = map (\<lambda>d. (dc_id d, dc_source d, dc_index d)) ds"
proof -
  have "dc_id d' \<in> dc_id ` set ds" using assms(1, 3) by simp
  then have "tget dc_id ds (dc_id d') \<noteq> None" by (metis tget_None_iff)
  moreover have "x = d" if "x \<in> set ds" "dc_id x = dc_id d'" for x
    using that assms(1-3) by (metis distinct_map_filter_unique)
  ultimately show ?thesis using assms(3-5) by (auto simp: tput_def)
qed

lemma upsert_document_cases:
  assumes "upsert_document w ids now s db = Inr (d, db1)" "ingest_ok db" "ids_fresh ids db"
  obtains "doc_keys db1 = doc_keys db" "(dc_id d, ss_name s, wk_version w) \<in> set (doc_keys db)"
      "\<exists>ds. db1 = db\<lparr>in_docs := ds\<rparr>"
    | "doc_keys db1 = doc_keys db @ [(dc_id d, ss_name s, wk_version w)]" "dc_id d = ids Doc_id"
      "\<And>i. (i, ss_name s, wk_version w) \<notin> set (doc_keys db)" "\<exists>ds. db1 = db\<lparr>in_docs := ds\<rparr>"
proof (cases "find_document_for_source db (ss_name s) (wk_version w)")
  case (Some e)
  note e = find_document_Some [OF Some]
  from assms(1) Some have d: "dc_id d = dc_id e" "dc_source d = dc_source e" "dc_index d = dc_index e"
    and db1: "db1 = db\<lparr>in_docs := tput dc_id d (in_docs db)\<rparr>"
    by (auto simp: upsert_document_def Let_def)
  have "distinct (map dc_id (in_docs db))" using assms(2) by (simp add: ingest_ok_def doc_keys_def comp_def)
  with e d have "doc_keys db1 = doc_keys db"
    unfolding db1 by (simp add: doc_keys_def keys_of_replace [of e])
  moreover have "(dc_id d, ss_name s, wk_version w) \<in> set (doc_keys db)" using e d by (force simp: doc_keys_def)
  ultimately show ?thesis using that(1) db1 by blast
next
  case None
  from assms(1) None have d: "dc_id d = ids Doc_id" "dc_source d = ss_name s" "dc_index d = wk_version w"
    and db1: "db1 = db\<lparr>in_docs := tput dc_id d (in_docs db)\<rparr>"
    by (auto simp: upsert_document_def Let_def split: if_splits)
  have "ids Doc_id \<notin> dc_id ` set (in_docs db)"
    using assms(3) by (auto simp: ids_fresh_def doc_keys_def image_image)
  then have "tget dc_id (in_docs db) (dc_id d) = None" using d(1) by (metis tget_None_iff)
  then have "doc_keys db1 = doc_keys db @ [(dc_id d, ss_name s, wk_version w)]"
    using d unfolding db1 by (simp add: doc_keys_def tput_def)
  then show ?thesis using that(2) d(1) find_document_None [OF None] db1 by blast
qed

lemma ingest_Inr:
  assumes "ingest w ids now s db = Inr (cs, ts, db')"
  obtains raw d db1 vs where
    "fetch (wk_files w) (wk_fetcher w) s = Inr raw" "drafts_of w s raw \<noteq> []"
    "upsert_document w ids now s db = Inr (d, db1)"
    "wk_embed w (map cd_text (drafts_of w s raw)) = Inr vs" "length vs = length (drafts_of w s raw)"
    "cs = map (new_chunk w ids s (dc_id d)) (zip (drafts_of w s raw) vs)"
    "ts = materialize_terms s cs"
    "in_chunks db' = tdel (\<lambda>c. ch_doc c = dc_id d) (in_chunks db1) @ cs"
    "in_terms db' = tdel (\<lambda>t. et_doc t = dc_id d) (in_terms db1) @ ts" "unique term_key (in_terms db')"
    "in_docs db' = in_docs db1" "in_index db' = in_index db1" "in_jobs db' = in_jobs db1"
proof -
  from assms obtain raw where raw: "fetch (wk_files w) (wk_fetcher w) s = Inr raw" "drafts_of w s raw \<noteq> []"
    and m: "and_then (materialize_chunks w ids now s (drafts_of w s raw) db) (\<lambda>(cs, db').
         let ts = materialize_terms s cs in
         if unique term_key (in_terms db' @ ts) then Inr (cs, ts, db'\<lparr>in_terms := in_terms db' @ ts\<rparr>)
         else Inl (''IntegrityError'', wk_integrity w)) = Inr (cs, ts, db')"
    by (auto simp: ingest_def Let_def and_then_Inr_iff split: if_splits)
  from m obtain db2 where db2: "materialize_chunks w ids now s (drafts_of w s raw) db = Inr (cs, db2)"
      "ts = materialize_terms s cs" "unique term_key (in_terms db2 @ ts)" "db' = db2\<lparr>in_terms := in_terms db2 @ ts\<rparr>"
    by (auto simp: and_then_Inr_iff Let_def split: if_splits)
  from db2(1) obtain d db1 vs where *: "upsert_document w ids now s db = Inr (d, db1)"
      "wk_embed w (map cd_text (drafts_of w s raw)) = Inr vs" "length vs = length (drafts_of w s raw)"
      "cs = map (new_chunk w ids s (dc_id d)) (zip (drafts_of w s raw) vs)"
      "db2 = (delete_existing_chunks (dc_id d) db1)\<lparr>in_chunks := in_chunks (delete_existing_chunks (dc_id d) db1) @ cs\<rparr>"
    by (auto simp: materialize_chunks_def zip_strict_def Let_def and_then_Inr_iff split: if_splits)
  show ?thesis
    by (rule that [OF raw *(1-4) db2(2)]) (use db2 * in \<open>simp_all add: delete_existing_chunks_def\<close>)
qed

lemma new_chunk_simps [simp]:
  "ch_doc (new_chunk w ids s d x) = d" "ch_text (new_chunk w ids s d x) = cd_text (fst x)"
  "ch_id (new_chunk w ids s d x) = ids (Chunk_id (cd_order (fst x)))"
  by (simp_all add: new_chunk_def split: prod.splits)

lemma map_fst_zip_eq: "length xs = length ys \<Longrightarrow> map (\<lambda>x. f (fst x)) (zip xs ys) = map f xs"
  by (induction xs ys rule: list_induct2) simp_all

lemma frame_simps [simp]:
  "doc_keys (db\<lparr>in_jobs := js\<rparr>) = doc_keys db" "doc_keys (db\<lparr>in_index := ix\<rparr>) = doc_keys db"
  "section_texts (db\<lparr>in_jobs := js\<rparr>) n v = section_texts db n v"
  "section_texts (db\<lparr>in_index := ix\<rparr>) n v = section_texts db n v"
  "ingest_ok (db\<lparr>in_jobs := js\<rparr>) = ingest_ok db" "ingest_ok (db\<lparr>in_index := ix\<rparr>) = ingest_ok db"
  "ids_fresh ids (db\<lparr>in_jobs := js\<rparr>) = ids_fresh ids db" "ids_fresh ids (db\<lparr>in_index := ix\<rparr>) = ids_fresh ids db"
  by (simp_all add: doc_keys_def section_texts_def ingest_ok_def ids_fresh_def)

text \<open>What a run leaves of the documents' keys, whichever way it took.\<close>

lemma ingest_keys:
  assumes "ingest w ids now s db = Inr (cs, ts, db')" "ingest_ok db" "ids_fresh ids db"
    "upsert_document w ids now s db = Inr (d, db1)" "in_docs db' = in_docs db1"
  shows "(dc_id d, ss_name s, wk_version w) \<in> set (doc_keys db')"
    and "distinct (map fst (doc_keys db'))" "distinct (map snd (doc_keys db'))"
    and "\<And>i n v. (n, v) \<noteq> (ss_name s, wk_version w) \<Longrightarrow> (i, n, v) \<in> set (doc_keys db') \<longleftrightarrow> (i, n, v) \<in> set (doc_keys db)"
    and "fst ` set (doc_keys db') \<subseteq> fst ` set (doc_keys db) \<union> {ids Doc_id}"
proof -
  have k: "doc_keys db' = doc_keys db1" using assms(5) by (simp add: doc_keys_def)
  have ok: "distinct (map fst (doc_keys db))" "distinct (map snd (doc_keys db))"
    using assms(2) by (simp_all add: ingest_ok_def)
  have f: "ids Doc_id \<notin> fst ` set (doc_keys db)" using assms(3) by (simp add: ids_fresh_def)
  consider "doc_keys db' = doc_keys db" "(dc_id d, ss_name s, wk_version w) \<in> set (doc_keys db)"
    | "doc_keys db' = doc_keys db @ [(dc_id d, ss_name s, wk_version w)]" "dc_id d = ids Doc_id"
      "\<And>i. (i, ss_name s, wk_version w) \<notin> set (doc_keys db)"
    by (rule upsert_document_cases [OF assms(4, 2, 3)]) (simp_all add: k)
  note cs = this
  show "(dc_id d, ss_name s, wk_version w) \<in> set (doc_keys db')" by (rule cs) simp_all
  show "distinct (map fst (doc_keys db'))" by (rule cs) (use ok f in simp_all)
  show "distinct (map snd (doc_keys db'))"
    by (rule cs) (use ok in \<open>auto simp: image_iff\<close>)
  show "(n, v) \<noteq> (ss_name s, wk_version w) \<Longrightarrow> (i, n, v) \<in> set (doc_keys db') \<longleftrightarrow> (i, n, v) \<in> set (doc_keys db)" for i n v
    by (rule cs) auto
  show "fst ` set (doc_keys db') \<subseteq> fst ` set (doc_keys db) \<union> {ids Doc_id}" by (rule cs) auto
qed

lemma same_key_same_id:
  "distinct (map snd ks) \<Longrightarrow> (i, n, v) \<in> set ks \<Longrightarrow> (j, n, v) \<in> set ks \<Longrightarrow> i = j"
  by (induction ks) force+

lemma same_id_same_key:
  "distinct (map fst ks) \<Longrightarrow> (i, n, v) \<in> set ks \<Longrightarrow> (i, n', v') \<in> set ks \<Longrightarrow> n = n' \<and> v = v'"
  by (induction ks) force+

lemma ingest_sections:
  assumes "ingest w ids now s db = Inr (cs, ts, db')" "ingest_ok db" "ids_fresh ids db"
  obtains raw where "fetch (wk_files w) (wk_fetcher w) s = Inr raw"
    "section_texts db' (ss_name s) (wk_version w) = map cd_text (drafts_of w s raw)"
    "\<And>n v. (n, v) \<noteq> (ss_name s, wk_version w) \<Longrightarrow> section_texts db' n v = section_texts db n v"
proof -
  obtain raw d db1 vs where i: "fetch (wk_files w) (wk_fetcher w) s = Inr raw" "drafts_of w s raw \<noteq> []"
    "upsert_document w ids now s db = Inr (d, db1)" "length vs = length (drafts_of w s raw)"
    "cs = map (new_chunk w ids s (dc_id d)) (zip (drafts_of w s raw) vs)"
    "in_chunks db' = tdel (\<lambda>c. ch_doc c = dc_id d) (in_chunks db1) @ cs" "in_docs db' = in_docs db1"
    by (rule ingest_Inr [OF assms(1)])
  note k = ingest_keys [OF assms i(3) i(7)]
  have c1: "in_chunks db1 = in_chunks db" by (rule upsert_document_cases [OF i(3) assms(2, 3)]) auto
  have new: "map ch_text cs = map cd_text (drafts_of w s raw)"
    unfolding i(5) using i(4) by (simp add: comp_def map_fst_zip_eq)
  have docs: "ch_doc c = dc_id d" if "c \<in> set cs" for c using that unfolding i(5) by auto
  show ?thesis
  proof (rule that [OF i(1)])
    have "filter (\<lambda>c. (ch_doc c, ss_name s, wk_version w) \<in> set (doc_keys db')) (in_chunks db') = cs"
    proof -
      have "filter (\<lambda>c. (ch_doc c, ss_name s, wk_version w) \<in> set (doc_keys db')) (tdel (\<lambda>c. ch_doc c = dc_id d) (in_chunks db1)) = []"
        unfolding tdel_def filter_filter filter_empty_conv using same_key_same_id [OF k(3) _ k(1)] by blast
      moreover have "filter (\<lambda>c. (ch_doc c, ss_name s, wk_version w) \<in> set (doc_keys db')) cs = cs"
        unfolding filter_id_conv using k(1) docs by simp
      ultimately show ?thesis by (simp add: i(6))
    qed
    then show "section_texts db' (ss_name s) (wk_version w) = map cd_text (drafts_of w s raw)"
      by (simp add: section_texts_def new)
  next
    fix n v assume nv: "(n, v) \<noteq> (ss_name s, wk_version w)"
    then have no: "(dc_id d, n, v) \<notin> set (doc_keys db')" using same_id_same_key [OF k(2) _ k(1)] by blast
    have "filter (\<lambda>c. (ch_doc c, n, v) \<in> set (doc_keys db')) cs = []"
      using no docs by (auto simp: filter_empty_conv)
    moreover have "filter (\<lambda>c. (ch_doc c, n, v) \<in> set (doc_keys db')) (tdel (\<lambda>c. ch_doc c = dc_id d) (in_chunks db))
        = filter (\<lambda>c. (ch_doc c, n, v) \<in> set (doc_keys db)) (in_chunks db)"
      unfolding tdel_def filter_filter using no k(4) [OF nv] by (intro filter_cong) auto
    ultimately show "section_texts db' n v = section_texts db n v"
      by (simp add: section_texts_def i(6) c1)
  qed
qed

lemma ids_of_new_chunks:
  assumes "length vs = length (drafts_of w s raw)"
  shows "map ch_id (map (new_chunk w ids s d) (zip (drafts_of w s raw) vs))
    = map (\<lambda>i. ids (Chunk_id i)) [0..<length (drafts_of w s raw)]"
proof -
  have "map (\<lambda>x. ids (Chunk_id (cd_order (fst x)))) (zip (drafts_of w s raw) vs)
      = map (\<lambda>i. ids (Chunk_id i)) (map cd_order (drafts_of w s raw))"
    using map_fst_zip_eq [of "drafts_of w s raw" vs "\<lambda>d. ids (Chunk_id (cd_order d))"] assms
    by (simp add: comp_def)
  also have "map cd_order (drafts_of w s raw) = [0..<length (drafts_of w s raw)]"
    by (simp add: drafts_of_def orders_chunk_document)
  finally show ?thesis by (simp add: comp_def)
qed

lemma ingest_keeps_ok:
  assumes "ingest w ids now s db = Inr (cs, ts, db')" "ingest_ok db" "ids_fresh ids db"
  shows "ingest_ok db'"
proof -
  obtain raw d db1 vs where i: "upsert_document w ids now s db = Inr (d, db1)" "length vs = length (drafts_of w s raw)"
    "cs = map (new_chunk w ids s (dc_id d)) (zip (drafts_of w s raw) vs)" "ts = materialize_terms s cs"
    "in_chunks db' = tdel (\<lambda>c. ch_doc c = dc_id d) (in_chunks db1) @ cs"
    "in_terms db' = tdel (\<lambda>t. et_doc t = dc_id d) (in_terms db1) @ ts" "unique term_key (in_terms db')"
    "in_docs db' = in_docs db1"
    by (rule ingest_Inr [OF assms(1)])
  note k = ingest_keys [OF assms i(1) i(8)]
  have c1: "in_chunks db1 = in_chunks db" "in_terms db1 = in_terms db"
    by (rule upsert_document_cases [OF i(1) assms(2, 3)]; auto)+
  have ids: "distinct (map ch_id cs)" "ch_id ` set cs \<subseteq> range ids"
    using ids_of_new_chunks [OF i(2), of ids "dc_id d"] assms(3)
    by (auto simp: i(3) ids_fresh_def distinct_map inj_on_def dest: injD)
  have "unique ch_id (in_chunks db')"
  proof -
    have "unique ch_id (tdel (\<lambda>c. ch_doc c = dc_id d) (in_chunks db))" using assms(2) by (simp add: ingest_ok_def)
    moreover have new: "ch_id c \<notin> range ids" if "c \<in> set (tdel (\<lambda>c. ch_doc c = dc_id d) (in_chunks db))" for c
      using that by (intro fresh_not_stored [OF assms(3)]) (simp add: tdel_def)
    moreover have "ch_id ` set (tdel (\<lambda>c. ch_doc c = dc_id d) (in_chunks db)) \<inter> ch_id ` set cs = {}"
      using ids(2) new by blast
    ultimately show ?thesis using ids(1) unfolding i(5) c1 unique_def by simp
  qed
  moreover have "\<exists>c\<in>set (in_chunks db'). ch_id c = et_chunk t \<and> ch_doc c = et_doc t" if "t \<in> set (in_terms db')" for t
    using that assms(2) unfolding i(5, 6) c1 i(4)
    by (fastforce simp: tdel_def ingest_ok_def materialize_terms_def chunk_terms_def)
  ultimately show ?thesis using k(2, 3) i(7) by (simp add: ingest_ok_def)
qed

lemma run_cases:
  assumes "run w ids now s db = (r, db')"
  obtains (failed) e where "ingest w ids now s db = Inl e" "rr_status r = Job_failed"
      "db' = db\<lparr>in_jobs := in_jobs db @ [mark_failed (now Job_ended) e (create_job ids now s)]\<rparr>"
    | (completed) cs ts db1 j where "ingest w ids now s db = Inr (cs, ts, db1)" "rr_status r = Job_completed"
      "db' = db1\<lparr>in_jobs := in_jobs db1 @ [j]\<rparr>"
  using assms by (cases "ingest w ids now s db") (auto simp: run_def Let_def split: prod.splits)

lemma run_keeps_ok:
  "run w ids now s db = (r, db') \<Longrightarrow> ingest_ok db \<Longrightarrow> ids_fresh ids db \<Longrightarrow> ingest_ok db'"
  by (erule run_cases) (auto dest: ingest_keeps_ok)

lemma failed_job_forgets_its_stage: "jb_stage (mark_failed t e j) = Indexing"
  by (simp add: mark_failed_def)

section \<open>Many runs\<close>

definition id_supply :: "(nat \<Rightarrow> fresh \<Rightarrow> string) \<Rightarrow> nat \<Rightarrow> ingest_db \<Rightarrow> bool" where
  "id_supply ids k db \<longleftrightarrow> inj (\<lambda>(i, f). ids i f) \<and> (\<forall>i\<ge>k. ids_fresh (ids i) db)"

lemma ingest_ids:
  assumes "ingest w ids now s db = Inr (cs, ts, db')" "ingest_ok db" "ids_fresh ids db"
  shows "fst ` set (doc_keys db') \<subseteq> fst ` set (doc_keys db) \<union> range ids"
    and "ch_id ` set (in_chunks db') \<subseteq> ch_id ` set (in_chunks db) \<union> range ids"
proof -
  obtain raw d db1 vs where i: "upsert_document w ids now s db = Inr (d, db1)"
    "cs = map (new_chunk w ids s (dc_id d)) (zip (drafts_of w s raw) vs)"
    "in_chunks db' = tdel (\<lambda>c. ch_doc c = dc_id d) (in_chunks db1) @ cs" "in_docs db' = in_docs db1"
    by (rule ingest_Inr [OF assms(1)])
  show "fst ` set (doc_keys db') \<subseteq> fst ` set (doc_keys db) \<union> range ids"
    using ingest_keys(5) [OF assms i(1) i(4)] by auto
  have "in_chunks db1 = in_chunks db" by (rule upsert_document_cases [OF i(1) assms(2, 3)]) auto
  then show "ch_id ` set (in_chunks db') \<subseteq> ch_id ` set (in_chunks db) \<union> range ids"
    unfolding i(3) i(2) by (auto simp: tdel_def)
qed

lemma run_ids:
  assumes "run w ids now s db = (r, db')" "ingest_ok db" "ids_fresh ids db"
  shows "fst ` set (doc_keys db') \<subseteq> fst ` set (doc_keys db) \<union> range ids"
    and "ch_id ` set (in_chunks db') \<subseteq> ch_id ` set (in_chunks db) \<union> range ids"
proof -
  have "fst ` set (doc_keys db') \<subseteq> fst ` set (doc_keys db) \<union> range ids
      \<and> ch_id ` set (in_chunks db') \<subseteq> ch_id ` set (in_chunks db) \<union> range ids"
    using assms(1)
  proof (cases rule: run_cases)
    case (failed e)
    then show ?thesis by auto
  next
    case (completed cs ts db1 j)
    then show ?thesis using ingest_ids [OF completed(1) assms(2, 3)] by simp
  qed
  then show "fst ` set (doc_keys db') \<subseteq> fst ` set (doc_keys db) \<union> range ids"
    "ch_id ` set (in_chunks db') \<subseteq> ch_id ` set (in_chunks db) \<union> range ids" by blast+
qed

lemma run_supply:
  assumes "run w (ids k) now s db = (r, db')" "ingest_ok db" "id_supply ids k db"
  shows "id_supply ids (Suc k) db'"
proof -
  have f: "ids_fresh (ids k) db" using assms(3) by (simp add: id_supply_def)
  have inj: "inj (\<lambda>(i, f). ids i f)" using assms(3) by (simp add: id_supply_def)
  have other: "ids i g \<notin> range (ids k)" if "Suc k \<le> i" for i g
  proof
    assume "ids i g \<in> range (ids k)"
    then obtain h where "ids i g = ids k h" by blast
    with injD [OF inj, of "(i, g)" "(k, h)"] that show False by simp
  qed
  have "ids_fresh (ids i) db'" if i: "Suc k \<le> i" for i
  proof -
    have "ids_fresh (ids i) db" using assms(3) i by (simp add: id_supply_def)
    then have o: "inj (ids i)" "ids i g \<notin> fst ` set (doc_keys db)" "ids i g \<notin> ch_id ` set (in_chunks db)" for g
      by (simp_all add: ids_fresh_def)
    have "ids i g \<notin> fst ` set (doc_keys db')" for g
      using o(2) other [OF i, of g] subsetD [OF run_ids(1) [OF assms(1, 2) f]] by (metis UnE)
    moreover have "ids i g \<notin> ch_id ` set (in_chunks db')" for g
      using o(3) other [OF i, of g] subsetD [OF run_ids(2) [OF assms(1, 2) f]] by (metis UnE)
    ultimately show ?thesis using o(1) by (simp add: ids_fresh_def)
  qed
  with inj show ?thesis by (simp add: id_supply_def)
qed

lemma run_sections:
  assumes "run w ids now s db = (r, db')" "ingest_ok db" "ids_fresh ids db" "n \<noteq> ss_name s"
  shows "section_texts db' n v = section_texts db n v"
  by (rule run_cases [OF assms(1)]) (use assms(4) ingest_sections [OF _ assms(2, 3)] in \<open>auto, metis prod.inject\<close>)

lemma run_index: "run w ids now s db = (r, db') \<Longrightarrow> ingest_ok db \<Longrightarrow> ids_fresh ids db \<Longrightarrow> in_index db' = in_index db"
  by (erule run_cases) (auto elim!: ingest_Inr upsert_document_cases)

lemma run_all_laws:
  assumes "run_all w ids now k ss db = (rs, db')" "ingest_ok db" "id_supply ids k db"
  shows "ingest_ok db' \<and> in_index db' = in_index db
    \<and> (\<forall>n v. n \<notin> ss_name ` set ss \<longrightarrow> section_texts db' n v = section_texts db n v)"
  using assms
proof (induction ss arbitrary: k db rs)
  case (Cons s ss)
  obtain r db1 where r: "run w (ids k) (now k) s db = (r, db1)" by (cases "run w (ids k) (now k) s db")
  obtain rs' where rs: "run_all w ids now (Suc k) ss db1 = (rs', db')"
    using Cons.prems(1) r by (auto split: prod.splits)
  have f: "ids_fresh (ids k) db" using Cons.prems(3) by (simp add: id_supply_def)
  have "ingest_ok db'" "in_index db' = in_index db1"
      "\<And>n v. n \<notin> ss_name ` set ss \<Longrightarrow> section_texts db' n v = section_texts db1 n v"
    using Cons.IH [OF rs run_keeps_ok [OF r Cons.prems(2) f] run_supply [OF r Cons.prems(2, 3)]] by blast+
  then show ?case
    using run_index [OF r Cons.prems(2) f] run_sections [OF r Cons.prems(2) f] by auto
qed auto

lemma run_all_sections:
  assumes "run_all w ids now k ss db = (rs, db')" "ingest_ok db" "id_supply ids k db" "distinct (map ss_name ss)"
    "failures rs = 0" "s \<in> set ss"
  shows "\<exists>raw. fetch (wk_files w) (wk_fetcher w) s = Inr raw
    \<and> section_texts db' (ss_name s) (wk_version w) = map cd_text (drafts_of w s raw)"
  using assms
proof (induction ss arbitrary: k db rs)
  case (Cons q ss)
  obtain r db1 where r: "run w (ids k) (now k) q db = (r, db1)" by (cases "run w (ids k) (now k) q db")
  obtain rs' where rs: "run_all w ids now (Suc k) ss db1 = (rs', db')" "rs = r # rs'"
    using Cons.prems(1) r by (auto split: prod.splits)
  have f: "ids_fresh (ids k) db" using Cons.prems(3) by (simp add: id_supply_def)
  note ok1 = run_keeps_ok [OF r Cons.prems(2) f] and sup1 = run_supply [OF r Cons.prems(2, 3)]
  have none: "failures rs' = 0" "rr_status r \<noteq> Job_failed"
    using Cons.prems(5) rs(2) by (auto simp: failures_def split: if_splits)
  show ?case
  proof (cases "s = q")
    case True
    from none(2) obtain cs ts db2 j where i: "ingest w (ids k) (now k) q db = Inr (cs, ts, db2)"
        "db1 = db2\<lparr>in_jobs := in_jobs db2 @ [j]\<rparr>"
      using run_cases [OF r] by metis
    obtain raw where "fetch (wk_files w) (wk_fetcher w) q = Inr raw"
        "section_texts db2 (ss_name q) (wk_version w) = map cd_text (drafts_of w q raw)"
      by (rule ingest_sections [OF i(1) Cons.prems(2) f])
    moreover have "section_texts db' (ss_name q) (wk_version w) = section_texts db1 (ss_name q) (wk_version w)"
      using run_all_laws [OF rs(1) ok1 sup1] Cons.prems(4) by auto
    ultimately show ?thesis using True i(2) by auto
  next
    case False
    with Cons.prems(4, 6) show ?thesis
      by (intro Cons.IH [OF rs(1) ok1 sup1 _ none(1)]) auto
  qed
qed simp

lemma mvp_names_distinct: "distinct (map ss_name mvp_sources)"
  by code_simp

lemma resolved_whole:
  assumes "resolve_sources n = Some sources" "set (map ss_name sources) = set (map ss_name mvp_sources)"
  shows "sources = mvp_sources"
proof (cases n)
  case (Some m)
  with assms(1) obtain q where "sources = [q]" by (auto simp: resolve_sources_def)
  with assms(2) have "ss_name ` set mvp_sources = {ss_name q}" by simp
  moreover have "card (ss_name ` set mvp_sources) = 6" by code_simp
  ultimately show ?thesis by simp
qed (use assms in \<open>simp add: resolve_sources_def\<close>)

lemma ensured_hash:
  "get_version ix v = Some row \<Longrightarrow>
     \<exists>row0. get_version (snd (ensure_index_version v h e t ix)) v = Some row0 \<and> ix_source_hash row0 = ix_source_hash row"
proof -
  assume r: "get_version ix v = Some row"
  then have "ix_version row = v" using tget_Some [of ix_version "ix_rows ix" v row] by (simp add: get_version_def)
  with r show ?thesis
    by (cases "emb_provider e") (simp_all add: ensure_index_version_def get_version_def Let_def tget_tput)
qed

text \<open>
  A version seen for the first time is stamped with the whole corpus' fingerprint before anything is
  ingested, whatever becomes of the runs.
\<close>

lemma new_version_is_stamped_first:
  assumes "ingest_ok db" "id_supply ids 0 db" "drive w ids start now sources db = (code, rs, db')"
    "get_version (in_index db) (wk_version w) = None"
  shows "\<exists>row. get_version (in_index db') (wk_version w) = Some row \<and> ix_source_hash row = wk_hash w"
proof -
  let ?ix = "snd (ensure_index_version (wk_version w) (wk_hash w) (provenance w) start (in_index db))"
  obtain rs' db1 where r: "run_all w ids now 0 sources (db\<lparr>in_index := ?ix\<rparr>) = (rs', db1)"
    by (cases "run_all w ids now 0 sources (db\<lparr>in_index := ?ix\<rparr>)")
  have "in_index db1 = ?ix" using run_all_laws [OF r] assms(1, 2) by (simp add: id_supply_def)
  then show ?thesis
    using assms(3, 4) r
    by (auto simp: drive_def Let_def ensure_index_version_def advance_source_version_hash_def get_version_def
        table_simps split: if_splits)
qed

section \<open>The terms of a run are new\<close>

lemma term_keys_of_chunk:
  "map term_key (chunk_terms s c) = map (\<lambda>t. (t, ss_area s, ch_id c)) (map fst (extract_terms (term_body (ch_text c))))"
  by (simp add: chunk_terms_def term_key_def case_prod_unfold)

lemma term_keys_distinct: "distinct (map ch_id cs) \<Longrightarrow> distinct (map term_key (materialize_terms s cs))"
proof (induction cs)
  case (Cons c cs)
  have "distinct (map term_key (chunk_terms s c))"
    unfolding term_keys_of_chunk using extracted_texts_distinct [of "term_body (ch_text c)"]
    by (simp add: distinct_map inj_on_def)
  moreover have "snd (snd k) = ch_id c" if "k \<in> set (map term_key (chunk_terms s c))" for k
    using that unfolding term_keys_of_chunk by auto
  moreover have "snd (snd k) \<in> ch_id ` set cs" if "k \<in> set (map term_key (materialize_terms s cs))" for k
    using that by (auto simp: materialize_terms_def chunk_terms_def term_key_def)
  moreover have "ch_id c \<notin> ch_id ` set cs" "distinct (map term_key (materialize_terms s cs))"
    using Cons by auto
  ultimately have "set (map term_key (chunk_terms s c)) \<inter> set (map term_key (materialize_terms s cs)) = {}"
    by (metis disjoint_iff)
  with \<open>distinct (map term_key (chunk_terms s c))\<close> \<open>distinct (map term_key (materialize_terms s cs))\<close>
  show ?case by (simp add: materialize_terms_def)
qed (simp add: materialize_terms_def)

lemma new_terms_unique:
  assumes "ingest_ok db" "ids_fresh ids db" "length vs = length (drafts_of w s raw)"
  shows "unique term_key (tdel (\<lambda>t. et_doc t = d) (in_terms db)
    @ materialize_terms s (map (new_chunk w ids s d) (zip (drafts_of w s raw) vs)))"
proof -
  let ?cs = "map (new_chunk w ids s d) (zip (drafts_of w s raw) vs)"
  have "distinct (map ch_id ?cs)"
    unfolding ids_of_new_chunks [OF assms(3)] using assms(2) by (auto simp: ids_fresh_def distinct_map inj_on_def dest: injD)
  then have new: "distinct (map term_key (materialize_terms s ?cs))" by (rule term_keys_distinct)
  have old: "distinct (map term_key (tdel (\<lambda>t. et_doc t = d) (in_terms db)))"
    using assms(1) unique_tdel [of term_key "in_terms db"] by (simp add: ingest_ok_def unique_def)
  have "snd (snd (term_key t)) \<in> range ids" if "t \<in> set (materialize_terms s ?cs)" for t
    using that by (auto simp: materialize_terms_def chunk_terms_def term_key_def)
  moreover have "snd (snd (term_key t)) \<notin> range ids" if "t \<in> set (tdel (\<lambda>t. et_doc t = d) (in_terms db))" for t
  proof -
    from that assms(1) obtain c where "c \<in> set (in_chunks db)" "ch_id c = et_chunk t"
      by (auto simp: tdel_def ingest_ok_def)
    then have "et_chunk t \<in> ch_id ` set (in_chunks db)" by (metis imageI)
    then have "et_chunk t \<notin> range ids" by (rule fresh_not_stored [OF assms(2)])
    then show ?thesis by (simp add: term_key_def)
  qed
  ultimately have "term_key ` set (tdel (\<lambda>t. et_doc t = d) (in_terms db)) \<inter> term_key ` set (materialize_terms s ?cs) = {}"
    by fastforce
  with new old show ?thesis by (simp add: unique_def)
qed

section \<open>Properties\<close>

text \<open>C39: A run replaces the chunks of its own source whole, by those of the text it fetched, and touches
  no other source's; a run that fails leaves everything retrieval reads as it was, so an edit that
  breaks a source never empties the index.\<close>

theorem run_replaces_or_keeps:
  assumes "ingest_ok db" and "ids_fresh ids db" and "run w ids now s db = (r, db')"
  shows "if rr_status r = Job_completed
    then \<exists>raw. fetch (wk_files w) (wk_fetcher w) s = Inr raw \<and> drafts_of w s raw \<noteq> []
      \<and> (\<forall>n v. section_texts db' n v =
            (if n = ss_name s \<and> v = wk_version w then map cd_text (drafts_of w s raw) else section_texts db n v))
    else corpus_of db' = corpus_of db"
  using assms(3)
proof (cases rule: run_cases)
  case (failed e)
  then show ?thesis by (simp add: corpus_of_def)
next
  case (completed cs ts db1 j)
  obtain raw where raw: "fetch (wk_files w) (wk_fetcher w) s = Inr raw"
    "section_texts db1 (ss_name s) (wk_version w) = map cd_text (drafts_of w s raw)"
    "\<And>n v. (n, v) \<noteq> (ss_name s, wk_version w) \<Longrightarrow> section_texts db1 n v = section_texts db n v"
    by (rule ingest_sections [OF completed(1) assms(1, 2)]) blast
  moreover obtain raw' where "fetch (wk_files w) (wk_fetcher w) s = Inr raw'" "drafts_of w s raw' \<noteq> []"
    by (rule ingest_Inr [OF completed(1)])
  ultimately show ?thesis using completed by auto
qed

text \<open>C38: The fingerprint the answer cache keys on is moved by a drive of the CLI only when every source of
  the corpus was ingested in it: after the move each source's stored sections are those of its text.\<close>

theorem published_hash_is_the_corpus:
  assumes "ingest_ok db" and "id_supply ids 0 db" and "resolve_sources n = Some sources"
    and "drive w ids start now sources db = (code, rs, db')"
    and "get_version (in_index db) (wk_version w) = Some row"
    and "get_version (in_index db') (wk_version w) = Some row'"
    and "ix_source_hash row' \<noteq> ix_source_hash row" and "s \<in> set mvp_sources"
  shows "\<exists>raw. fetch (wk_files w) (wk_fetcher w) s = Inr raw
    \<and> section_texts db' (ss_name s) (wk_version w) = map cd_text (drafts_of w s raw)"
proof -
  let ?ix = "snd (ensure_index_version (wk_version w) (wk_hash w) (provenance w) start (in_index db))"
  obtain rs' db1 where r: "run_all w ids now 0 sources (db\<lparr>in_index := ?ix\<rparr>) = (rs', db1)"
    by (cases "run_all w ids now 0 sources (db\<lparr>in_index := ?ix\<rparr>)")
  have sup: "id_supply ids 0 (db\<lparr>in_index := ?ix\<rparr>)" using assms(2) by (simp add: id_supply_def)
  have ix: "in_index db1 = ?ix" using run_all_laws [OF r _ sup] assms(1) by simp
  have moved: "failures rs' = 0 \<and> set (map ss_name sources) = set (map ss_name mvp_sources)"
  proof (rule ccontr)
    assume "\<not> ?thesis"
    then have "in_index db' = ?ix" using assms(4) r ix by (auto simp: drive_def Let_def split: if_splits)
    with ensured_hash [OF assms(5), of "wk_hash w" "provenance w" start] assms(6, 7) show False by simp
  qed
  then have "sources = mvp_sources" using resolved_whole [OF assms(3)] by blast
  then have "\<exists>raw. fetch (wk_files w) (wk_fetcher w) s = Inr raw
      \<and> section_texts db1 (ss_name s) (wk_version w) = map cd_text (drafts_of w s raw)"
    using run_all_sections [OF r _ sup] assms(1, 8) moved mvp_names_distinct by simp
  moreover have "\<exists>ix. db' = db1\<lparr>in_index := ix\<rparr>" using assms(4) r moved by (auto simp: drive_def Let_def)
  ultimately show ?thesis by auto
qed


section \<open>Witnesses\<close>

definition demo_new_ids :: "nat \<Rightarrow> fresh \<Rightarrow> string" where
  "demo_new_ids i f = show_nat i @ (case f of Job_id \<Rightarrow> ''j'' | Doc_id \<Rightarrow> ''d'' | Chunk_id n \<Rightarrow> ''c'' @ show_nat n)"

definition demo_files :: file_store where
  "demo_files = \<lparr>fs_root = ''/app'',
     fs_read = (\<lambda>p. File_text (''# T'' @ [CHR 0x0A] @ ''## A'' @ [CHR 0x0A] @ ''x'')), fs_repr = (\<lambda>n. n)\<rparr>"

definition demo_worker :: worker where
  "demo_worker = \<lparr>wk_files = demo_files, wk_fetcher = Local_fetcher, wk_embed = (\<lambda>ts. Inr (map (\<lambda>_. None) ts)),
     wk_hash = ''new'', wk_version = ''v1'', wk_provider = None, wk_model = None, wk_dim = 8, wk_dash = ''-'',
     wk_sha = (\<lambda>t. t), wk_integrity = ''constraint''\<rparr>"

definition demo_ingest :: ingest_db where
  "demo_ingest = \<lparr>in_index = \<lparr>ix_rows = [\<lparr>ix_version = ''v1'', ix_status = Active, ix_source_hash = ''old'',
       ix_created = 0, ix_promoted = Some 1, ix_run = None,
       ix_embedder = \<lparr>emb_provider = None, emb_model = None, emb_dim = None\<rparr>\<rparr>], ix_runs = [], ix_audit = []\<rparr>,
     in_docs = [], in_chunks = [], in_terms = [], in_jobs = []\<rparr>"

definition demo_driven where
  "demo_driven = drive demo_worker demo_new_ids 0 (\<lambda>i t. 5) mvp_sources demo_ingest"

definition demo_ran where
  "demo_ran = run demo_worker (demo_new_ids 0) (\<lambda>t. 5) (hd mvp_sources) demo_ingest"

lemma show_nat_split:
  assumes "show_nat i @ c # s = show_nat j @ d # t" "\<not> is_digit c" "\<not> is_digit d"
  shows "i = j \<and> c # s = d # t"
proof -
  have "takeWhile is_digit (show_nat k @ e # u) = show_nat k" if "\<not> is_digit e" for k e u
    using that show_nat_digits [of k] by (simp add: takeWhile_append2)
  with assms have "show_nat i = show_nat j" by metis
  with assms(1) show ?thesis by simp
qed

lemma demo_ids_inj: "inj (\<lambda>(i, f). demo_new_ids i f)"
proof (rule injI, clarify)
  fix i f j g assume e: "demo_new_ids i f = demo_new_ids j g"
  obtain c s where c: "(case f of Job_id \<Rightarrow> ''j'' | Doc_id \<Rightarrow> ''d'' | Chunk_id n \<Rightarrow> ''c'' @ show_nat n) = c # s"
      "\<not> is_digit c"
    by (cases f) (simp_all add: is_digit_def)
  obtain d t where d: "(case g of Job_id \<Rightarrow> ''j'' | Doc_id \<Rightarrow> ''d'' | Chunk_id n \<Rightarrow> ''c'' @ show_nat n) = d # t"
      "\<not> is_digit d"
    by (cases g) (simp_all add: is_digit_def)
  from e c d have "i = j \<and> c # s = d # t" by (intro show_nat_split) (simp_all add: demo_new_ids_def)
  with c(1) d(1) show "i = j \<and> f = g" by (cases f; cases g) auto
qed

lemma demo_ids_fresh: "ids_fresh (demo_new_ids i) demo_ingest"
  using demo_ids_inj by (auto simp: ids_fresh_def demo_ingest_def doc_keys_def inj_def)

lemma demo_supply: "id_supply demo_new_ids 0 demo_ingest"
  using demo_ids_inj demo_ids_fresh by (simp add: id_supply_def)

lemma demo_ingest_ok: "ingest_ok demo_ingest"
  by (simp add: ingest_ok_def demo_ingest_def doc_keys_def)

lemma demo_driven_eq: "fst demo_driven = 0
    \<and> map_option ix_source_hash (get_version (in_index (snd (snd demo_driven))) ''v1'') = Some ''new''"
  by code_simp

lemma demo_ran_status: "rr_status (fst demo_ran) = Job_completed"
  by code_simp

theorem run_replaces_or_keeps_witness:
  "section_texts (snd demo_ran) ''claude_api'' ''v1'' = [''T - A. x'']"
proof -
  have "fetch (wk_files demo_worker) (wk_fetcher demo_worker) (hd mvp_sources)
      = Inr (''# T'' @ [CHR 0x0A] @ ''## A'' @ [CHR 0x0A] @ ''x'')"
    by code_simp
  moreover have "map cd_text (drafts_of demo_worker (hd mvp_sources)
      (''# T'' @ [CHR 0x0A] @ ''## A'' @ [CHR 0x0A] @ ''x'')) = [''T - A. x'']"
    by code_simp
  moreover have "ss_name (hd mvp_sources) = ''claude_api''" "wk_version demo_worker = ''v1''" by code_simp+
  moreover have "run demo_worker (demo_new_ids 0) (\<lambda>t. 5) (hd mvp_sources) demo_ingest = (fst demo_ran, snd demo_ran)"
    by (simp add: demo_ran_def)
  ultimately show ?thesis
    using run_replaces_or_keeps [OF demo_ingest_ok demo_ids_fresh] demo_ran_status by fastforce
qed

theorem published_hash_is_the_corpus_witness:
  "\<exists>raw. fetch demo_files Local_fetcher (hd mvp_sources) = Inr raw
    \<and> section_texts (snd (snd demo_driven)) ''claude_api'' ''v1'' = map cd_text (drafts_of demo_worker (hd mvp_sources) raw)"
proof -
  have r: "resolve_sources None = Some mvp_sources" by (simp add: resolve_sources_def)
  have d: "drive demo_worker demo_new_ids 0 (\<lambda>i t. 5) mvp_sources demo_ingest
      = (fst demo_driven, fst (snd demo_driven), snd (snd demo_driven))"
    by (simp add: demo_driven_def)
  have w: "wk_version demo_worker = ''v1''" "wk_files demo_worker = demo_files" "wk_fetcher demo_worker = Local_fetcher"
    by (simp_all add: demo_worker_def)
  obtain row where old: "get_version (in_index demo_ingest) ''v1'' = Some row" "ix_source_hash row = ''old''"
    by (simp add: demo_ingest_def get_version_def)
  obtain row' where new: "get_version (in_index (snd (snd demo_driven))) ''v1'' = Some row'" "ix_source_hash row' = ''new''"
    using demo_driven_eq by auto
  have s: "hd mvp_sources \<in> set mvp_sources" "ss_name (hd mvp_sources) = ''claude_api''"
    by (simp_all add: mvp_sources_def)
  show ?thesis
    using published_hash_is_the_corpus [OF demo_ingest_ok demo_supply r d, unfolded w, OF old(1) new(1) _ s(1)]
      old(2) new(2) s(2) by simp
qed


end
