(* ===== verification/Query_Health.thy ===== *)
theory Query_Health
  imports Prelude
begin

text \<open>
  The record of an embedding provider that refuses the account (\<open>app/embeddings/query_health.py\<close>): two
  Redis keys, what writes them, what the health route reads and the self-check with its lock. A time
  the module stored is kept as the timestamp it denotes; only this module writes the key. A Redis
  call is answered, or lost before it had an effect, or answered too late for the caller.
\<close>

datatype redis_call = Redis_answered | Redis_lost | Redis_late

definition takes_effect :: "redis_call \<Rightarrow> bool" where
  "takes_effect c \<longleftrightarrow> c \<noteq> Redis_lost"

record tracker =
  th_since :: "timestamp option"
  th_lock :: "timestamp option" \<comment> \<open>when the lock expires\<close>

definition record_failure :: "redis_call \<Rightarrow> bool \<Rightarrow> timestamp \<Rightarrow> tracker \<Rightarrow> tracker" where
  "record_failure c account_refused now t =
     (if \<not> account_refused then t
      else if takes_effect c \<and> th_since t = None then t\<lparr>th_since := Some now\<rparr> else t)"

definition record_success :: "redis_call \<Rightarrow> tracker \<Rightarrow> tracker" where
  "record_success c t = (if takes_effect c then t\<lparr>th_since := None\<rparr> else t)"

datatype embedder_status = State_ok | State_refused timestamp | State_unavailable | State_unconfigured

definition tracker_status :: "redis_call \<Rightarrow> tracker \<Rightarrow> embedder_status" where
  "tracker_status c t =
     (if c \<noteq> Redis_answered then State_unavailable
      else case th_since t of None \<Rightarrow> State_ok | Some since \<Rightarrow> State_refused since)"

text \<open>\<open>None\<close> is a deployment without Redis.\<close>

definition health_status :: "redis_call \<Rightarrow> tracker option \<Rightarrow> embedder_status" where
  "health_status c t = (case t of None \<Rightarrow> State_unconfigured | Some t \<Rightarrow> tracker_status c t)"

text \<open>\<open>SET key 1 NX EX interval\<close>; the answer is the caller's only when it came in time.\<close>

definition claim_self_check :: "redis_call \<Rightarrow> int \<Rightarrow> timestamp \<Rightarrow> tracker \<Rightarrow> bool \<times> tracker" where
  "claim_self_check c interval now t =
     (let free = (case th_lock t of None \<Rightarrow> True | Some expires \<Rightarrow> expires \<le> now) in
      if takes_effect c \<and> free
      then (c = Redis_answered, t\<lparr>th_lock := Some (now + microseconds interval)\<rparr>)
      else (False, t))"

text \<open>How an embedding call ends: a vector, an account refusal, or anything else.\<close>

datatype embed_outcome = Vector_came | Account_refused | Unsettled

text \<open>
  The self-check: whether the paid call is made, and the tracker after it. \<open>busy\<close> is a semaphore
  without a free slot; \<open>c'\<close> and \<open>later\<close> are the recording call and its time.
\<close>

definition run_self_check ::
    "int \<Rightarrow> bool \<Rightarrow> redis_call \<Rightarrow> timestamp \<Rightarrow> embed_outcome \<Rightarrow> redis_call \<Rightarrow> timestamp \<Rightarrow> tracker \<Rightarrow> bool \<times> tracker" where
  "run_self_check interval busy c now outcome c' later t =
     (if interval = 0 \<or> busy then (False, t)
      else (case claim_self_check c interval now t of
              (False, t1) \<Rightarrow> (False, t1)
            | (True, t1) \<Rightarrow>
                (True, (case outcome of
                          Vector_came \<Rightarrow> record_success c' t1
                        | Account_refused \<Rightarrow> record_failure c' True later t1
                        | Unsettled \<Rightarrow> t1))))"

text \<open>The ping is built with a timeout of its own and no retries.\<close>

definition ping_retries :: nat where
  "ping_retries = 0"

section \<open>A run of the deployment\<close>

text \<open>A question's embedding call, or a visit to the health route.\<close>

datatype event =
    Question embed_outcome redis_call
  | Health_visit bool redis_call embed_outcome redis_call timestamp

definition question :: "timestamp \<Rightarrow> embed_outcome \<Rightarrow> redis_call \<Rightarrow> tracker \<Rightarrow> tracker" where
  "question now outcome c t =
     (case outcome of
        Vector_came \<Rightarrow> record_success c t
      | Account_refused \<Rightarrow> record_failure c True now t
      | Unsettled \<Rightarrow> record_failure c False now t)"

text \<open>The tracker after the events, and the times of the paid self-checks.\<close>

fun tracker_run :: "int \<Rightarrow> (timestamp \<times> event) list \<Rightarrow> tracker \<Rightarrow> tracker \<times> timestamp list" where
  "tracker_run interval [] t = (t, [])"
| "tracker_run interval ((now, e) # es) t =
     (case e of
        Question outcome c \<Rightarrow> tracker_run interval es (question now outcome c t)
      | Health_visit busy c outcome c' later \<Rightarrow>
          (case run_self_check interval busy c now outcome c' later t of
             (paid, t1) \<Rightarrow>
               (case tracker_run interval es t1 of
                  (t2, paid_at) \<Rightarrow> (t2, if paid then now # paid_at else paid_at))))"

section \<open>The self-check is rationed\<close>

text \<open>Consecutive times at least a gap apart, the first one not before \<open>from\<close>.\<close>

fun spaced :: "int \<Rightarrow> timestamp option \<Rightarrow> timestamp list \<Rightarrow> bool" where
  "spaced gap from [] = True"
| "spaced gap from (t # ts) \<longleftrightarrow> (case from of None \<Rightarrow> True | Some f \<Rightarrow> f \<le> t) \<and> spaced gap (Some (t + gap)) ts"

lemma record_lock [simp]:
  "th_lock (record_failure c r now t) = th_lock t" "th_lock (record_success c t) = th_lock t"
  "th_lock (question now outcome c t) = th_lock t"
  by (simp_all add: record_failure_def record_success_def question_def split: embed_outcome.splits)

lemma spaced_weaken: "spaced gap (Some f) ts \<Longrightarrow> (case from of None \<Rightarrow> True | Some g \<Rightarrow> g \<le> f) \<Longrightarrow> spaced gap from ts"
  by (cases ts) (auto split: option.splits)

lemma run_self_check_lock:
  assumes "run_self_check interval busy c now outcome c' later t = (paid, t1)"
  shows "(paid \<longrightarrow> (case th_lock t of None \<Rightarrow> True | Some e \<Rightarrow> e \<le> now) \<and> th_lock t1 = Some (now + microseconds interval))
    \<and> (th_lock t1 = th_lock t \<or> (case th_lock t of None \<Rightarrow> True | Some e \<Rightarrow> e \<le> now) \<and> th_lock t1 = Some (now + microseconds interval))"
  using assms
  by (cases "c = Redis_answered")
    (auto simp: run_self_check_def claim_self_check_def Let_def split: if_splits embed_outcome.splits option.splits)

lemma tracker_run_spaced:
  assumes "0 \<le> interval"
  shows "spaced (microseconds interval) (th_lock t) (snd (tracker_run interval es t))"
proof (induction es arbitrary: t)
  case (Cons e es)
  obtain now ev where e: "e = (now, ev)" by (cases e)
  show ?case
  proof (cases ev)
    case (Question outcome c)
    then show ?thesis using e Cons [of "question now outcome c t"] by simp
  next
    case (Health_visit busy c outcome c' later)
    obtain paid t1 where r: "run_self_check interval busy c now outcome c' later t = (paid, t1)"
      by (rule prod.exhaust)
    obtain t2 paid_at where tr: "tracker_run interval es t1 = (t2, paid_at)"
      by (cases "tracker_run interval es t1")
    have s: "spaced (microseconds interval) (th_lock t1) paid_at" using Cons [of t1] tr by simp
    have le: "now \<le> now + microseconds interval" using assms by (simp add: microseconds_def)
    show ?thesis
      using run_self_check_lock [OF r] s le e Health_visit r tr
      by (auto split: option.splits intro: spaced_weaken)
  qed
qed simp

section \<open>What the health route says\<close>

text \<open>The verdicts the events give, in order: \<open>None\<close> a success, \<open>Some t\<close> a refusal at \<open>t\<close>.\<close>

definition verdict :: "timestamp \<Rightarrow> embed_outcome \<Rightarrow> timestamp option list" where
  "verdict now outcome =
     (case outcome of Vector_came \<Rightarrow> [None] | Account_refused \<Rightarrow> [Some now] | Unsettled \<Rightarrow> [])"

fun verdicts :: "int \<Rightarrow> (timestamp \<times> event) list \<Rightarrow> tracker \<Rightarrow> timestamp option list" where
  "verdicts interval [] t = []"
| "verdicts interval ((now, e) # es) t =
     (case e of
        Question outcome c \<Rightarrow> verdict now outcome @ verdicts interval es (question now outcome c t)
      | Health_visit busy c outcome c' later \<Rightarrow>
          (case run_self_check interval busy c now outcome c' later t of
             (paid, t1) \<Rightarrow> (if paid then verdict later outcome else []) @ verdicts interval es t1))"

text \<open>The first refusal since the last success.\<close>

definition refused_since :: "timestamp option list \<Rightarrow> timestamp option" where
  "refused_since vs = (case rev (takeWhile (\<lambda>v. v \<noteq> None) (rev vs)) of [] \<Rightarrow> None | v # _ \<Rightarrow> v)"

fun latest :: "timestamp option \<Rightarrow> timestamp option list \<Rightarrow> timestamp option" where
  "latest since [] = since"
| "latest since (v # vs) = latest (case v of None \<Rightarrow> None | Some t \<Rightarrow> (case since of None \<Rightarrow> Some t | Some s \<Rightarrow> Some s)) vs"

lemma latest_append: "latest since (us @ vs) = latest (latest since us) vs"
  by (induction us arbitrary: since) auto

lemma latest_refused_since: "latest None vs = refused_since vs"
proof (induction vs rule: rev_induct)
  case (snoc v vs)
  show ?case
  proof (cases v)
    case None
    then show ?thesis by (simp add: latest_append refused_since_def)
  next
    case (Some t)
    have "refused_since (vs @ [Some t]) = (case refused_since vs of None \<Rightarrow> Some t | Some s \<Rightarrow> Some s)"
    proof (cases "rev (takeWhile (\<lambda>v. v \<noteq> None) (rev vs))")
      case (Cons a list)
      then have "a \<in> set (takeWhile (\<lambda>v. v \<noteq> None) (rev vs))" by (metis list.set_intros(1) set_rev)
      then have "a \<noteq> None" by (auto dest: set_takeWhileD)
      then show ?thesis using Cons by (auto simp: refused_since_def)
    qed (simp add: refused_since_def)
    then show ?thesis using Some snoc by (simp add: latest_append)
  qed
qed (simp add: refused_since_def)

definition redis_up :: "timestamp \<times> event \<Rightarrow> bool" where
  "redis_up e \<longleftrightarrow>
     (case snd e of
        Question outcome c \<Rightarrow> takes_effect c
      | Health_visit busy c outcome c' later \<Rightarrow> takes_effect c')"

lemma claim_since: "th_since (snd (claim_self_check c interval now t)) = th_since t"
  by (simp add: claim_self_check_def Let_def)

lemma tracker_run_since:
  "\<forall>e\<in>set es. redis_up e \<Longrightarrow>
   th_since (fst (tracker_run interval es t)) = latest (th_since t) (verdicts interval es t)"
proof (induction es arbitrary: t)
  case (Cons e es)
  obtain now ev where e: "e = (now, ev)" by (cases e)
  have up: "redis_up (now, ev)" "\<forall>e\<in>set es. redis_up e" using Cons(2) e by auto
  show ?case
  proof (cases ev)
    case (Question outcome c)
    have "th_since (question now outcome c t) = latest (th_since t) (verdict now outcome)"
      using up(1) Question
      by (auto simp: question_def record_failure_def record_success_def verdict_def redis_up_def
          split: embed_outcome.splits option.splits)
    then show ?thesis using Cons(1) [OF up(2), of "question now outcome c t"] e Question
      by (simp add: latest_append)
  next
    case (Health_visit busy c outcome c' later)
    obtain paid t1 where r: "run_self_check interval busy c now outcome c' later t = (paid, t1)"
      by (rule prod.exhaust)
    have "th_since t1 = latest (th_since t) (if paid then verdict later outcome else [])"
      using up(1) Health_visit r claim_since [of c interval now t]
      by (auto simp: run_self_check_def record_failure_def record_success_def verdict_def redis_up_def
          split: if_splits embed_outcome.splits option.splits prod.splits bool.splits)
    then show ?thesis using Cons(1) [OF up(2), of t1] e Health_visit r
      by (simp add: latest_append case_prod_beta)
  qed
qed simp

lemma health_route_is_honest_parts:
  fixes es :: "(timestamp \<times> event) list"
  defines "t0 \<equiv> \<lparr>th_since = None, th_lock = None\<rparr>"
  shows "\<forall>e\<in>set es. redis_up e \<Longrightarrow>
      health_status Redis_answered (Some (fst (tracker_run interval es t0)))
        = (case refused_since (verdicts interval es t0) of None \<Rightarrow> State_ok | Some s \<Rightarrow> State_refused s)"
    and "0 \<le> interval \<Longrightarrow> spaced (microseconds interval) None (snd (tracker_run interval es t0))"
proof -
  show "\<forall>e\<in>set es. redis_up e \<Longrightarrow>
      health_status Redis_answered (Some (fst (tracker_run interval es t0)))
        = (case refused_since (verdicts interval es t0) of None \<Rightarrow> State_ok | Some s \<Rightarrow> State_refused s)"
    using tracker_run_since [of es interval t0]
    by (simp add: health_status_def tracker_status_def t0_def latest_refused_since)
  show "0 \<le> interval \<Longrightarrow> spaced (microseconds interval) None (snd (tracker_run interval es t0))"
    using tracker_run_spaced [of interval t0 es] by (simp add: t0_def)
qed

text \<open>C24: The health route tells the truth, and its self-check cannot run away with money. While Redis
  answers, the route reports a refused account exactly when a refusal came since the last successful
  embedding, with the time of the first one; and over any course of events, whatever Redis does, two
  paid self-checks are at least one interval apart.\<close>
theorem health_route_is_honest:
  fixes es :: "(timestamp \<times> event) list"
  defines "t0 \<equiv> \<lparr>th_since = None, th_lock = None\<rparr>"
  shows "((\<forall>e\<in>set es. redis_up e) \<longrightarrow> (health_status Redis_answered (Some (fst (tracker_run interval es t0)))
        = (case refused_since (verdicts interval es t0) of None \<Rightarrow> State_ok | Some s \<Rightarrow> State_refused s)))
     \<and> ((0 \<le> interval) \<longrightarrow> (spaced (microseconds interval) None (snd (tracker_run interval es t0))))"
  unfolding t0_def using health_route_is_honest_parts by blast

definition demo_day :: "(timestamp \<times> event) list" where
  "demo_day = [(1, Question Account_refused Redis_answered), (2, Question Account_refused Redis_answered),
     (3, Health_visit False Redis_answered Account_refused Redis_answered 4),
     (5, Health_visit False Redis_answered Vector_came Redis_answered 6)]"

theorem health_route_is_honest_witness:
  "health_status Redis_answered (Some (fst (tracker_run 60 demo_day \<lparr>th_since = None, th_lock = None\<rparr>))) = State_refused 1
   \<and> spaced (microseconds 60) None (snd (tracker_run 60 demo_day \<lparr>th_since = None, th_lock = None\<rparr>))
   \<and> snd (tracker_run 60 demo_day \<lparr>th_since = None, th_lock = None\<rparr>) = [3]"
proof -
  have "\<forall>e\<in>set demo_day. redis_up e" by code_simp
  moreover have "refused_since (verdicts 60 demo_day \<lparr>th_since = None, th_lock = None\<rparr>) = Some 1"
    "snd (tracker_run 60 demo_day \<lparr>th_since = None, th_lock = None\<rparr>) = [3]"
    by code_simp+
  ultimately show ?thesis
    using health_route_is_honest [of demo_day 60] by simp
qed

end
