(* ===== verification/Memberships.thy ===== *)
theory Memberships
  imports Json Tables
begin

text \<open>
  \<open>app/billing/memberships.py\<close> and the two tables it owns (\<open>app/models/memberships.py\<close>): one row per
  Stripe subscription, one row per applied event id. An event is only a signal; what is stored is
  what the live subscription says (\<open>fetch\<close>, the Stripe API, a parameter: its \<open>k\<close>-th answer in one
  request, \<open>None\<close> for a \<open>StripeError\<close>).

  The lemmas: what one event does to the tables, that a second delivery does nothing, that a failed
  read writes nothing, that the row of a subscription never changes account, and the life of a grace
  period over any sequence of reads.
\<close>

section \<open>Tables\<close>

record membership =
  m_account :: user_id
  m_plan :: string
  m_status :: string
  m_interval :: "string option"
  m_customer :: "string option"
  m_sub :: string
  m_period_end :: "timestamp option"
  m_cancel_at_period_end :: bool
  m_grace_until :: "timestamp option"
  m_created_at :: timestamp
  m_updated_at :: timestamp

datatype outcome = Ignored | Duplicate | Unmatched | Applied | Applied_account_mismatch

record stripe_event =
  e_id :: string
  e_type :: string
  e_created :: int
  e_account :: "user_id option"
  e_outcome :: outcome
  e_received_at :: timestamp

record billing_db =
  accounts :: "user_id list"
  members :: "membership list"
  stripe_events :: "stripe_event list"

datatype billing_error = Stripe_error | Value_error

section \<open>The rule for Pro\<close>

definition paid_statuses :: "string list" where
  "paid_statuses = [''active'', ''trialing'']"

definition ended_statuses :: "string list" where
  "ended_statuses = [''canceled'', ''incomplete_expired'']"

definition is_pro :: "membership option \<Rightarrow> timestamp \<Rightarrow> bool" where
  "is_pro m now =
     (case m of
        None \<Rightarrow> False
      | Some r \<Rightarrow>
          if m_status r \<in> set paid_statuses then True
          else if m_status r = ''past_due'' \<and> m_grace_until r \<noteq> None
               then the (m_grace_until r) > now
          else False)"

definition account_is_pro :: "membership list \<Rightarrow> timestamp \<Rightarrow> bool" where
  "account_is_pro ms now = list_ex (\<lambda>m. is_pro (Some m) now) ms"

section \<open>Reading an untrusted payload\<close>

definition event_object :: "obj \<Rightarrow> obj" where
  "event_object event = as_dict (jget (as_dict (jget event ''data'')) ''object'')"

definition first_item :: "obj \<Rightarrow> obj" where
  "first_item sub =
     (case jget (as_dict (jget sub ''items'')) ''data'' of
        JArr (x # xs) \<Rightarrow> as_dict x
      | _ \<Rightarrow> [])"

text \<open>\<open>datetime.fromtimestamp(s, UTC)\<close> accepts the years 1 to 9999 and raises outside them.\<close>

definition utc_from_timestamp :: "int \<Rightarrow> billing_error + timestamp" where
  "utc_from_timestamp s =
     (if -62135596800 \<le> s \<and> s < 253402300800 then Inr (microseconds s) else Inl Value_error)"

definition period_end :: "obj \<Rightarrow> billing_error + timestamp option" where
  "period_end sub =
     (let raw = (if jget sub ''current_period_end'' = JNull
                 then jget (first_item sub) ''current_period_end''
                 else jget sub ''current_period_end'')
      in if is_number raw
         then (case py_int raw of
                 None \<Rightarrow> Inl Value_error
               | Some s \<Rightarrow> (case utc_from_timestamp s of Inl e \<Rightarrow> Inl e | Inr t \<Rightarrow> Inr (Some t)))
         else Inr None)"

definition billing_interval :: "obj \<Rightarrow> string option" where
  "billing_interval sub =
     as_str (jget (as_dict (jget (as_dict (jget (first_item sub) ''price'')) ''recurring''))
       ''interval'')"

definition subscription_events :: "string list" where
  "subscription_events =
     [''customer.subscription.created'', ''customer.subscription.updated'',
      ''customer.subscription.deleted'']"

definition invoice_events :: "string list" where
  "invoice_events = [''invoice.payment_failed'', ''invoice.paid'', ''invoice.payment_succeeded'']"

definition subscription_id :: "string \<Rightarrow> obj \<Rightarrow> string option" where
  "subscription_id kind ob =
     (if kind \<in> set subscription_events then as_str (jget ob ''id'')
      else (case jget ob ''subscription'' of
              JStr s \<Rightarrow> Some s
            | _ \<Rightarrow> as_str (jget (as_dict (jget (as_dict (jget ob ''parent''))
                        ''subscription_details'')) ''subscription'')))"

definition claimed_account :: "obj \<Rightarrow> user_id option" where
  "claimed_account sub = as_str (jget (as_dict (jget sub ''metadata'')) ''account_id'')"

section \<open>Storing what Stripe says\<close>

definition sub_status :: "(json \<Rightarrow> string) \<Rightarrow> obj \<Rightarrow> string" where
  "sub_status repr sub = str_or repr (jget sub ''status'') ''incomplete''"

definition next_grace ::
    "string \<Rightarrow> timestamp option \<Rightarrow> timestamp \<Rightarrow> int \<Rightarrow> timestamp option" where
  "next_grace status grace now grace_days =
     (if status = ''past_due''
      then (case grace of None \<Rightarrow> Some (now + grace_days * day_us) | Some g \<Rightarrow> Some g)
      else None)"

definition store ::
    "(json \<Rightarrow> string) \<Rightarrow> membership \<Rightarrow> obj \<Rightarrow> timestamp \<Rightarrow> int \<Rightarrow> billing_error + membership" where
  "store repr m sub now grace_days =
     (case period_end sub of
        Inl e \<Rightarrow> Inl e
      | Inr pe \<Rightarrow> Inr (m\<lparr>
          m_status := sub_status repr sub,
          m_interval := billing_interval sub,
          m_customer := as_str (jget sub ''customer''),
          m_period_end := pe,
          m_cancel_at_period_end :=
            truthy (jget sub ''cancel_at_period_end'') \<or> jget sub ''cancel_at'' \<noteq> JNull,
          m_grace_until := next_grace (sub_status repr sub) (m_grace_until m) now grace_days,
          m_updated_at := now\<rparr>))"

definition row_of :: "membership list \<Rightarrow> string \<Rightarrow> membership option" where
  "row_of ms sub_id = tget m_sub ms sub_id"

definition new_row :: "user_id \<Rightarrow> string \<Rightarrow> timestamp \<Rightarrow> membership" where
  "new_row account sub_id now =
     \<lparr>m_account = account, m_plan = ''pro'', m_status = [], m_interval = None, m_customer = None,
      m_sub = sub_id, m_period_end = None, m_cancel_at_period_end = False, m_grace_until = None,
      m_created_at = now, m_updated_at = now\<rparr>"

text \<open>Write a row back: in place when the subscription has one, else added.\<close>

definition put_row :: "membership \<Rightarrow> membership list \<Rightarrow> membership list" where
  "put_row m ms = tput m_sub m ms"

text \<open>
  \<open>_sync\<close> up to the lock (the first read chooses the account whose row is locked) and from the lock
  on (the second read is what is stored).
\<close>

definition sync_account :: "membership list \<Rightarrow> string \<Rightarrow> obj \<Rightarrow> user_id option" where
  "sync_account ms sub_id first =
     (case row_of ms sub_id of Some m \<Rightarrow> Some (m_account m) | None \<Rightarrow> claimed_account first)"

definition sync_locked ::
    "(json \<Rightarrow> string) \<Rightarrow> membership list \<Rightarrow> user_id \<Rightarrow> string \<Rightarrow> obj \<Rightarrow> timestamp \<Rightarrow> int
      \<Rightarrow> billing_error + membership list \<times> outcome \<times> user_id" where
  "sync_locked repr ms account sub_id sub now grace_days =
     (let m = (case row_of ms sub_id of Some m \<Rightarrow> m | None \<Rightarrow> new_row account sub_id now)
      in case store repr m sub now grace_days of
           Inl e \<Rightarrow> Inl e
         | Inr m' \<Rightarrow> Inr (put_row m' ms,
             if claimed_account sub \<noteq> Some (m_account m') then Applied_account_mismatch else Applied,
             m_account m'))"

definition sync ::
    "(json \<Rightarrow> string) \<Rightarrow> billing_db \<Rightarrow> string \<Rightarrow> (nat \<Rightarrow> string \<Rightarrow> obj option) \<Rightarrow> timestamp \<Rightarrow> int
      \<Rightarrow> billing_error + membership list \<times> outcome \<times> user_id option" where
  "sync repr db sub_id fetch now grace_days =
     (case fetch 0 sub_id of
        None \<Rightarrow> Inl Stripe_error
      | Some first \<Rightarrow>
          (case sync_account (members db) sub_id first of
             None \<Rightarrow> Inr (members db, Unmatched, None)
           | Some account \<Rightarrow>
               if account \<notin> set (accounts db) then Inr (members db, Unmatched, Some account)
               else (case fetch 1 sub_id of
                       None \<Rightarrow> Inl Stripe_error
                     | Some sub \<Rightarrow>
                         (case sync_locked repr (members db) account sub_id sub now grace_days of
                            Inl e \<Rightarrow> Inl e
                          | Inr (ms, out, acc) \<Rightarrow> Inr (ms, out, Some acc)))))"

section \<open>Applying an event\<close>

definition event_created :: "obj \<Rightarrow> billing_error + int" where
  "event_created event =
     (if is_number (jget event ''created'')
      then (case py_int (jget event ''created'') of None \<Rightarrow> Inl Value_error | Some n \<Rightarrow> Inr n)
      else Inr 0)"

definition log_event :: "stripe_event \<Rightarrow> membership list \<Rightarrow> billing_db \<Rightarrow> billing_db" where
  "log_event e ms db = db\<lparr>members := ms, stripe_events := stripe_events db @ [e]\<rparr>"

definition apply_event ::
    "(json \<Rightarrow> string) \<Rightarrow> billing_db \<Rightarrow> obj \<Rightarrow> (nat \<Rightarrow> string \<Rightarrow> obj option) \<Rightarrow> int \<Rightarrow> timestamp
      \<Rightarrow> billing_error + billing_db \<times> outcome" where
  "apply_event repr db event fetch grace_days now =
     (let event_id = str_or repr (jget event ''id'') [];
          kind = str_or repr (jget event ''type'') []
      in if event_id = [] then Inr (db, Ignored)
         else if event_id \<in> e_id ` set (stripe_events db) then Inr (db, Duplicate)
         else (case event_created event of
             Inl e \<Rightarrow> Inl e
           | Inr created \<Rightarrow>
               (case (if kind \<in> set subscription_events \<or> kind \<in> set invoice_events
                      then (case subscription_id kind (event_object event) of
                              None \<Rightarrow> Inr (members db, Unmatched, None)
                            | Some sub_id \<Rightarrow> sync repr db sub_id fetch now grace_days)
                      else Inr (members db, Ignored, None)) of
                  Inl e \<Rightarrow> Inl e
                | Inr (ms, out, account) \<Rightarrow>
                    Inr (log_event \<lparr>e_id = event_id, e_type = take 128 kind, e_created = created,
                           e_account = account, e_outcome = out, e_received_at = now\<rparr> ms db, out))))"

section \<open>Which row to show\<close>

definition memberships_for :: "membership list \<Rightarrow> user_id \<Rightarrow> membership list" where
  "memberships_for ms account =
     rev (sort_key m_updated_at (rev (filter (\<lambda>m. m_account m = account) ms)))"

definition primary :: "membership list \<Rightarrow> timestamp \<Rightarrow> membership option" where
  "primary ms now =
     (let pro = filter (\<lambda>m. is_pro (Some m) now) ms
      in case List.find (\<lambda>m. \<not> m_cancel_at_period_end m) pro of
           Some m \<Rightarrow> Some m
         | None \<Rightarrow> (case pro of m # _ \<Rightarrow> Some m
                    | [] \<Rightarrow> (case ms of m # _ \<Rightarrow> Some m | [] \<Rightarrow> None)))"

section \<open>Rows\<close>

text \<open>The two operations provide the store contract on the rows of the table.\<close>

interpretation ms: keyed_store m_sub row_of put_row "unique m_sub"
  by unfold_locales (auto simp: row_of_def put_row_def tget_tput dest: tget_Some)

lemma row_of_member: "row_of ms s = Some m \<Longrightarrow> m \<in> set ms \<and> m_sub m = s"
  unfolding row_of_def by (rule tget_Some)

lemma set_put_row: "set (put_row m ms) \<subseteq> insert m (set ms)"
  unfolding put_row_def by (rule set_tput)

section \<open>Storing\<close>

lemma store_frame:
  assumes "store repr m sub now gd = Inr m'"
  shows "m_account m' = m_account m" and "m_sub m' = m_sub m" and "m_plan m' = m_plan m"
    and "m_created_at m' = m_created_at m" and "m_updated_at m' = now"
    and "m_status m' = sub_status repr sub"
    and "m_grace_until m' = next_grace (sub_status repr sub) (m_grace_until m) now gd"
  using assms by (auto simp: store_def split: sum.splits)

lemma sync_locked_row:
  assumes "sync_locked repr ms account s sub now gd = Inr (ms', out, acc)"
  obtains m m' where "m = (case row_of ms s of Some m \<Rightarrow> m | None \<Rightarrow> new_row account s now)"
    and "store repr m sub now gd = Inr m'" and "ms' = put_row m' ms" and "acc = m_account m'"
    and "m_sub m' = s" and "m_account m' = m_account m"
    and "out = (if claimed_account sub \<noteq> Some acc then Applied_account_mismatch else Applied)"
proof -
  let ?m = "case row_of ms s of Some m \<Rightarrow> m | None \<Rightarrow> new_row account s now"
  have sub: "m_sub ?m = s"
    by (auto simp: new_row_def dest: row_of_member split: option.splits)
  from assms obtain m' where m': "store repr ?m sub now gd = Inr m'"
    by (auto simp: sync_locked_def Let_def split: sum.splits)
  show thesis
    using assms m' store_frame [OF m'] sub
    by (intro that [of ?m m']) (auto simp: sync_locked_def Let_def)
qed

text \<open>The two ways an event ends that touch no row, and the one that does.\<close>

lemma sync_locked_outcome:
  "sync_locked repr ms account s sub now gd = Inr (ms', out, acc)
     \<Longrightarrow> out \<in> {Applied, Applied_account_mismatch}"
  by (erule sync_locked_row) auto

lemma sync_cases:
  assumes "sync repr db s fetch now gd = Inr (ms, out, acc)"
  obtains (unmatched) "ms = members db" and "out = Unmatched"
  | (applied) first sub account a where "fetch 0 s = Some first" and "fetch 1 s = Some sub"
      and "sync_account (members db) s first = Some account" and "account \<in> set (accounts db)"
      and "sync_locked repr (members db) account s sub now gd = Inr (ms, out, a)"
      and "acc = Some a" and "out \<in> {Applied, Applied_account_mismatch}"
proof -
  from assms consider "ms = members db \<and> out = Unmatched"
    | first sub account a where "fetch 0 s = Some first" and "fetch 1 s = Some sub"
        and "sync_account (members db) s first = Some account" and "account \<in> set (accounts db)"
        and "sync_locked repr (members db) account s sub now gd = Inr (ms, out, a)" and "acc = Some a"
    by (auto simp: sync_def split: option.splits if_splits sum.splits)
  then show thesis
  proof cases
    case 1
    then show thesis by (intro unmatched) simp_all
  next
    case 2
    then show thesis by (intro applied [OF 2 sync_locked_outcome [OF 2(5)]])
  qed
qed

lemma apply_event_cases:
  assumes "apply_event repr db event fetch gd now = Inr (db', out)"
  obtains (nothing) "db' = db" and "out \<in> {Ignored, Duplicate}"
    and "str_or repr (jget event ''id'') [] \<in> insert [] (e_id ` set (stripe_events db))"
  | (recorded) e where "db' = log_event e (members db) db" and "out \<in> {Ignored, Unmatched}"
      and "e_id e = str_or repr (jget event ''id'') []"
      and "e_id e \<notin> insert [] (e_id ` set (stripe_events db))"
  | (applied) e ms acc s where "db' = log_event e ms db" and "out \<in> {Applied, Applied_account_mismatch}"
      and "e_id e = str_or repr (jget event ''id'') []"
      and "e_id e \<notin> insert [] (e_id ` set (stripe_events db))"
      and "subscription_id (str_or repr (jget event ''type'') []) (event_object event) = Some s"
      and "sync repr db s fetch now gd = Inr (ms, out, acc)"
proof -
  let ?id = "str_or repr (jget event ''id'') []" and ?kind = "str_or repr (jget event ''type'') []"
  from assms consider
      "db' = db" and "out \<in> {Ignored, Duplicate}" and "?id \<in> insert [] (e_id ` set (stripe_events db))"
    | e where "db' = log_event e (members db) db" and "out \<in> {Ignored, Unmatched}"
        and "e_id e = ?id" and "?id \<notin> insert [] (e_id ` set (stripe_events db))"
    | e ms acc s where "db' = log_event e ms db" and "e_id e = ?id"
        and "?id \<notin> insert [] (e_id ` set (stripe_events db))"
        and "subscription_id ?kind (event_object event) = Some s"
        and "sync repr db s fetch now gd = Inr (ms, out, acc)"
    unfolding apply_event_def Let_def by (auto split: if_splits sum.splits option.splits)
  then show thesis
  proof cases
    case 1
    then show thesis by (rule nothing)
  next
    case (2 e)
    have "e_id e \<notin> insert [] (e_id ` set (stripe_events db))"
      unfolding 2(3) by (rule 2(4))
    then show thesis by (rule recorded [OF 2(1-3)])
  next
    case (3 e ms acc s)
    have new: "e_id e \<notin> insert [] (e_id ` set (stripe_events db))"
      unfolding 3(2) by (rule 3(3))
    from 3(5) show thesis
    proof (cases rule: sync_cases)
      case unmatched
      with 3 new show thesis by (intro recorded [of e]) simp_all
    next
      case (applied first sub account a)
      with 3 new show thesis by (intro that(3) [of e ms s acc]) simp_all
    qed
  qed
qed

lemma log_event_simps [simp, table_simps]:
  "accounts (log_event e ms db) = accounts db"
  "members (log_event e ms db) = ms"
  "stripe_events (log_event e ms db) = stripe_events db @ [e]"
  by (simp_all add: log_event_def)

section \<open>The webhook, delivery by delivery\<close>

text \<open>
  The webhook route commits what \<open>apply_event\<close> returns and commits nothing when it raised. A
  delivery is the event with what Stripe answered to the reads it caused, and when it arrived.
\<close>

type_synonym delivery = "obj \<times> (nat \<Rightarrow> string \<Rightarrow> obj option) \<times> timestamp"

fun webhook_step :: "(json \<Rightarrow> string) \<Rightarrow> int \<Rightarrow> delivery \<Rightarrow> billing_db \<Rightarrow> billing_db" where
  "webhook_step repr gd (event, fetch, now) db =
     (case apply_event repr db event fetch gd now of Inl e \<Rightarrow> db | Inr (db', out) \<Rightarrow> db')"

definition deliver_all :: "(json \<Rightarrow> string) \<Rightarrow> int \<Rightarrow> delivery list \<Rightarrow> billing_db \<Rightarrow> billing_db" where
  "deliver_all repr gd ds db = fold (webhook_step repr gd) ds db"

definition billing_wf :: "billing_db \<Rightarrow> bool" where
  "billing_wf db \<longleftrightarrow> unique m_sub (members db) \<and> unique e_id (stripe_events db) \<and>
     m_account ` set (members db) \<subseteq> set (accounts db)"

text \<open>What one applied event leaves in the table.\<close>

lemma sync_row:
  assumes "sync repr db s fetch now gd = Inr (ms, out, acc)" and "out \<noteq> Unmatched"
  obtains sub m where "fetch 1 s = Some sub" and "row_of ms s = Some m"
    and "ms = put_row m (members db)" and "m_sub m = s" and "acc = Some (m_account m)"
    and "m_status m = sub_status repr sub" and "m_updated_at m = now"
    and "m_grace_until m =
           next_grace (m_status m) (Option.bind (row_of (members db) s) m_grace_until) now gd"
    and "\<forall>m0. row_of (members db) s = Some m0 \<longrightarrow> m_account m = m_account m0"
    and "row_of (members db) s = None \<longrightarrow> m_account m \<in> set (accounts db)"
    and "out = Applied \<longleftrightarrow> claimed_account sub = Some (m_account m)"
  using assms(1)
proof (cases rule: sync_cases)
  case unmatched
  with assms(2) show thesis by simp
next
  case (applied first sub account a)
  from applied(5) show thesis
  proof (rule sync_locked_row)
    fix m0 m'
    assume m: "m0 = (case row_of (members db) s of Some m \<Rightarrow> m | None \<Rightarrow> new_row account s now)"
      "store repr m0 sub now gd = Inr m'" "ms = put_row m' (members db)" "a = m_account m'"
      "m_sub m' = s" "m_account m' = m_account m0"
      "out = (if claimed_account sub \<noteq> Some a then Applied_account_mismatch else Applied)"
    show thesis
      using m applied(2,4,6) store_frame [OF m(2)]
      by (intro that [of sub m'])
        (auto simp: ms.get_put new_row_def next_grace_def split: option.splits if_splits)
  qed
qed

lemma webhook_step_wf:
  assumes "billing_wf db"
  shows "billing_wf (webhook_step repr gd d db)"
proof (cases d)
  case (fields event fetch now)
  show ?thesis
  proof (cases "apply_event repr db event fetch gd now")
    case (Inl e)
    with assms fields show ?thesis by simp
  next
    case (Inr r)
    then obtain db' out where r: "apply_event repr db event fetch gd now = Inr (db', out)"
      by (cases r) auto
    from r have "billing_wf db'"
    proof (cases rule: apply_event_cases)
      case nothing
      with assms show ?thesis by simp
    next
      case (recorded e)
      with assms show ?thesis by (auto simp: billing_wf_def unique_def)
    next
      case (applied e ms acc s)
      from applied(2) have "out \<noteq> Unmatched" by auto
      with applied(6) obtain m where m: "ms = put_row m (members db)"
        "\<forall>m0. row_of (members db) s = Some m0 \<longrightarrow> m_account m = m_account m0"
        "row_of (members db) s = None \<longrightarrow> m_account m \<in> set (accounts db)"
        by (rule sync_row) (rule that, assumption+)
      have "m_account m \<in> set (accounts db)"
        using m(2,3) assms row_of_member by (cases "row_of (members db) s") (force simp: billing_wf_def)+
      with m(1) assms have "m_account ` set ms \<subseteq> set (accounts db)"
        using set_put_row [of m "members db"] by (auto simp: billing_wf_def)
      moreover have "unique m_sub ms"
        using assms by (simp add: m(1) ms.valid_put billing_wf_def)
      ultimately show ?thesis
        using applied assms by (auto simp: billing_wf_def unique_def)
    qed
    with fields r show ?thesis by simp
  qed
qed

lemma webhook_step_accounts [simp]: "accounts (webhook_step repr gd d db) = accounts db"
  by (cases d) (auto split: sum.splits elim!: apply_event_cases)

text \<open>Once a subscription has a row, no delivery moves it to another account.\<close>

lemma webhook_step_binding:
  assumes "row_of (members db) s = Some m"
  obtains m' where "row_of (members (webhook_step repr gd d db)) s = Some m'"
    and "m_account m' = m_account m"
proof (cases d)
  case (fields event fetch now)
  show thesis
  proof (cases "apply_event repr db event fetch gd now")
    case (Inl e)
    with assms fields show thesis by (intro that) simp_all
  next
    case (Inr r)
    then obtain db' out where r: "apply_event repr db event fetch gd now = Inr (db', out)"
      by (cases r) auto
    from r have "\<exists>m'. row_of (members db') s = Some m' \<and> m_account m' = m_account m"
    proof (cases rule: apply_event_cases)
      case nothing
      with assms show ?thesis by simp
    next
      case (recorded e)
      with assms show ?thesis by simp
    next
      case (applied e ms acc s')
      from applied(2) have "out \<noteq> Unmatched" by auto
      with applied(6) obtain m' where "ms = put_row m' (members db)" "m_sub m' = s'"
        "\<forall>m0. row_of (members db) s' = Some m0 \<longrightarrow> m_account m' = m_account m0"
        by (rule sync_row) (rule that, assumption+)
      with assms applied(1) show ?thesis by (auto simp: ms.get_put)
    qed
    with fields r that show thesis by auto
  qed
qed

section \<open>The grace period over a run of reads\<close>

text \<open>One row storing one read of its subscription after another, until a read raises.\<close>

fun store_run ::
    "(json \<Rightarrow> string) \<Rightarrow> int \<Rightarrow> (timestamp \<times> obj) list \<Rightarrow> membership \<Rightarrow> billing_error + membership" where
  "store_run repr gd [] m = Inr m"
| "store_run repr gd ((now, sub) # rs) m =
     and_then (store repr m sub now gd) (store_run repr gd rs)"

text \<open>
  The abstract clock: the time of the first read of the unbroken run of \<open>past_due\<close> reads that
  reaches to the last read, if the last read was \<open>past_due\<close> at all.
\<close>

definition past_due_since :: "(timestamp \<times> string) list \<Rightarrow> timestamp option" where
  "past_due_since reads =
     (case takeWhile (\<lambda>(t, st). st = ''past_due'') (rev reads) of
        [] \<Rightarrow> None
      | ss \<Rightarrow> Some (fst (last ss)))"

lemma past_due_since_snoc:
  "past_due_since (reads @ [(t, st)]) =
     (if st = ''past_due''
      then (case past_due_since reads of None \<Rightarrow> Some t | Some t0 \<Rightarrow> Some t0) else None)"
  by (auto simp: past_due_since_def split: list.splits)

lemma store_run_snoc:
  "store_run repr gd (rs @ [(now, sub)]) m =
     and_then (store_run repr gd rs m) (\<lambda>m'. store repr m' sub now gd)"
proof (induction rs arbitrary: m)
  case Nil
  show ?case by (cases "store repr m sub now gd") simp_all
next
  case (Cons r rs)
  then show ?case
    by (cases r; cases "store repr m (snd r) (fst r) gd") simp_all
qed

lemma store_run_status:
  "store_run repr gd rs m = Inr m' \<Longrightarrow> rs \<noteq> [] \<Longrightarrow> m_status m' = sub_status repr (snd (last rs))"
  by (cases rs rule: rev_cases) (auto simp: store_run_snoc and_then_Inr_iff dest: store_frame(6))

lemma store_run_grace:
  assumes "store_run repr gd rs m = Inr m'" and "m_grace_until m = None"
  shows "m_grace_until m' =
    map_option (\<lambda>t. t + gd * day_us)
      (past_due_since (map (\<lambda>(t, sub). (t, sub_status repr sub)) rs))"
  using assms(1)
proof (induction rs arbitrary: m' rule: rev_induct)
  case Nil
  with assms(2) show ?case by (simp add: past_due_since_def)
next
  case (snoc r rs)
  obtain now sub where r: "r = (now, sub)" by (cases r)
  with snoc.prems obtain m1 where m1: "store_run repr gd rs m = Inr m1"
    and m': "store repr m1 sub now gd = Inr m'"
    by (auto simp: store_run_snoc and_then_Inr_iff)
  from snoc.IH [OF m1] show ?case
    by (simp add: r past_due_since_snoc store_frame(7) [OF m'] next_grace_def split: option.split)
qed

section \<open>Properties\<close>

text \<open>C1: An applied subscription or invoice event leaves exactly one row for the subscription it
  names, holding what the SECOND (in-lock) read of Stripe said: its status, and the grace that
  status implies. No other subscription's row changes, the row keeps the account it had, a new row
  is bound only to an account that exists, and a metadata mismatch is recorded, never applied.\<close>

theorem applied_event_follows_stripe:
  assumes "apply_event repr db event fetch gd now = Inr (db', out)"
    and "out \<in> {Applied, Applied_account_mismatch}"
  shows "\<exists>s sub m. subscription_id (str_or repr (jget event ''type'') []) (event_object event) = Some s
    \<and> fetch 1 s = Some sub \<and> row_of (members db') s = Some m
    \<and> m_status m = sub_status repr sub
    \<and> m_grace_until m =
        next_grace (m_status m) (Option.bind (row_of (members db) s) m_grace_until) now gd
    \<and> (\<forall>m0. row_of (members db) s = Some m0 \<longrightarrow> m_account m = m_account m0)
    \<and> (row_of (members db) s = None \<longrightarrow> m_account m \<in> set (accounts db))
    \<and> (\<forall>s'. s' \<noteq> s \<longrightarrow> row_of (members db') s' = row_of (members db) s')
    \<and> (out = Applied \<longleftrightarrow> claimed_account sub = Some (m_account m))"
  using assms(1)
proof (cases rule: apply_event_cases)
  case (applied e ms acc s)
  from applied(2) have "out \<noteq> Unmatched" by auto
  with applied(6) show ?thesis
  proof (rule sync_row)
    fix sub m
    assume m: "fetch 1 s = Some sub" "row_of ms s = Some m" "ms = put_row m (members db)" "m_sub m = s"
      "acc = Some (m_account m)" "m_status m = sub_status repr sub" "m_updated_at m = now"
      "m_grace_until m =
         next_grace (m_status m) (Option.bind (row_of (members db) s) m_grace_until) now gd"
      "\<forall>m0. row_of (members db) s = Some m0 \<longrightarrow> m_account m = m_account m0"
      "row_of (members db) s = None \<longrightarrow> m_account m \<in> set (accounts db)"
      "out = Applied \<longleftrightarrow> claimed_account sub = Some (m_account m)"
    have rows: "members db' = ms" by (simp add: applied(1))
    have other: "\<forall>s'. s' \<noteq> s \<longrightarrow> row_of ms s' = row_of (members db) s'"
      by (simp add: m(3,4) ms.get_put)
    show ?thesis
      unfolding rows
      by (intro exI [of _ s] exI [of _ sub] exI [of _ m] conjI) (fact applied(5) m other)+
  qed
qed (use assms(2) in auto)

text \<open>Idempotence: delivering an event again, at any later time and whatever Stripe answers
  then, changes nothing.\<close>

theorem redelivery_changes_nothing:
  assumes "apply_event repr db event fetch gd now = Inr (db', out)"
  shows "\<exists>out'. apply_event repr db' event fetch' gd' now' = Inr (db', out')
    \<and> out' \<in> {Ignored, Duplicate}"
  using assms
proof (cases rule: apply_event_cases)
  case nothing
  then show ?thesis by (auto simp: apply_event_def Let_def)
qed (auto simp: apply_event_def Let_def)

text \<open>C2: Whatever is delivered, in whatever order and with whatever Stripe answers, the tables stay
  well formed (one row per subscription, one per event id, every row owned by an existing account)
  and a subscription that has a row keeps the account it was bought for.\<close>

theorem deliveries_keep_the_binding:
  assumes "billing_wf db"
  shows "billing_wf (deliver_all repr gd ds db)
    \<and> (\<forall>s m. row_of (members db) s = Some m \<longrightarrow>
         (\<exists>m'. row_of (members (deliver_all repr gd ds db)) s = Some m' \<and> m_account m' = m_account m))"
  using assms
proof (induction ds arbitrary: db)
  case (Cons d ds)
  let ?db = "webhook_step repr gd d db"
  have step: "deliver_all repr gd (d # ds) db = deliver_all repr gd ds ?db"
    by (simp add: deliver_all_def)
  note IH = Cons.IH [OF webhook_step_wf [OF Cons.prems, of repr gd d]]
  have "\<exists>m'. row_of (members (deliver_all repr gd ds ?db)) s = Some m' \<and> m_account m' = m_account m"
    if m: "row_of (members db) s = Some m" for s m
  proof -
    obtain m1 where "row_of (members ?db) s = Some m1" and "m_account m1 = m_account m"
      using m by (rule webhook_step_binding)
    with IH show ?thesis by metis
  qed
  with IH show ?case unfolding step by blast
qed (simp add: deliver_all_def)

text \<open>The grace clock. After any run of reads of a subscription that started with no grace, an
  account whose last status is \<open>past_due\<close> is Pro exactly until \<open>grace_days\<close> days after the first
  read of the unbroken \<open>past_due\<close> run that reaches to the last read: a retry never restarts the
  clock, and a recovery in between gives a later failure a fresh one.\<close>

theorem grace_clock:
  assumes "store_run repr gd rs m = Inr m'" and "m_grace_until m = None" and "rs \<noteq> []"
    and "m_status m' = ''past_due''"
  shows "is_pro (Some m') now \<longleftrightarrow>
    (\<exists>t. past_due_since (map (\<lambda>(t, sub). (t, sub_status repr sub)) rs) = Some t
       \<and> now < t + gd * day_us)"
  using assms(4) by (auto simp: is_pro_def paid_statuses_def store_run_grace [OF assms(1,2)])

text \<open>The row shown to the user decides the tier: when any subscription makes the account Pro
  the row shown is a Pro one, and one that keeps billing if there is any; otherwise it is the first
  of the rows, and an account with rows always has one.\<close>

theorem primary_row_decides:
  "(account_is_pro ms now \<longleftrightarrow> (\<exists>m. primary ms now = Some m \<and> is_pro (Some m) now))
   \<and> (\<forall>m. primary ms now = Some m \<longrightarrow> m \<in> set ms
        \<and> ((\<exists>m'\<in>set ms. is_pro (Some m') now \<and> \<not> m_cancel_at_period_end m') \<longrightarrow>
             is_pro (Some m) now \<and> \<not> m_cancel_at_period_end m))
   \<and> (primary ms now = None \<longleftrightarrow> ms = [])"
proof -
  define pro where "pro = filter (\<lambda>m. is_pro (Some m) now) ms"
  have pro: "m \<in> set pro \<longleftrightarrow> m \<in> set ms \<and> is_pro (Some m) now" for m
    by (auto simp: pro_def)
  have account: "account_is_pro ms now \<longleftrightarrow> pro \<noteq> []"
    by (auto simp: pro_def account_is_pro_def list_ex_iff filter_empty_conv)
  show ?thesis
  proof (cases "List.find (\<lambda>m. \<not> m_cancel_at_period_end m) pro")
    case (Some m)
    then have p: "primary ms now = Some m" by (simp add: primary_def Let_def flip: pro_def)
    with find_Some_iff_nth [OF Some] pro [of m] show ?thesis
      by (auto simp: account simp del: not_None_eq)
  next
    case None
    then have ending: "m_cancel_at_period_end m" if "m \<in> set ms" "is_pro (Some m) now" for m
      using pro that by auto
    have p: "primary ms now =
        (case pro of m # _ \<Rightarrow> Some m | [] \<Rightarrow> (case ms of m # _ \<Rightarrow> Some m | [] \<Rightarrow> None))"
      using None unfolding primary_def Let_def pro_def [symmetric] by (simp only: option.case)
    show ?thesis
    proof (cases pro)
      case Nil
      with pro have "\<not> is_pro (Some m) now" if "m \<in> set ms" for m using that by auto
      with Nil show ?thesis by (auto simp: account p split: list.splits)
    next
      case (Cons m rest)
      with pro [of m] ending show ?thesis by (auto simp: account p)
    qed
  qed
qed

section \<open>Witnesses\<close>

text \<open>A failed payment of a bound subscription, delivered once.\<close>

definition demo_repr :: "json \<Rightarrow> string" where
  "demo_repr v = ''...''"

definition demo_sub :: "string \<Rightarrow> obj" where
  "demo_sub status =
     [(''status'', JStr status), (''customer'', JStr ''cus_1''),
      (''current_period_end'', JInt 1800000000),
      (''metadata'', JObj [(''account_id'', JStr ''usr_1'')])]"

definition demo_event :: obj where
  "demo_event =
     [(''id'', JStr ''evt_1''), (''type'', JStr ''customer.subscription.updated''),
      (''created'', JInt 1790000000),
      (''data'', JObj [(''object'', JObj [(''id'', JStr ''sub_1'')])])]"

definition demo_fetch :: "nat \<Rightarrow> string \<Rightarrow> obj option" where
  "demo_fetch k s = Some (demo_sub (if k = 0 then ''active'' else ''past_due''))"

definition demo_db :: billing_db where
  "demo_db = \<lparr>accounts = [''usr_1''], members = [], stripe_events = []\<rparr>"

definition demo_row :: membership where
  "demo_row =
     \<lparr>m_account = ''usr_1'', m_plan = ''pro'', m_status = ''past_due'', m_interval = None,
      m_customer = Some ''cus_1'', m_sub = ''sub_1'', m_period_end = Some 1800000000000000,
      m_cancel_at_period_end = False, m_grace_until = Some 604800000000, m_created_at = 0,
      m_updated_at = 0\<rparr>"

definition demo_db' :: billing_db where
  "demo_db' = \<lparr>accounts = [''usr_1''], members = [demo_row],
     stripe_events = [\<lparr>e_id = ''evt_1'', e_type = ''customer.subscription.updated'',
       e_created = 1790000000, e_account = Some ''usr_1'', e_outcome = Applied,
       e_received_at = 0\<rparr>]\<rparr>"

lemma demo_applied: "apply_event demo_repr demo_db demo_event demo_fetch 7 0 = Inr (demo_db', Applied)"
  by code_simp

theorem applied_event_follows_stripe_witness:
  "\<exists>s sub m. demo_fetch 1 s = Some sub \<and> row_of (members demo_db') s = Some m
     \<and> m_status m = sub_status demo_repr sub"
  using applied_event_follows_stripe [OF demo_applied] by blast

theorem redelivery_changes_nothing_witness:
  "\<exists>out. apply_event demo_repr demo_db' demo_event demo_fetch 7 99 = Inr (demo_db', out)
     \<and> out \<in> {Ignored, Duplicate}"
  by (rule redelivery_changes_nothing [OF demo_applied])

theorem deliveries_keep_the_binding_witness:
  "billing_wf demo_db \<and> billing_wf (deliver_all demo_repr 7 [(demo_event, demo_fetch, 0)] demo_db)"
proof -
  have "billing_wf demo_db" by (simp add: billing_wf_def demo_db_def)
  then show ?thesis using deliveries_keep_the_binding by blast
qed

theorem grace_clock_witness:
  "\<exists>m'. store_run demo_repr 7 [(0, demo_sub ''active''), (5, demo_sub ''past_due''),
        (9, demo_sub ''past_due'')] (new_row ''usr_1'' ''sub_1'' 0) = Inr m'
     \<and> (is_pro (Some m') 604800000004 \<longleftrightarrow> True) \<and> (is_pro (Some m') 604800000005 \<longleftrightarrow> False)"
proof -
  let ?rs = "[(0, demo_sub ''active''), (5, demo_sub ''past_due''), (9, demo_sub ''past_due'')]"
  let ?m = "demo_row\<lparr>m_grace_until := Some 604800000005, m_updated_at := 9\<rparr>"
  have run: "store_run demo_repr 7 ?rs (new_row ''usr_1'' ''sub_1'' 0) = Inr ?m"
    by code_simp
  have since: "past_due_since (map (\<lambda>(t, sub). (t, sub_status demo_repr sub)) ?rs) = Some 5"
    by code_simp
  have "is_pro (Some ?m) now \<longleftrightarrow> now < 604800000005" for now
    using grace_clock [OF run, of now] since by (simp add: new_row_def demo_row_def day_us_def)
  with run show ?thesis by auto
qed

theorem primary_row_decides_witness:
  "account_is_pro [demo_row] 0 \<and> primary [demo_row] 0 = Some demo_row \<and> is_pro (Some demo_row) 0"
proof -
  have "account_is_pro [demo_row] 0" by code_simp
  moreover from this obtain m where m: "primary [demo_row] 0 = Some m" and "is_pro (Some m) 0"
    using primary_row_decides [of "[demo_row]" 0] by blast
  moreover have "m \<in> set [demo_row]"
    using primary_row_decides [of "[demo_row]" 0] m by blast
  ultimately show ?thesis by simp
qed

end
