(* ===== verification/Site_Db.thy ===== *)
theory Site_Db
  imports Memberships
begin

text \<open>
  The account side of the database (\<open>app/models\<close>): the \<open>users\<close> table and the tables that refer to
  it, each the list of its rows, with the foreign keys' \<open>ON DELETE\<close> rules in \<open>delete_user\<close>. A row
  keeps the columns the modelled code reads or writes. \<open>memberships\<close> is the table of
  \<open>Memberships\<close>; the six tables whose rows only belong to an account (feedback, source requests,
  shared answers, watches and the two send logs) are one list of (table, owner) pairs.

  \<open>occurred_at\<close> of an answer is a calendar value, since the code reads its fields: a UTC date and
  the microsecond within the day, ordered lexicographically as \<open>datetime\<close> orders.
\<close>

section \<open>Dates\<close>

type_synonym date = "int \<times> int \<times> int" \<comment> \<open>year, month, day\<close>
type_synonym datetime = "date \<times> int"

definition leap :: "int \<Rightarrow> bool" where
  "leap y \<longleftrightarrow> y mod 4 = 0 \<and> (y mod 100 \<noteq> 0 \<or> y mod 400 = 0)"

definition days_in_month :: "int \<Rightarrow> int \<Rightarrow> int" where
  "days_in_month y m =
     (if m = 2 then (if leap y then 29 else 28) else if m \<in> {4, 6, 9, 11} then 30 else 31)"

definition valid_date :: "date \<Rightarrow> bool" where
  "valid_date d = (case d of (y, m, k) \<Rightarrow> 1 \<le> m \<and> m \<le> 12 \<and> 1 \<le> k \<and> k \<le> days_in_month y m)"

text \<open>\<open>d + timedelta(days=1)\<close>\<close>

definition next_day :: "date \<Rightarrow> date" where
  "next_day d = (case d of (y, m, k) \<Rightarrow>
     if k < days_in_month y m then (y, m, k + 1)
     else if m < 12 then (y, m + 1, 1) else (y + 1, 1, 1))"

text \<open>\<open>date.toordinal\<close>, and the instant a UTC \<open>datetime\<close> denotes.\<close>

definition days_before_month :: "int \<Rightarrow> int \<Rightarrow> int" where
  "days_before_month y m =
     [0, 31, 59, 90, 120, 151, 181, 212, 243, 273, 304, 334] ! nat (m - 1)
     + (if m > 2 \<and> leap y then 1 else 0)"

definition to_ordinal :: "date \<Rightarrow> int" where
  "to_ordinal d = (case d of (y, m, k) \<Rightarrow>
     (y - 1) * 365 + (y - 1) div 4 - (y - 1) div 100 + (y - 1) div 400 + days_before_month y m + k)"

definition instant :: "datetime \<Rightarrow> timestamp" where
  "instant t = (to_ordinal (fst t) - to_ordinal (1970, 1, 1)) * day_us + snd t"

section \<open>Rows\<close>

record user =
  u_id :: user_id
  u_email :: "string option"
  u_password_hash :: "string option"
  u_verified_at :: "timestamp option"
  u_created_at :: timestamp

record answer_usage =
  au_user :: user_id
  au_at :: datetime
  au_paid_by :: string
  au_channel :: string
  au_tier :: string
  au_message :: "string option"
  au_request :: string

record tombstone =
  ts_hash :: string
  ts_used :: int
  ts_deleted_at :: timestamp

record chat_session =
  cs_id :: string
  cs_user :: user_id
  cs_expires_at :: timestamp

record chat_message =
  cm_id :: string
  cm_session :: string

record auth_session =
  as_id :: string
  as_secret_hash :: string
  as_user :: user_id
  as_created_at :: timestamp
  as_expires_at :: timestamp
  as_magic_at :: "timestamp option"

record magic_link_token =
  ml_id :: string
  ml_secret_hash :: string
  ml_user :: user_id
  ml_expires_at :: timestamp

record api_key =
  ak_id :: string
  ak_user :: user_id
  ak_name :: string
  ak_secret_hash :: string
  ak_last_used_at :: "timestamp option"
  ak_revoked_at :: "timestamp option"

record identity =
  id_provider :: string
  id_account :: string
  id_user :: user_id

record audit_event =
  ae_user :: "user_id option"
  ae_action :: string
  ae_event :: string

record site_db =
  users :: "user list"
  usages :: "answer_usage list"
  tombstones :: "tombstone list"
  chat_sessions :: "chat_session list"
  messages :: "chat_message list"
  auth_sessions :: "auth_session list"
  magic_links :: "magic_link_token list"
  api_keys :: "api_key list"
  identities :: "identity list"
  memberships :: "membership list"
  owned_rows :: "(string \<times> user_id) list"
  audit_log :: "audit_event list"

section \<open>Reading and writing\<close>

definition get_user :: "site_db \<Rightarrow> user_id \<Rightarrow> user option" where
  "get_user db u = tget u_id (users db) u"

definition user_with_email :: "site_db \<Rightarrow> string \<Rightarrow> user option" where
  "user_with_email db e = List.find (\<lambda>r. u_email r = Some e) (users db)"

definition audit :: "user_id option \<Rightarrow> string \<Rightarrow> string \<Rightarrow> site_db \<Rightarrow> site_db" where
  "audit who action event db =
     db\<lparr>audit_log := audit_log db @ [\<lparr>ae_user = who, ae_action = action, ae_event = event\<rparr>]\<rparr>"

text \<open>
  \<open>DELETE FROM users WHERE user_id = u\<close>. Every table that refers to the account loses its rows
  (chat messages go with their session); the audit log keeps its rows, unlinked.
\<close>

definition delete_user :: "user_id \<Rightarrow> site_db \<Rightarrow> site_db" where
  "delete_user u db = db\<lparr>
     users := tdel (\<lambda>r. u_id r = u) (users db),
     usages := tdel (\<lambda>r. au_user r = u) (usages db),
     messages := tdel (\<lambda>r. \<exists>s\<in>set (chat_sessions db). cs_user s = u \<and> cs_id s = cm_session r)
       (messages db),
     chat_sessions := tdel (\<lambda>r. cs_user r = u) (chat_sessions db),
     auth_sessions := tdel (\<lambda>r. as_user r = u) (auth_sessions db),
     magic_links := tdel (\<lambda>r. ml_user r = u) (magic_links db),
     api_keys := tdel (\<lambda>r. ak_user r = u) (api_keys db),
     identities := tdel (\<lambda>r. id_user r = u) (identities db),
     memberships := tdel (\<lambda>r. m_account r = u) (memberships db),
     owned_rows := tdel (\<lambda>r. snd r = u) (owned_rows db),
     audit_log := map (\<lambda>r. if ae_user r = Some u then r\<lparr>ae_user := None\<rparr> else r) (audit_log db)\<rparr>"

text \<open>No row of any table says anything of an account.\<close>

definition no_trace :: "user_id \<Rightarrow> site_db \<Rightarrow> bool" where
  "no_trace u db \<longleftrightarrow>
     u \<notin> u_id ` set (users db) \<and> u \<notin> au_user ` set (usages db)
     \<and> u \<notin> cs_user ` set (chat_sessions db) \<and> u \<notin> as_user ` set (auth_sessions db)
     \<and> u \<notin> ml_user ` set (magic_links db) \<and> u \<notin> ak_user ` set (api_keys db)
     \<and> u \<notin> id_user ` set (identities db) \<and> u \<notin> m_account ` set (memberships db)
     \<and> u \<notin> snd ` set (owned_rows db) \<and> Some u \<notin> ae_user ` set (audit_log db)"

lemma no_trace_delete_user [simp]: "no_trace u (delete_user u db)"
  by (auto simp: no_trace_def delete_user_def tdel_def split: if_splits)

text \<open>What is deleted is the account's alone: every row of another account is still there.\<close>

definition rows_kept :: "user_id \<Rightarrow> site_db \<Rightarrow> site_db \<Rightarrow> bool" where
  "rows_kept v db db' \<longleftrightarrow>
     filter (\<lambda>r. u_id r = v) (users db') = filter (\<lambda>r. u_id r = v) (users db)
     \<and> filter (\<lambda>r. au_user r = v) (usages db') = filter (\<lambda>r. au_user r = v) (usages db)
     \<and> filter (\<lambda>r. cs_user r = v) (chat_sessions db') = filter (\<lambda>r. cs_user r = v) (chat_sessions db)
     \<and> filter (\<lambda>r. as_user r = v) (auth_sessions db') = filter (\<lambda>r. as_user r = v) (auth_sessions db)
     \<and> filter (\<lambda>r. ml_user r = v) (magic_links db') = filter (\<lambda>r. ml_user r = v) (magic_links db)
     \<and> filter (\<lambda>r. ak_user r = v) (api_keys db') = filter (\<lambda>r. ak_user r = v) (api_keys db)
     \<and> filter (\<lambda>r. id_user r = v) (identities db') = filter (\<lambda>r. id_user r = v) (identities db)
     \<and> filter (\<lambda>r. m_account r = v) (memberships db') = filter (\<lambda>r. m_account r = v) (memberships db)
     \<and> filter (\<lambda>r. snd r = v) (owned_rows db') = filter (\<lambda>r. snd r = v) (owned_rows db)
     \<and> filter (\<lambda>r. ae_user r = Some v) (audit_log db') = filter (\<lambda>r. ae_user r = Some v) (audit_log db)"

lemma filter_tdel_other:
  "(\<And>r. Q r \<Longrightarrow> \<not> P r) \<Longrightarrow> filter Q (tdel P t) = filter Q t"
  by (induction t) (auto simp: tdel_def)

lemma filter_unlink_other:
  "u \<noteq> v \<Longrightarrow> filter (\<lambda>r. ae_user r = Some v)
      (map (\<lambda>r. if ae_user r = Some u then r\<lparr>ae_user := None\<rparr> else r) t) =
    filter (\<lambda>r. ae_user r = Some v) t"
  by (induction t) auto

lemma rows_kept_delete_user: "u \<noteq> v \<Longrightarrow> rows_kept v db (delete_user u db)"
  unfolding rows_kept_def
  by (simp add: delete_user_def filter_tdel_other filter_unlink_other)

lemma get_user_Some: "get_user db u = Some r \<Longrightarrow> r \<in> set (users db) \<and> u_id r = u"
  unfolding get_user_def by (rule tget_Some)

lemma get_user_audit [simp]: "get_user (audit w a e db) u = get_user db u"
  by (simp add: get_user_def audit_def)

end
