(* ===== verification/Access_Policy.thy ===== *)
theory Access_Policy
  imports Prelude
begin

text \<open>
  \<open>app/access/policy.py\<close>: the capabilities, the tiers and THE policy table, with the two questions
  the routes ask of it. Tiers are ordered by what they cost (\<open>anonymous < free < pro\<close>), which is
  the order \<open>lowest_tier_with\<close> searches in; the lemmas show the table is monotone in that order,
  that the search returns the least tier with the capability, and that no tier grants \<open>operate\<close>.
\<close>

section \<open>Data\<close>

datatype capability =
    Public | Sign_in | Manage_account | Chat | History | Exact_search | Feedback | Billing | Operate
  | Weekly_digest | Mcp_ask | Api_keys | Share_answer | Usage_insights | Watch_alerts | Byok

datatype tier = Anonymous | Free | Pro

datatype allowance = No_allowance | Once | Monthly

record tier_policy =
  capabilities :: "capability set"
  tier_allowance :: allowance

section \<open>The order of the tiers\<close>

fun tier_rank :: "tier \<Rightarrow> nat" where
  "tier_rank Anonymous = 0"
| "tier_rank Free = 1"
| "tier_rank Pro = 2"

lemma tier_rank_inject [simp]: "tier_rank s = tier_rank t \<longleftrightarrow> s = t"
  by (cases s; cases t) simp_all

instantiation tier :: linorder
begin
definition less_eq_tier :: "tier \<Rightarrow> tier \<Rightarrow> bool" where
  "s \<le> t \<longleftrightarrow> tier_rank s \<le> tier_rank t"
definition less_tier :: "tier \<Rightarrow> tier \<Rightarrow> bool" where
  "s < t \<longleftrightarrow> tier_rank s < tier_rank t"
instance
  by standard (auto simp: less_eq_tier_def less_tier_def)
end

lemmas tier_order = less_eq_tier_def less_tier_def

section \<open>The table\<close>

definition everyone :: "capability set" where
  "everyone = {Public, Sign_in}"

definition account_caps :: "capability set" where
  "account_caps = {Manage_account, Chat, History, Exact_search, Feedback, Billing, Weekly_digest}"

definition pro_caps :: "capability set" where
  "pro_caps = {Mcp_ask, Api_keys, Share_answer, Usage_insights, Watch_alerts, Byok}"

fun policy :: "tier \<Rightarrow> tier_policy" where
  "policy Anonymous = \<lparr>capabilities = everyone, tier_allowance = No_allowance\<rparr>"
| "policy Free = \<lparr>capabilities = everyone \<union> account_caps, tier_allowance = Once\<rparr>"
| "policy Pro = \<lparr>capabilities = everyone \<union> account_caps \<union> pro_caps, tier_allowance = Monthly\<rparr>"

definition credential_only :: "capability set" where
  "credential_only = {Operate}"

lemmas policy_sets = everyone_def account_caps_def pro_caps_def credential_only_def

section \<open>The questions\<close>

definition has_capability :: "tier \<Rightarrow> capability \<Rightarrow> bool" where
  "has_capability t c \<longleftrightarrow> c \<in> capabilities (policy t)"

definition lowest_tier_with :: "capability \<Rightarrow> tier option" where
  "lowest_tier_with c = List.find (\<lambda>t. has_capability t c) [Anonymous, Free, Pro]"

lemma has_capability_code [simp, decision_simps]:
  "has_capability Anonymous c \<longleftrightarrow> c \<in> everyone"
  "has_capability Free c \<longleftrightarrow> c \<in> everyone \<or> c \<in> account_caps"
  "has_capability Pro c \<longleftrightarrow> c \<in> everyone \<or> c \<in> account_caps \<or> c \<in> pro_caps"
  by (simp_all add: has_capability_def)

lemma has_capability_mono: "has_capability s c \<Longrightarrow> s \<le> t \<Longrightarrow> has_capability t c"
  by (cases s; cases t) (auto simp: tier_order)

lemma no_tier_operates [simp]: "\<not> has_capability t Operate"
  by (cases t) (simp_all add: policy_sets)

lemma pro_or_operate: "has_capability Pro c \<or> c \<in> credential_only"
  by (cases c) (simp_all add: policy_sets)

lemma lowest_tier_with_eq:
  "lowest_tier_with c =
     (if c \<in> everyone then Some Anonymous
      else if c \<in> account_caps then Some Free
      else if c \<in> pro_caps then Some Pro else None)"
  by (auto simp: lowest_tier_with_def)

lemma lowest_tier_with_Some_iff:
  "lowest_tier_with c = Some t \<longleftrightarrow> has_capability t c \<and> (\<forall>s<t. \<not> has_capability s c)"
proof -
  have "s < Free \<longleftrightarrow> s = Anonymous" "s < Pro \<longleftrightarrow> s = Anonymous \<or> s = Free" "\<not> s < Anonymous" for s
    by (cases s; simp add: less_tier_def)+
  then show ?thesis
    by (cases t) (auto simp: lowest_tier_with_eq)
qed

lemma lowest_tier_with_None_iff: "lowest_tier_with c = None \<longleftrightarrow> c \<in> credential_only"
  by (cases c) (simp_all add: lowest_tier_with_eq policy_sets)

text \<open>the least tier.\<close>

theorem lowest_tier_is_least:
  "(case lowest_tier_with c of
      Some t \<Rightarrow> (\<forall>s. has_capability s c \<longleftrightarrow> t \<le> s)
    | None \<Rightarrow> c = Operate)"
proof (cases "lowest_tier_with c")
  case None
  then have "c = Operate"
    by (simp add: lowest_tier_with_None_iff credential_only_def)
  with None show ?thesis by simp
next
  case (Some t)
  then have t: "has_capability t c" "\<forall>s<t. \<not> has_capability s c"
    by (simp_all add: lowest_tier_with_Some_iff)
  have "has_capability s c \<longleftrightarrow> t \<le> s" for s
    using t has_capability_mono [of t c s] by (meson linorder_le_less_linear)
  with Some show ?thesis by simp
qed

end
