(* ===== verification/Sliding_Window.thy ===== *)
theory Sliding_Window
  imports Prelude
begin

text \<open>
  The contract of one rate-limit bucket, as the two limiters of \<open>app/core/rate_limit.py\<close> promise it
  and the routes rely on it. \<open>admit now w l n b\<close> is one check of bucket \<open>b\<close> at time \<open>now\<close> for a
  window of \<open>w\<close> seconds and a limit of \<open>l\<close>; \<open>n\<close> is the unique name of the hit. \<open>hits\<close> reads the
  recorded hits of a bucket, \<open>inv w t\<close> holds of a bucket last checked at time \<open>t\<close>.

  Inside the locale: however the checks fall, no window of length \<open>w\<close> contains more than \<open>l\<close>
  admitted hits; and requests that were denied leave no trace, so a flood of them cannot keep a
  bucket full. Two buckets with the same live hits decide alike, which is how the in-process and
  the Redis limiter are shown to agree.
\<close>

definition live :: "rat \<Rightarrow> rat \<Rightarrow> rat multiset \<Rightarrow> rat multiset" where
  "live now w M = {#h \<in># M. now - w < h#}"

definition in_window :: "rat \<Rightarrow> rat \<Rightarrow> rat multiset \<Rightarrow> rat multiset" where
  "in_window T w M = {#h \<in># M. T - w < h \<and> h \<le> T#}"

definition window_ok :: "rat \<Rightarrow> nat \<Rightarrow> rat multiset \<Rightarrow> bool" where
  "window_ok w l M \<longleftrightarrow> (\<forall>T. size (in_window T w M) \<le> l)"

text \<open>Times that never go back, starting at \<open>t\<close>.\<close>

fun from_then_on :: "rat \<Rightarrow> rat list \<Rightarrow> bool" where
  "from_then_on t [] = True"
| "from_then_on t (u # us) = (t \<le> u \<and> from_then_on u us)"

lemma from_then_on_weaken: "from_then_on u us \<Longrightarrow> t \<le> u \<Longrightarrow> from_then_on t us"
  by (cases us) auto

lemma from_then_on_sub: "subseq ks us \<Longrightarrow> from_then_on t us \<Longrightarrow> from_then_on t ks"
  by (induction ks us arbitrary: t rule: list_emb.induct) (auto intro: from_then_on_weaken)

lemma live_add [simp]: "live now w (M + N) = live now w M + live now w N"
  by (simp add: live_def)

lemma live_add_mset [simp]:
  "live now w (add_mset h M) = (if now - w < h then add_mset h (live now w M) else live now w M)"
  by (simp add: live_def)

lemma live_empty [simp]: "live now w {#} = {#}"
  by (simp add: live_def)

lemma live_live: "t \<le> now \<Longrightarrow> live now w (live t w M) = live now w M"
  by (auto simp: live_def filter_filter_mset intro!: filter_mset_cong)

lemma live_mono: "t \<le> now \<Longrightarrow> live t w M = live t w N \<Longrightarrow> live now w M = live now w N"
  by (metis live_live)

lemma window_ok_step:
  assumes "window_ok w l A" and "\<forall>h\<in>#A. h \<le> now" and "size (live now w A) < l"
  shows "window_ok w l (A + {#now#})"
  unfolding window_ok_def
proof
  fix T
  show "size (in_window T w (A + {#now#})) \<le> l"
  proof (cases "T - w < now \<and> now \<le> T")
    case False
    then have "in_window T w (A + {#now#}) = in_window T w A"
      by (auto simp: in_window_def)
    with assms(1) show ?thesis by (simp add: window_ok_def)
  next
    case True
    have "in_window T w A \<subseteq># live now w A"
      unfolding in_window_def live_def using True by (intro filter_mset_mono_strong) auto
    then have "size (in_window T w A) < l"
      using assms(3) size_mset_mono le_less_trans by blast
    with True show ?thesis by (simp add: in_window_def)
  qed
qed

locale sliding_window =
  fixes admit :: "rat \<Rightarrow> rat \<Rightarrow> nat \<Rightarrow> 'n \<Rightarrow> 'b \<Rightarrow> bool \<times> 'b"
    and hits :: "'b \<Rightarrow> rat multiset"
    and inv :: "rat \<Rightarrow> rat \<Rightarrow> 'b \<Rightarrow> bool"
    and fresh :: "'n \<Rightarrow> 'b \<Rightarrow> bool"
  assumes inv_window: "inv w t b \<Longrightarrow> 0 < w"
    and inv_hits: "inv w t b \<Longrightarrow> h \<in># hits b \<Longrightarrow> h \<le> t"
    and admit_iff: "inv w t b \<Longrightarrow> t \<le> now \<Longrightarrow> fst (admit now w l n b) \<longleftrightarrow> size (live now w (hits b)) < l"
    and live_admit: "inv w t b \<Longrightarrow> t \<le> now \<Longrightarrow> fresh n b \<Longrightarrow>
      live now w (hits (snd (admit now w l n b))) =
        live now w (hits b) + (if fst (admit now w l n b) then {#now#} else {#})"
    and inv_admit: "inv w t b \<Longrightarrow> t \<le> now \<Longrightarrow> inv w now (snd (admit now w l n b))"
    and fresh_admit: "fresh m b \<Longrightarrow> m \<noteq> n \<Longrightarrow> fresh m (snd (admit now w l n b))"
begin

text \<open>A run of requests, each a time and the name its hit would get: which are admitted.\<close>

fun admitted :: "rat \<Rightarrow> nat \<Rightarrow> (rat \<times> 'n) list \<Rightarrow> 'b \<Rightarrow> (rat \<times> 'n) list" where
  "admitted w l [] b = []"
| "admitted w l ((now, n) # rs) b =
     (let r = admit now w l n b
      in (if fst r then [(now, n)] else []) @ admitted w l rs (snd r))"

definition named_apart :: "(rat \<times> 'n) list \<Rightarrow> 'b \<Rightarrow> bool" where
  "named_apart rs b \<longleftrightarrow> distinct (map snd rs) \<and> (\<forall>n\<in>snd ` set rs. fresh n b)"

lemma named_apart_step:
  "named_apart ((now, n) # rs) b \<Longrightarrow> fresh n b \<and> named_apart rs (snd (admit now w l n b))"
  by (auto simp: named_apart_def intro!: fresh_admit)

lemma admitted_bound:
  assumes "inv w t b" and "from_then_on t (map fst rs)" and "named_apart rs b"
    and "live t w (hits b) = live t w A" and "window_ok w l A" and "\<forall>h\<in>#A. h \<le> t"
  shows "window_ok w l (A + mset (map fst (admitted w l rs b)))"
  using assms
proof (induction rs arbitrary: t b A)
  case (Cons r rs)
  obtain now n where r: "r = (now, n)" by (cases r)
  let ?b = "snd (admit now w l n b)" and ?ok = "fst (admit now w l n b)"
  let ?A = "A + (if ?ok then {#now#} else {#})"
  have now: "t \<le> now" "from_then_on now (map fst rs)" using Cons.prems(2) r by auto
  have w: "0 < w" using Cons.prems(1) by (rule inv_window)
  have na: "fresh n b" "named_apart rs ?b" using Cons.prems(3) named_apart_step r by auto
  have liveA: "live now w (hits b) = live now w A"
    using now(1) Cons.prems(4) by (rule live_mono)
  have upto: "\<forall>h\<in>#A. h \<le> now" using Cons.prems(6) now(1) by auto
  have "window_ok w l ?A"
    using admit_iff [OF Cons.prems(1) now(1), of l n] window_ok_step [OF Cons.prems(5) upto] liveA
      Cons.prems(5) by auto
  moreover have "live now w (hits ?b) = live now w ?A"
    using live_admit [OF Cons.prems(1) now(1) na(1), of l] liveA w by auto
  moreover have "\<forall>h\<in>#?A. h \<le> now" using upto by auto
  ultimately have "window_ok w l (?A + mset (map fst (admitted w l rs ?b)))"
    using Cons.IH [OF inv_admit [OF Cons.prems(1) now(1)] now(2) na(2)] by blast
  then show ?case by (simp add: r Let_def algebra_simps split: if_splits)
qed simp

theorem at_most_limit_per_window:
  assumes "inv w t b" and "from_then_on t (map fst rs)" and "named_apart rs b" and "hits b = {#}"
  shows "size (in_window T w (mset (map fst (admitted w l rs b)))) \<le> l"
  using admitted_bound [OF assms(1-3), of "{#}" l] assms(4)
  by (auto simp: window_ok_def in_window_def)

text \<open>Only the live hits of a bucket matter to what is admitted from then on.\<close>

lemma admitted_cong:
  assumes "inv w t b" and "inv w u c" and "t \<le> u" and "from_then_on u (map fst rs)"
    and "named_apart rs b" and "named_apart rs c" and "live u w (hits b) = live u w (hits c)"
  shows "admitted w l rs b = admitted w l rs c"
  using assms
proof (induction rs arbitrary: t u b c)
  case (Cons r rs)
  obtain now n where r: "r = (now, n)" by (cases r)
  let ?b = "snd (admit now w l n b)" and ?c = "snd (admit now w l n c)"
  have now: "u \<le> now" "from_then_on now (map fst rs)" "t \<le> now" using Cons.prems(3,4) r by auto
  have same: "live now w (hits b) = live now w (hits c)"
    using now(1) Cons.prems(7) by (rule live_mono)
  have b: "fresh n b" "named_apart rs ?b" and c: "fresh n c" "named_apart rs ?c"
    using Cons.prems(5,6) named_apart_step r by auto
  have ok: "fst (admit now w l n b) = fst (admit now w l n c)"
    using admit_iff [OF Cons.prems(1) now(3)] admit_iff [OF Cons.prems(2) now(1)] same by simp
  have "live now w (hits ?b) = live now w (hits ?c)"
    using live_admit [OF Cons.prems(1) now(3) b(1)] live_admit [OF Cons.prems(2) now(1) c(1)] same ok
    by simp
  then have "admitted w l rs ?b = admitted w l rs ?c"
    using Cons.IH [OF inv_admit [OF Cons.prems(1) now(3)] inv_admit [OF Cons.prems(2) now(1)]
        order_refl now(2) b(2) c(2)] by blast
  with ok show ?case by (simp add: r Let_def)
qed simp

lemma admitted_subseq: "subseq (admitted w l rs b) rs"
proof (induction rs arbitrary: b)
  case (Cons r rs)
  then have "subseq (admitted w l rs c) (r # rs)" "subseq (r # admitted w l rs c) (r # rs)" for c
    by (simp_all add: list_emb_Cons)
  then show ?case by (cases r) (simp add: Let_def)
qed simp

lemma named_apart_sub: "subseq ks rs \<Longrightarrow> named_apart rs b \<Longrightarrow> named_apart ks b"
  by (auto simp: named_apart_def subseq_conv_nths nths_map [symmetric] distinct_nthsI
      dest: notin_set_nthsI)

text \<open>Leave out every denied request: the others are admitted just the same.\<close>

theorem denied_leave_no_trace:
  assumes "inv w t b" and "from_then_on t (map fst rs)" and "named_apart rs b"
  shows "admitted w l (admitted w l rs b) b = admitted w l rs b"
  using assms
proof (induction rs arbitrary: t b)
  case (Cons r rs)
  obtain now n where r: "r = (now, n)" by (cases r)
  let ?b = "snd (admit now w l n b)"
  have now: "t \<le> now" "from_then_on now (map fst rs)" using Cons.prems(2) r by auto
  have na: "fresh n b" "named_apart rs ?b" using Cons.prems(3) named_apart_step r by auto
  note IH = Cons.IH [OF inv_admit [OF Cons.prems(1) now(1)] now(2) na(2)]
  show ?case
  proof (cases "fst (admit now w l n b)")
    case True
    with IH show ?thesis by (simp add: r Let_def)
  next
    case False
    let ?ks = "admitted w l rs ?b"
    have sub: "subseq ?ks rs" by (rule admitted_subseq)
    have "named_apart rs b"
      using Cons.prems(3) by (auto simp: named_apart_def r)
    then have "named_apart ?ks b" "named_apart ?ks ?b"
      using na(2) sub named_apart_sub by blast+
    moreover have "live now w (hits b) = live now w (hits ?b)"
      using live_admit [OF Cons.prems(1) now(1) na(1)] False by simp
    ultimately have "admitted w l ?ks b = admitted w l ?ks ?b"
      using admitted_cong [OF Cons.prems(1) inv_admit [OF Cons.prems(1) now(1)] now(1)
          from_then_on_sub [OF subseq_map [OF sub] now(2)]] by blast
    with IH False show ?thesis by (simp add: r Let_def)
  qed
qed simp

section \<open>Many buckets, one run\<close>

text \<open>
  A request names its bucket and its role; the role decides the window and the limit. \<open>served\<close> is
  what a limiter with one bucket per name admits of a run of requests to any of them.
\<close>

definition check_key ::
    "(string \<Rightarrow> rat) \<Rightarrow> (string \<Rightarrow> nat) \<Rightarrow> rat \<times> string \<times> string \<times> 'n \<Rightarrow> (string \<Rightarrow> 'b)
      \<Rightarrow> bool \<times> (string \<Rightarrow> 'b)" where
  "check_key W L q st =
     (case q of (now, k, role, n) \<Rightarrow>
        let r = admit now (W role) (L role) n (st k) in (fst r, st(k := snd r)))"

fun served ::
    "(string \<Rightarrow> rat) \<Rightarrow> (string \<Rightarrow> nat) \<Rightarrow> (rat \<times> string \<times> string \<times> 'n) list \<Rightarrow> (string \<Rightarrow> 'b)
      \<Rightarrow> (rat \<times> string \<times> string \<times> 'n) list" where
  "served W L [] st = []"
| "served W L (q # qs) st =
     (let r = check_key W L q st in (if fst r then [q] else []) @ served W L qs (snd r))"

definition of_key :: "string \<Rightarrow> (rat \<times> string \<times> string \<times> 'n) list \<Rightarrow> (rat \<times> 'n) list" where
  "of_key k qs = map (\<lambda>(now, k, role, n). (now, n)) (filter (\<lambda>q. fst (snd q) = k) qs)"

lemma of_key_simps [simp]:
  "of_key k [] = []"
  "of_key k ((now, k', role, n) # qs) = (if k' = k then (now, n) # of_key k qs else of_key k qs)"
  "of_key k (qs @ qs') = of_key k qs @ of_key k qs'"
  by (simp_all add: of_key_def)

text \<open>A bucket sees only the requests that name it.\<close>

lemma served_of_key:
  assumes "\<forall>(now, k', role', n)\<in>set qs. k' = k \<longrightarrow> role' = role"
  shows "of_key k (served W L qs st) = admitted (W role) (L role) (of_key k qs) (st k)"
  using assms
  by (induction qs arbitrary: st) (auto simp: check_key_def Let_def)

lemma served_bound:
  assumes "\<forall>(now, k', role', n)\<in>set qs. k' = k \<longrightarrow> role' = role"
    and "inv (W role) t (st k)" and "hits (st k) = {#}"
    and "from_then_on t (map fst (of_key k qs))" and "named_apart (of_key k qs) (st k)"
  shows "size (in_window T (W role) (mset (map fst (of_key k (served W L qs st))))) \<le> L role"
  unfolding served_of_key [OF assms(1)]
  using assms(2-5) at_most_limit_per_window by blast

end

text \<open>Two limiters whose buckets hold the same live hits serve the same requests.\<close>

locale two_limiters =
  a: sliding_window admit_a hits_a inv_a fresh_a + b: sliding_window admit_b hits_b inv_b fresh_b
  for admit_a :: "rat \<Rightarrow> rat \<Rightarrow> nat \<Rightarrow> 'n \<Rightarrow> 'a \<Rightarrow> bool \<times> 'a" and hits_a inv_a fresh_a
    and admit_b :: "rat \<Rightarrow> rat \<Rightarrow> nat \<Rightarrow> 'n \<Rightarrow> 'b \<Rightarrow> bool \<times> 'b" and hits_b inv_b fresh_b
begin

lemma same_decisions:
  assumes "inv_a w t x" and "inv_b w t y" and "from_then_on t (map fst rs)"
    and "a.named_apart rs x" and "b.named_apart rs y"
    and "live t w (hits_a x) = live t w (hits_b y)"
  shows "a.admitted w l rs x = b.admitted w l rs y"
  using assms
proof (induction rs arbitrary: t x y)
  case (Cons r rs)
  obtain now n where r: "r = (now, n)" by (cases r)
  let ?x = "snd (admit_a now w l n x)" and ?y = "snd (admit_b now w l n y)"
  have now: "t \<le> now" "from_then_on now (map fst rs)" using Cons.prems(3) r by auto
  have same: "live now w (hits_a x) = live now w (hits_b y)"
    using now(1) Cons.prems(6) by (rule live_mono)
  have x: "fresh_a n x" "a.named_apart rs ?x" and y: "fresh_b n y" "b.named_apart rs ?y"
    using Cons.prems(4,5) a.named_apart_step b.named_apart_step r by auto
  have ok: "fst (admit_a now w l n x) = fst (admit_b now w l n y)"
    using a.admit_iff [OF Cons.prems(1) now(1)] b.admit_iff [OF Cons.prems(2) now(1)] same by simp
  have "live now w (hits_a ?x) = live now w (hits_b ?y)"
    using a.live_admit [OF Cons.prems(1) now(1) x(1)] b.live_admit [OF Cons.prems(2) now(1) y(1)]
      same ok by simp
  then have "a.admitted w l rs ?x = b.admitted w l rs ?y"
    using Cons.IH [OF a.inv_admit [OF Cons.prems(1) now(1)] b.inv_admit [OF Cons.prems(2) now(1)]
        now(2) x(2) y(2)] by blast
  with ok show ?case by (simp add: r Let_def)
qed simp

end

end
