(* ===== verification/Api_Errors.thy ===== *)
theory Api_Errors
  imports Prelude
begin

text \<open>
  \<open>app/core/errors.py\<close>: the error codes of the API and the HTTP status each rides on. The table is
  partial as the source's dictionary is: \<open>unsupported_domain\<close> has no entry (such an answer is a 200
  body, never an exception), so asking for its status raises \<open>KeyError\<close> (\<open>None\<close>).
\<close>

datatype api_error_code =
    Unsupported_domain | Weak_evidence | Citation_validation_failed | Rate_limited | Auth_required
  | Ingestion_failed | Evaluation_failed | Index_unavailable | Cost_limit_reached
  | Rate_limiter_unavailable | Promotion_blocked | Plan_required | Billing_unavailable
  | Already_subscribed | Verification_required | Quota_exceeded | Bot_check_failed
  | Too_many_api_keys | Too_many_shares | Too_many_watches | Validation_error | Not_found
  | Internal_error

fun status_code_for :: "api_error_code \<Rightarrow> nat option" where
  "status_code_for Auth_required = Some 401"
| "status_code_for Validation_error = Some 422"
| "status_code_for Not_found = Some 404"
| "status_code_for Rate_limited = Some 429"
| "status_code_for Weak_evidence = Some 200"
| "status_code_for Citation_validation_failed = Some 200"
| "status_code_for Ingestion_failed = Some 500"
| "status_code_for Evaluation_failed = Some 500"
| "status_code_for Index_unavailable = Some 503"
| "status_code_for Cost_limit_reached = Some 503"
| "status_code_for Rate_limiter_unavailable = Some 503"
| "status_code_for Promotion_blocked = Some 409"
| "status_code_for Plan_required = Some 403"
| "status_code_for Billing_unavailable = Some 503"
| "status_code_for Already_subscribed = Some 409"
| "status_code_for Verification_required = Some 403"
| "status_code_for Quota_exceeded = Some 429"
| "status_code_for Bot_check_failed = Some 403"
| "status_code_for Too_many_api_keys = Some 409"
| "status_code_for Too_many_shares = Some 409"
| "status_code_for Too_many_watches = Some 409"
| "status_code_for Internal_error = Some 500"
| "status_code_for Unsupported_domain = None"

lemma status_code_for_None_iff [simp]: "status_code_for c = None \<longleftrightarrow> c = Unsupported_domain"
  by (cases c) simp_all

end
