(* ===== verification/Rate_Limiter.thy ===== *)
theory Rate_Limiter
  imports Sliding_Window Api_Errors
begin

text \<open>
  \<open>app/core/rate_limit.py\<close>: the two limiters, the choice between them, the bucket keys and the
  per-route dependencies. A time is seconds (\<open>rat\<close>): \<open>time.monotonic()\<close> for the in-process limiter,
  \<open>time.time()\<close> for the Redis one, whose server expires keys by the same clock. An in-process
  bucket is its \<open>deque\<close>, oldest hit first; a Redis bucket is a sorted set with its expiry.

  HMAC-SHA256, the parser of \<open>ipaddress\<close> and \<open>uuid4\<close> are library code: parameters. Both limiters
  interpret the contract of \<open>Sliding_Window\<close>, from which the bounds and their agreement follow.
\<close>

section \<open>Settings and construction\<close>

record limiter_settings =
  rate_limit_enabled :: bool
  rate_limit_window_seconds :: int
  rate_limit_demo_user :: int
  rate_limit_admin :: int
  rate_limit_global :: int
  rate_limit_auth_login :: int
  rate_limit_registered :: int
  rate_limit_magic_link :: int
  rate_limit_password_change :: int
  rate_limit_magic_link_interval :: int
  redis_url :: string
  redis_key_prefix :: string
  client_ip_header :: string
  rate_limit_key_salt :: string
  public_client_token :: string

record limiter_config =
  cfg_window :: int
  cfg_limits :: "(string \<times> int) list"
  cfg_windows :: "(string \<times> int) list"

datatype limiter = In_process limiter_config | Redis limiter_config string

definition make_config ::
    "int \<Rightarrow> int \<Rightarrow> int \<Rightarrow> int \<Rightarrow> int \<Rightarrow> int \<Rightarrow> int \<Rightarrow> int \<Rightarrow> int \<Rightarrow> limiter_config option" where
  "make_config window demo admin global login registered magic password interval =
     (if window < 1 then None
      else if demo < 1 \<or> admin < 1 then None
      else if global < 1 then None
      else if login < 1 then None
      else if registered < 1 then None
      else if magic < 1 then None
      else if password < 1 then None
      else if interval < 1 then None
      else Some \<lparr>cfg_window = window,
        cfg_limits = [(''demo_user'', demo), (''admin'', admin), (''global'', global),
          (''auth_login'', login), (''demo_user_registered'', registered), (''magic_link'', magic),
          (''email_notice'', magic), (''password_change'', password), (''magic_link_interval'', 1)],
        cfg_windows = [(''magic_link_interval'', interval)]\<rparr>)"

definition make_redis ::
    "limiter_config option \<Rightarrow> string \<Rightarrow> limiter option" where
  "make_redis c pfx =
     (case c of None \<Rightarrow> None
      | Some cfg \<Rightarrow> if pfx = [] then None
          else Some (Redis cfg (rev (dropWhile (\<lambda>x. x = CHR '':'') (rev pfx)))))"

definition limit_for :: "limiter_config \<Rightarrow> string \<Rightarrow> int" where
  "limit_for c role =
     (case map_of (cfg_limits c) role of
        Some l \<Rightarrow> l
      | None \<Rightarrow> (case map_of (cfg_limits c) ''demo_user'' of Some l \<Rightarrow> l | None \<Rightarrow> 0))"

definition window_for :: "limiter_config \<Rightarrow> string \<Rightarrow> int" where
  "window_for c role = (case map_of (cfg_windows c) role of Some w \<Rightarrow> w | None \<Rightarrow> cfg_window c)"

fun config_of :: "limiter \<Rightarrow> limiter_config" where
  "config_of (In_process c) = c"
| "config_of (Redis c p) = c"

definition effective_global_limit :: "limiter_settings \<Rightarrow> int" where
  "effective_global_limit s = (if rate_limit_global s > 0 then rate_limit_global s else 600)"

definition build_limiter :: "limiter_settings \<Rightarrow> limiter option" where
  "build_limiter s =
     (let c = make_config (rate_limit_window_seconds s) (rate_limit_demo_user s)
            (rate_limit_admin s) (effective_global_limit s) (rate_limit_auth_login s)
            (rate_limit_registered s) (rate_limit_magic_link s) (rate_limit_password_change s)
            (rate_limit_magic_link_interval s)
      in if redis_url s \<noteq> [] then make_redis c (redis_key_prefix s) else map_option In_process c)"

definition settings_match :: "limiter \<Rightarrow> limiter_settings \<Rightarrow> bool" where
  "settings_match lm s \<longleftrightarrow>
     cfg_window (config_of lm) = rate_limit_window_seconds s
     \<and> limit_for (config_of lm) ''demo_user'' = rate_limit_demo_user s
     \<and> limit_for (config_of lm) ''admin'' = rate_limit_admin s
     \<and> limit_for (config_of lm) ''global'' = effective_global_limit s
     \<and> limit_for (config_of lm) ''auth_login'' = rate_limit_auth_login s
     \<and> limit_for (config_of lm) ''demo_user_registered'' = rate_limit_registered s
     \<and> limit_for (config_of lm) ''magic_link'' = rate_limit_magic_link s
     \<and> limit_for (config_of lm) ''password_change'' = rate_limit_password_change s
     \<and> window_for (config_of lm) ''magic_link_interval'' = rate_limit_magic_link_interval s
     \<and> ((case lm of Redis c p \<Rightarrow> True | In_process c \<Rightarrow> False) \<longleftrightarrow> redis_url s \<noteq> [])"

section \<open>The messages of a refusal\<close>

datatype limiter_message =
    Link_sent_moments_ago
  | Too_many_links
  | Too_many_password_changes
  | Limit_exceeded (upsell: bool)

datatype limit_error = Too_many_requests limiter_message | Limiter_unavailable | Bad_limits

definition too_many_requests :: "string \<Rightarrow> limit_error" where
  "too_many_requests role = Too_many_requests
     (if role = ''magic_link_interval'' then Link_sent_moments_ago
      else if role = ''magic_link'' then Too_many_links
      else if role = ''password_change'' then Too_many_password_changes
      else Limit_exceeded (role = ''demo_user''))"

fun limit_error_code :: "limit_error \<Rightarrow> api_error_code" where
  "limit_error_code (Too_many_requests m) = Rate_limited"
| "limit_error_code Limiter_unavailable = Rate_limiter_unavailable"
| "limit_error_code Bad_limits = Internal_error"

section \<open>One bucket of each limiter\<close>

text \<open>In process: evict from the front, refuse at the limit, else record.\<close>

definition deque_admit :: "rat \<Rightarrow> rat \<Rightarrow> nat \<Rightarrow> 'n \<Rightarrow> rat list \<Rightarrow> bool \<times> rat list" where
  "deque_admit now w limit n bucket =
     (let b = dropWhile (\<lambda>h. h \<le> now - w) bucket
      in if length b \<ge> limit then (False, b) else (True, b @ [now]))"

text \<open>
  Redis: the Lua script on one key. A key past its expiry is gone before the script runs.
  \<open>ZREMRANGEBYSCORE key 0 cutoff\<close> removes the scores from 0 to the cutoff; \<open>ZADD\<close> of an existing
  member would only move its score.
\<close>

record zbucket =
  zset :: "(string \<times> rat) list"
  expires_at :: "rat option"

definition zset_at :: "rat \<Rightarrow> zbucket \<Rightarrow> (string \<times> rat) list" where
  "zset_at now z = (case expires_at z of
      None \<Rightarrow> zset z
    | Some e \<Rightarrow> if e \<le> now then [] else zset z)"

definition zadd :: "string \<Rightarrow> rat \<Rightarrow> (string \<times> rat) list \<Rightarrow> (string \<times> rat) list" where
  "zadd m score zs = filter (\<lambda>p. fst p \<noteq> m) zs @ [(m, score)]"

definition sliding_window_lua ::
    "rat \<Rightarrow> rat \<Rightarrow> string \<Rightarrow> nat \<Rightarrow> rat \<Rightarrow> zbucket \<Rightarrow> (bool \<times> nat) \<times> zbucket" where
  "sliding_window_lua now cutoff m limit ttl z =
     (let zs = filter (\<lambda>p. \<not> (0 \<le> snd p \<and> snd p \<le> cutoff)) (zset_at now z);
          n = length zs
      in if n \<ge> limit
         then ((False, n), \<lparr>zset = zs,
                expires_at = (if zset_at now z = [] then None else expires_at z)\<rparr>)
         else ((True, n + 1), \<lparr>zset = zadd m now zs, expires_at = Some (now + ttl)\<rparr>))"

definition redis_admit :: "rat \<Rightarrow> rat \<Rightarrow> nat \<Rightarrow> string \<Rightarrow> zbucket \<Rightarrow> bool \<times> zbucket" where
  "redis_admit now w limit m z =
     (case sliding_window_lua now (now - w) m limit (w + 1) z of ((ok, cnt), z') \<Rightarrow> (ok, z'))"

section \<open>The process-wide limiter and its stores\<close>

record limiter_state =
  current :: "limiter option"
  deques :: "string \<Rightarrow> rat list"
  redis :: "string \<Rightarrow> zbucket"

definition get_limiter :: "limiter_settings \<Rightarrow> limiter_state \<Rightarrow> (limiter \<times> limiter_state) option" where
  "get_limiter s st =
     (case current st of
        Some lm \<Rightarrow>
          if settings_match lm s then Some (lm, st)
          else map_option (\<lambda>l. (l, st\<lparr>current := Some l, deques := (\<lambda>_. [])\<rparr>)) (build_limiter s)
      | None \<Rightarrow> map_option (\<lambda>l. (l, st\<lparr>current := Some l, deques := (\<lambda>_. [])\<rparr>)) (build_limiter s))"

definition bucket_key :: "string \<Rightarrow> string \<Rightarrow> string" where
  "bucket_key pfx user = pfx @ '':'' @ user"

text \<open>One check: \<open>up\<close> says whether Redis answers, \<open>m\<close> is the member the hit would get.\<close>

fun limiter_check ::
    "limiter \<Rightarrow> rat \<Rightarrow> bool \<Rightarrow> string \<Rightarrow> string \<Rightarrow> string \<Rightarrow> limiter_state
      \<Rightarrow> (limit_error + unit) \<times> limiter_state" where
  "limiter_check (In_process c) now up m user role st =
     (let r = deque_admit now (of_int (window_for c role)) (nat (limit_for c role)) m (deques st user)
      in (if fst r then Inr () else Inl (too_many_requests role),
          st\<lparr>deques := (deques st)(user := snd r)\<rparr>))"
| "limiter_check (Redis c pfx) now up m user role st =
     (if \<not> up then (Inl Limiter_unavailable, st)
      else (let k = bucket_key pfx user;
                r = redis_admit now (of_int (window_for c role)) (nat (limit_for c role)) m (redis st k)
            in (if fst r then Inr () else Inl (too_many_requests role),
                st\<lparr>redis := (redis st)(k := snd r)\<rparr>)))"

text \<open>What the outside answers to one request: the limiter's clock, Redis, the name of the hit.\<close>

record ambient =
  clock :: rat
  redis_up :: bool
  member :: string

definition enforce_rate_limit ::
    "limiter_settings \<Rightarrow> ambient \<Rightarrow> string \<Rightarrow> string \<Rightarrow> limiter_state
      \<Rightarrow> (limit_error + unit) \<times> limiter_state" where
  "enforce_rate_limit s a user role st =
     (if \<not> rate_limit_enabled s then (Inr (), st)
      else (case get_limiter s st of
              None \<Rightarrow> (Inl Bad_limits, st)
            | Some (lm, st') \<Rightarrow> limiter_check lm (clock a) (redis_up a) (member a) user role st'))"

section \<open>Keys\<close>

datatype ip = V4 nat | V6 nat

text \<open>\<open>_normalise_address\<close>: a V6 address is cut to its /64 network, an unparseable one is none.\<close>

definition normalise_address ::
    "(string \<Rightarrow> ip option) \<Rightarrow> (ip \<Rightarrow> string) \<Rightarrow> string \<Rightarrow> string option" where
  "normalise_address parse show raw =
     (case parse raw of
        None \<Rightarrow> None
      | Some (V6 a) \<Rightarrow> Some (show (V6 (a div 2 ^ 64 * 2 ^ 64)) @ ''/64'')
      | Some (V4 a) \<Rightarrow> Some (show (V4 a)))"

text \<open>Header names are kept in lower case, as Starlette looks them up.\<close>

record http_request =
  headers :: "(string \<times> string) list"
  peer_host :: "string option"

definition client_address :: "http_request option \<Rightarrow> limiter_settings \<Rightarrow> string option" where
  "client_address req s =
     (case req of
        None \<Rightarrow> None
      | Some r \<Rightarrow>
          (let header = strip (client_ip_header s);
               peer = (case peer_host r of Some h \<Rightarrow> if h = [] then None else Some h | None \<Rightarrow> None)
           in if header = [] then peer
              else (case map_of (headers r) (lower header) of
                      None \<Rightarrow> peer
                    | Some raw \<Rightarrow>
                        (let candidate = strip (hd (split_on (CHR '','') raw))
                         in if candidate = [] then peer else Some candidate))))"

definition key_salt :: "limiter_settings \<Rightarrow> string" where
  "key_salt s =
     (if rate_limit_key_salt s \<noteq> [] then rate_limit_key_salt s else public_client_token s)"

definition client_rate_key ::
    "(string \<Rightarrow> ip option) \<Rightarrow> (ip \<Rightarrow> string) \<Rightarrow> (string \<Rightarrow> string \<Rightarrow> string)
      \<Rightarrow> http_request option \<Rightarrow> limiter_settings \<Rightarrow> string" where
  "client_rate_key parse show hmac req s =
     (case Option.bind (client_address req s) (normalise_address parse show) of
        None \<Rightarrow> ''demo_unknown''
      | Some n \<Rightarrow> ''demo_'' @ take 32 (hmac (key_salt s) n))"

definition email_bucket_key ::
    "(string \<Rightarrow> string \<Rightarrow> string) \<Rightarrow> string \<Rightarrow> string \<Rightarrow> limiter_settings \<Rightarrow> string" where
  "email_bucket_key hmac pfx email s = pfx @ ''_'' @ take 32 (hmac (key_salt s) email)"

section \<open>The dependencies of the routes\<close>

definition is_registered_principal :: "user_id \<Rightarrow> bool" where
  "is_registered_principal u = (take 4 u = ''usr_'')"

text \<open>
  The per-visitor limit, then the site-wide one: \<open>who\<close> is what the cookie resolved to (or
  none), \<open>a\<close> and \<open>b\<close> what the outside answers to the first and to the second check.
\<close>

definition enforce_global_rate_limit ::
    "limiter_settings \<Rightarrow> ambient \<Rightarrow> limiter_state \<Rightarrow> (limit_error + unit) \<times> limiter_state" where
  "enforce_global_rate_limit s b st =
     (if rate_limit_global s > 0 then enforce_rate_limit s b ''demo_global'' ''global'' st
      else (Inr (), st))"

definition apply_per_visitor_rate_limit ::
    "limiter_settings \<Rightarrow> user_id option \<Rightarrow> string \<Rightarrow> ambient \<Rightarrow> ambient \<Rightarrow> limiter_state
      \<Rightarrow> (limit_error + unit) \<times> limiter_state" where
  "apply_per_visitor_rate_limit s who visitor_key a b st =
     (case (case who of
              Some u \<Rightarrow> if is_registered_principal u
                  then enforce_rate_limit s a u ''demo_user_registered'' st
                  else enforce_rate_limit s a visitor_key ''demo_user'' st
            | None \<Rightarrow> enforce_rate_limit s a visitor_key ''demo_user'' st) of
        (Inl e, st') \<Rightarrow> (Inl e, st')
      | (Inr u, st') \<Rightarrow> enforce_global_rate_limit s b st')"

definition email_notice_allowed ::
    "(string \<Rightarrow> string \<Rightarrow> string) \<Rightarrow> string \<Rightarrow> limiter_settings \<Rightarrow> ambient \<Rightarrow> limiter_state
      \<Rightarrow> bool \<times> limiter_state" where
  "email_notice_allowed hmac email s a st =
     (case enforce_rate_limit s a (email_bucket_key hmac ''notify'' email s) ''email_notice'' st of
        (Inl e, st') \<Rightarrow> (False, st')
      | (Inr u, st') \<Rightarrow> (True, st'))"

definition enforce_auth_login_rate_limit ::
    "(string \<Rightarrow> string \<Rightarrow> string) \<Rightarrow> string \<Rightarrow> limiter_settings \<Rightarrow> ambient \<Rightarrow> limiter_state
      \<Rightarrow> (limit_error + unit) \<times> limiter_state" where
  "enforce_auth_login_rate_limit hmac email s a =
     enforce_rate_limit s a (email_bucket_key hmac ''authlogin'' email s) ''auth_login''"

definition enforce_magic_link_rate_limit ::
    "(string \<Rightarrow> string \<Rightarrow> string) \<Rightarrow> string \<Rightarrow> limiter_settings \<Rightarrow> ambient \<Rightarrow> limiter_state
      \<Rightarrow> (limit_error + unit) \<times> limiter_state" where
  "enforce_magic_link_rate_limit hmac email s a =
     enforce_rate_limit s a (email_bucket_key hmac ''magiclink'' email s) ''magic_link''"

definition enforce_magic_link_interval ::
    "(string \<Rightarrow> string \<Rightarrow> string) \<Rightarrow> string \<Rightarrow> limiter_settings \<Rightarrow> ambient \<Rightarrow> limiter_state
      \<Rightarrow> (limit_error + unit) \<times> limiter_state" where
  "enforce_magic_link_interval hmac email s a =
     enforce_rate_limit s a (email_bucket_key hmac ''mlinterval'' email s) ''magic_link_interval''"

definition enforce_password_change_rate_limit ::
    "user_id \<Rightarrow> limiter_settings \<Rightarrow> ambient \<Rightarrow> limiter_state \<Rightarrow> (limit_error + unit) \<times> limiter_state" where
  "enforce_password_change_rate_limit u s a =
     enforce_rate_limit s a (''pwchange_'' @ u) ''password_change''"

definition rate_limited_admin ::
    "user_id \<Rightarrow> limiter_settings \<Rightarrow> ambient \<Rightarrow> limiter_state \<Rightarrow> (limit_error + user_id) \<times> limiter_state" where
  "rate_limited_admin u s a st =
     (case enforce_rate_limit s a u ''admin'' st of
        (Inl e, st') \<Rightarrow> (Inl e, st')
      | (Inr x, st') \<Rightarrow> (Inr u, st'))"

section \<open>Both buckets keep the contract\<close>

definition deque_inv :: "rat \<Rightarrow> rat \<Rightarrow> rat list \<Rightarrow> bool" where
  "deque_inv w t b \<longleftrightarrow> 0 < w \<and> sorted b \<and> (\<forall>h\<in>set b. h \<le> t)"

definition zbucket_inv :: "rat \<Rightarrow> rat \<Rightarrow> zbucket \<Rightarrow> bool" where
  "zbucket_inv w t z \<longleftrightarrow> 0 < w \<and> 0 \<le> t \<and> (\<forall>p\<in>set (zset z). 0 \<le> snd p \<and> snd p \<le> t)
     \<and> (zset z \<noteq> [] \<longrightarrow> (\<exists>e. expires_at z = Some e \<and> (\<forall>p\<in>set (zset z). snd p + w < e)))"

definition zhits :: "zbucket \<Rightarrow> rat multiset" where
  "zhits z = mset (map snd (zset z))"

lemma deque_evict:
  "deque_inv w t b \<Longrightarrow> mset (dropWhile (\<lambda>h. h \<le> now - w) b) = live now w (mset b)"
  by (simp add: deque_inv_def dropWhile_eq_filter_if_sorted live_def flip: mset_filter)

interpretation dq: sliding_window deque_admit mset deque_inv "\<lambda>n b. True"
proof
  fix w t now :: rat and b :: "rat list" and l :: nat and n :: 'n
  assume inv: "deque_inv w t b"
  show "0 < w" using inv by (simp add: deque_inv_def)
  show "h \<le> t" if "h \<in># mset b" for h using inv that by (simp add: deque_inv_def)
  assume now: "t \<le> now"
  show "fst (deque_admit now w l n b) \<longleftrightarrow> size (live now w (mset b)) < l"
    by (simp add: deque_admit_def Let_def not_le flip: deque_evict [OF inv])
  show "deque_inv w now (snd (deque_admit now w l n b))"
    using inv now by (auto simp: deque_admit_def deque_inv_def Let_def sorted_append
        sorted_dropWhile_le dest!: set_dropWhileD)
  show "live now w (mset (snd (deque_admit now w l n b))) =
      live now w (mset b) + (if fst (deque_admit now w l n b) then {#now#} else {#})"
    using inv live_live [OF order_refl, of now w "mset b"]
    by (auto simp: deque_admit_def Let_def deque_evict [OF inv] deque_inv_def)
qed simp_all

lemma zset_at_live:
  assumes "zbucket_inv w t z" and "t \<le> now"
  shows "filter (\<lambda>p. \<not> (0 \<le> snd p \<and> snd p \<le> now - w)) (zset_at now z) =
    filter (\<lambda>p. now - w < snd p) (zset z)"
proof -
  have pos: "\<forall>p\<in>set (zset z). 0 \<le> snd p" using assms(1) by (simp add: zbucket_inv_def)
  show ?thesis
  proof (cases "zset_at now z = zset z")
    case True
    with pos show ?thesis by (auto intro!: filter_cong)
  next
    case False
    then obtain e where e: "expires_at z = Some e" "e \<le> now" "zset_at now z = []" "zset z \<noteq> []"
      by (auto simp: zset_at_def split: option.splits if_splits)
    with assms(1) have "\<forall>p\<in>set (zset z). snd p + w < now"
      by (auto simp: zbucket_inv_def)
    then have "\<forall>p\<in>set (zset z). \<not> now - w < snd p" by (auto simp: algebra_simps)
    with e(3) show ?thesis by simp
  qed
qed

lemma size_live_zhits: "size (live now w (zhits z)) = length (filter (\<lambda>p. now - w < snd p) (zset z))"
proof -
  have "live now w (zhits z) = mset (filter (\<lambda>h. now - w < h) (map snd (zset z)))"
    by (simp only: zhits_def live_def mset_filter)
  then show ?thesis by (simp only: size_mset filter_map comp_def length_map)
qed

interpretation rz: sliding_window redis_admit zhits zbucket_inv "\<lambda>n z. n \<notin> fst ` set (zset z)"
proof
  fix w t now :: rat and z :: zbucket and l :: nat and n m :: string
  {
    assume inv: "zbucket_inv w t z"
    show "0 < w" using inv by (simp add: zbucket_inv_def)
    show "h \<le> t" if "h \<in># zhits z" for h using inv that by (auto simp: zbucket_inv_def zhits_def)
    assume now: "t \<le> now"
    let ?zs = "filter (\<lambda>p. now - w < snd p) (zset z)"
    note evict = zset_at_live [OF inv now]
    have at: "zset_at now z = [] \<Longrightarrow> ?zs = []" using evict by simp
    show "fst (redis_admit now w l n z) \<longleftrightarrow> size (live now w (zhits z)) < l"
      unfolding redis_admit_def sliding_window_lua_def Let_def evict
      by (simp add: size_live_zhits not_le)
    show "zbucket_inv w now (snd (redis_admit now w l n z))"
      using inv now at unfolding redis_admit_def sliding_window_lua_def Let_def evict
      by (fastforce simp: zbucket_inv_def zadd_def)
    show "live now w (zhits (snd (redis_admit now w l n z))) =
        live now w (zhits z) + (if fst (redis_admit now w l n z) then {#now#} else {#})"
      if "n \<notin> fst ` set (zset z)"
    proof -
      have kept: "filter (\<lambda>p. fst p \<noteq> n) ?zs = ?zs" by (intro filter_True) (use that in force)
      have "mset (map snd ?zs) = live now w (zhits z)"
      proof -
        have "map snd ?zs = filter (\<lambda>h. now - w < h) (map snd (zset z))"
          by (simp add: filter_map comp_def)
        then show ?thesis by (simp only: zhits_def live_def mset_filter)
      qed
      moreover have "0 < w" using inv by (simp add: zbucket_inv_def)
      ultimately show ?thesis
        unfolding redis_admit_def sliding_window_lua_def Let_def evict zadd_def kept
        by (auto simp: zhits_def live_live)
    qed
  }
  show "m \<notin> fst ` set (zset (snd (redis_admit now w l n z)))"
    if "m \<notin> fst ` set (zset z)" and "m \<noteq> n"
    using that
    by (auto simp: redis_admit_def sliding_window_lua_def Let_def zadd_def zset_at_def
        split: option.splits if_splits)
qed

interpretation both: two_limiters deque_admit mset deque_inv "\<lambda>n b. True"
  redis_admit zhits zbucket_inv "\<lambda>n z. n \<notin> fst ` set (zset z)" ..

section \<open>Runs of the limiter\<close>

text \<open>
  Requests to a limiter with Redis answering: when, for whom, in which role, and the name the hit
  would get. The run keeps the requests that were let through.
\<close>

type_synonym limiter_request = "rat \<times> string \<times> string \<times> string"

fun limiter_run :: "limiter \<Rightarrow> limiter_request list \<Rightarrow> limiter_state \<Rightarrow> limiter_request list" where
  "limiter_run lm [] st = []"
| "limiter_run lm ((now, user, role, m) # qs) st =
     (case limiter_check lm now True m user role st of
        (Inl e, st') \<Rightarrow> limiter_run lm qs st'
      | (Inr u, st') \<Rightarrow> (now, user, role, m) # limiter_run lm qs st')"

definition requests_of :: "string \<Rightarrow> limiter_request list \<Rightarrow> limiter_request list" where
  "requests_of user qs = filter (\<lambda>q. fst (snd q) = user) qs"

text \<open>A state with no hit recorded for a user, and a sequence of requests a clock can produce.\<close>

definition no_hits :: "limiter \<Rightarrow> string \<Rightarrow> limiter_state \<Rightarrow> bool" where
  "no_hits lm user st \<longleftrightarrow> (case lm of
      In_process c \<Rightarrow> deques st user = []
    | Redis c pfx \<Rightarrow> zset (redis st (bucket_key pfx user)) = [])"

definition well_timed :: "limiter_request list \<Rightarrow> bool" where
  "well_timed qs \<longleftrightarrow> from_then_on 0 (map fst qs) \<and> distinct (map (\<lambda>q. snd (snd (snd q))) qs)"

definition one_role :: "string \<Rightarrow> string \<Rightarrow> limiter_request list \<Rightarrow> bool" where
  "one_role user role qs \<longleftrightarrow> (\<forall>q\<in>set (requests_of user qs). fst (snd (snd q)) = role)"

abbreviation windows_of :: "limiter_config \<Rightarrow> string \<Rightarrow> rat" where
  "windows_of c role \<equiv> of_int (window_for c role)"

abbreviation limits_of :: "limiter_config \<Rightarrow> string \<Rightarrow> nat" where
  "limits_of c role \<equiv> nat (limit_for c role)"

lemma bucket_key_inject [simp]: "bucket_key p u = bucket_key p v \<longleftrightarrow> u = v"
  by (simp add: bucket_key_def)

lemma run_in_process:
  "limiter_run (In_process c) qs st = dq.served (windows_of c) (limits_of c) qs (deques st)"
  by (induction qs arbitrary: st) (auto simp: dq.check_key_def Let_def)

lemma run_redis:
  "limiter_run (Redis c p) qs st =
     rz.served (windows_of c) (limits_of c) qs (\<lambda>u. redis st (bucket_key p u))"
proof (induction qs arbitrary: st)
  case (Cons q qs)
  have upd: "(\<lambda>u. ((redis st)(bucket_key p v := z)) (bucket_key p u)) =
      (\<lambda>u. redis st (bucket_key p u))(v := z)" for v z
    by auto
  from Cons show ?case
    by (cases q) (simp add: rz.check_key_def Let_def upd del: fun_upd_apply)
qed simp

lemma of_key_requests_of:
  "dq.of_key u qs = map (\<lambda>q. (fst q, snd (snd (snd q)))) (requests_of u qs)"
  "rz.of_key u qs = map (\<lambda>q. (fst q, snd (snd (snd q)))) (requests_of u qs)"
  by (simp_all add: dq.of_key_def rz.of_key_def requests_of_def case_prod_unfold)

lemma one_role_iff:
  "one_role user role qs \<longleftrightarrow> (\<forall>(now, k, r, m)\<in>set qs. k = user \<longrightarrow> r = role)"
  by (auto simp: one_role_def requests_of_def)

lemma well_timed_of:
  assumes "well_timed qs"
  shows "from_then_on 0 (map fst (requests_of u qs))"
    and "distinct (map (\<lambda>q. snd (snd (snd q))) (requests_of u qs))"
  using assms unfolding well_timed_def requests_of_def
  by (auto intro: from_then_on_sub [OF subseq_map [OF subseq_filter_left]] simp: distinct_map
      inj_on_def)

lemma requests_of_inject:
  assumes "one_role u role qs" and "one_role u role qs'"
    and "map (\<lambda>q. (fst q, snd (snd (snd q)))) (requests_of u qs) =
         map (\<lambda>q. (fst q, snd (snd (snd q)))) (requests_of u qs')"
  shows "requests_of u qs = requests_of u qs'"
proof -
  have "inj_on (\<lambda>q. (fst q, snd (snd (snd q)))) (set (requests_of u qs) \<union> set (requests_of u qs'))"
  proof (rule inj_onI)
    fix x y
    assume mem: "x \<in> set (requests_of u qs) \<union> set (requests_of u qs')"
      "y \<in> set (requests_of u qs) \<union> set (requests_of u qs')"
      and eq: "(fst x, snd (snd (snd x))) = (fst y, snd (snd (snd y)))"
    have "fst (snd x) = u" "fst (snd y) = u" using mem by (auto simp: requests_of_def)
    moreover have "fst (snd (snd x)) = role" "fst (snd (snd y)) = role"
      using mem assms(1,2) unfolding one_role_def by blast+
    ultimately show "x = y" using eq by (simp add: prod_eq_iff)
  qed
  then show ?thesis
    using assms(3) by (simp add: map_inj_on)
qed

section \<open>What the settings promise\<close>

lemma make_config_Some:
  assumes "make_config w d a g l r m p i = Some c"
  shows "1 \<le> window_for c role" and "1 \<le> limit_for c role"
  using assms
  by (auto simp: make_config_def window_for_def limit_for_def split: if_splits)

lemma make_config_values:
  assumes "make_config w d a g l r m p i = Some c"
  shows "cfg_window c = w" and "limit_for c ''demo_user'' = d" and "limit_for c ''admin'' = a"
    and "limit_for c ''global'' = g" and "limit_for c ''auth_login'' = l"
    and "limit_for c ''demo_user_registered'' = r" and "limit_for c ''magic_link'' = m"
    and "limit_for c ''password_change'' = p" and "window_for c ''magic_link_interval'' = i"
  using assms by (auto simp: make_config_def limit_for_def window_for_def split: if_splits)

lemma build_limiter_config:
  assumes "build_limiter s = Some lm"
  shows "make_config (rate_limit_window_seconds s) (rate_limit_demo_user s)
            (rate_limit_admin s) (effective_global_limit s) (rate_limit_auth_login s)
            (rate_limit_registered s) (rate_limit_magic_link s) (rate_limit_password_change s)
            (rate_limit_magic_link_interval s) = Some (config_of lm)"
    and "(case lm of Redis c p \<Rightarrow> True | In_process c \<Rightarrow> False) \<longleftrightarrow> redis_url s \<noteq> []"
  using assms
  by (auto simp: build_limiter_def make_redis_def Let_def split: if_splits option.splits)

lemma built_limiter_matches:
  assumes "build_limiter s = Some lm"
  shows "settings_match lm s"
  using build_limiter_config(2) [OF assms] make_config_values [OF build_limiter_config(1) [OF assms]]
  by (simp add: settings_match_def)

lemma built_positive:
  assumes "build_limiter s = Some lm"
  shows "0 < windows_of (config_of lm) role"
  using make_config_Some(1) [OF build_limiter_config(1) [OF assms], of role]
  by simp

section \<open>Runs through the dependency\<close>

text \<open>
  What a route sees: each request goes through \<open>enforce_rate_limit\<close>, which builds the limiter on
  first use and keeps it while the settings match.
\<close>

definition at_time :: "rat \<Rightarrow> string \<Rightarrow> ambient" where
  "at_time now m = \<lparr>clock = now, redis_up = True, member = m\<rparr>"

fun enforce_run ::
    "limiter_settings \<Rightarrow> limiter_request list \<Rightarrow> limiter_state \<Rightarrow> limiter_request list" where
  "enforce_run s [] st = []"
| "enforce_run s ((now, user, role, m) # qs) st =
     (case enforce_rate_limit s (at_time now m) user role st of
        (Inl e, st') \<Rightarrow> enforce_run s qs st'
      | (Inr u, st') \<Rightarrow> (now, user, role, m) # enforce_run s qs st')"

text \<open>A process that has not built its limiter yet, with no hit of the user left in Redis.\<close>

definition just_started :: "limiter_settings \<Rightarrow> string \<Rightarrow> limiter_state \<Rightarrow> bool" where
  "just_started s user st \<longleftrightarrow> rate_limit_enabled s \<and> current st = None
     \<and> (case build_limiter s of
          Some (Redis c pfx) \<Rightarrow> zset (redis st (bucket_key pfx user)) = []
        | other \<Rightarrow> True)"

lemma limiter_check_current: "current (snd (limiter_check lm now up m user role st)) = current st"
  by (cases lm) (auto simp: Let_def)

lemma enforce_run_current:
  assumes "rate_limit_enabled s" and "build_limiter s = Some lm" and "current st = Some lm"
  shows "enforce_run s qs st = limiter_run lm qs st"
  using assms(3)
proof (induction qs arbitrary: st)
  case (Cons q qs)
  obtain now u role m where q: "q = (now, u, role, m)" by (cases q) auto
  obtain r st' where c: "limiter_check lm now True m u role st = (r, st')" by fastforce
  then have "current st' = Some lm"
    using limiter_check_current [of lm now True m u role st] Cons.prems by simp
  then have "enforce_run s qs st' = limiter_run lm qs st'" by (rule Cons.IH)
  with c Cons.prems assms(1) built_limiter_matches [OF assms(2)] show ?case
    by (simp add: q enforce_rate_limit_def get_limiter_def at_time_def split: sum.splits)
qed simp

definition with_limiter :: "limiter \<Rightarrow> limiter_state \<Rightarrow> limiter_state" where
  "with_limiter lm st = st\<lparr>current := Some lm, deques := (\<lambda>_. [])\<rparr>"

lemma enforce_run_just_started:
  assumes "rate_limit_enabled s" and "build_limiter s = Some lm" and "current st = None"
  shows "enforce_run s qs st = limiter_run lm qs (with_limiter lm st)"
proof -
  have cur: "current (with_limiter lm st) = Some lm" by (simp add: with_limiter_def)
  have "enforce_run s qs st = enforce_run s qs (with_limiter lm st)"
    using assms built_limiter_matches [OF assms(2)]
    by (cases qs)
      (auto simp: enforce_rate_limit_def get_limiter_def with_limiter_def)
  then show ?thesis using enforce_run_current [OF assms(1,2) cur] by simp
qed

lemma just_started_no_hits:
  assumes "just_started s user st" and "build_limiter s = Some lm"
  shows "no_hits lm user (with_limiter lm st)"
  using assms by (auto simp: just_started_def no_hits_def with_limiter_def split: limiter.splits)

lemma fresh_deque_inv: "0 < w \<Longrightarrow> deque_inv w 0 []"
  by (simp add: deque_inv_def)

lemma fresh_zbucket_inv: "0 < w \<Longrightarrow> zset z = [] \<Longrightarrow> zbucket_inv w 0 z"
  by (simp add: zbucket_inv_def)

text \<open>A run of one user, as the contract of one bucket sees it.\<close>

abbreviation names_of :: "limiter_request list \<Rightarrow> (rat \<times> string) list" where
  "names_of qs \<equiv> map (\<lambda>q. (fst q, snd (snd (snd q)))) qs"

lemma named_apart_of:
  assumes "well_timed qs"
  shows "dq.named_apart (names_of (requests_of u qs)) b"
    and "zset z = [] \<Longrightarrow> rz.named_apart (names_of (requests_of u qs)) z"
    and "from_then_on 0 (map fst (names_of (requests_of u qs)))"
  using well_timed_of [OF assms, of u]
  by (auto simp: dq.named_apart_def rz.named_apart_def comp_def)

lemma limiter_run_user:
  assumes "one_role u role qs"
  shows "names_of (requests_of u (limiter_run (In_process c) qs st)) =
      dq.admitted (windows_of c role) (limits_of c role) (names_of (requests_of u qs)) (deques st u)"
    and "names_of (requests_of u (limiter_run (Redis c p) qs st)) =
      rz.admitted (windows_of c role) (limits_of c role) (names_of (requests_of u qs))
        (redis st (bucket_key p u))"
  using dq.served_of_key [OF assms [unfolded one_role_iff]]
    rz.served_of_key [OF assms [unfolded one_role_iff]]
  by (simp_all add: run_in_process run_redis flip: of_key_requests_of)

lemma limiter_run_subseq: "subseq (limiter_run lm qs st) qs"
proof (induction qs arbitrary: st)
  case (Cons q qs)
  obtain now u role m where q: "q = (now, u, role, m)" by (cases q) auto
  obtain r st' where c: "limiter_check lm now True m u role st = (r, st')" by fastforce
  have "subseq (limiter_run lm qs st') (q # qs)" "subseq (q # limiter_run lm qs st') (q # qs)"
    using Cons [of st'] by (simp_all add: list_emb_Cons)
  with c q show ?case by (simp split: sum.splits)
qed simp

lemma limiter_run_subset: "set (limiter_run lm qs st) \<subseteq> set qs"
  using list_emb_set [OF limiter_run_subseq] by blast

lemma one_role_run: "one_role u role qs \<Longrightarrow> one_role u role (limiter_run lm qs st)"
  unfolding one_role_iff using limiter_run_subset by blast

lemma limiter_run_bound:
  assumes "\<forall>r. 0 < windows_of (config_of lm) r" and "well_timed qs" and "one_role u role qs"
    and "no_hits lm u st"
  shows "size (in_window T (windows_of (config_of lm) role)
    (mset (map fst (requests_of u (limiter_run lm qs st))))) \<le> limits_of (config_of lm) role"
proof -
  note na = named_apart_of [OF assms(2)]
  have fst_names: "map fst (requests_of u xs) = map fst (names_of (requests_of u xs))" for xs
    by simp
  show ?thesis
  proof (cases lm)
    case (In_process c)
    then show ?thesis
      unfolding fst_names In_process limiter_run_user(1) [OF assms(3)]
      using assms(1,4) In_process dq.at_most_limit_per_window [OF fresh_deque_inv na(3,1)]
      by (auto simp: no_hits_def)
  next
    case (Redis c p)
    then have z: "zset (redis st (bucket_key p u)) = []" using assms(4) by (simp add: no_hits_def)
    then show ?thesis
      unfolding fst_names Redis limiter_run_user(2) [OF assms(3)]
      using assms(1) Redis rz.at_most_limit_per_window [OF fresh_zbucket_inv [OF _ z] na(3) na(2) [OF z]]
      by (auto simp: zhits_def)
  qed
qed

section \<open>Properties\<close>

text \<open>C3: However the requests fall, no rolling window of the role's length contains more admitted
  requests of one user than the role's limit; of either limiter, from the moment the process
  started.\<close>
theorem no_window_exceeds_limit:
  assumes "just_started s user st" and "build_limiter s = Some lm"
    and "well_timed qs" and "one_role user role qs"
  shows "size (in_window T (windows_of (config_of lm) role)
      (mset (map fst (requests_of user (enforce_run s qs st))))) \<le> limits_of (config_of lm) role"
  using assms limiter_run_bound [OF _ assms(3,4) just_started_no_hits [OF assms(1,2)]]
    built_positive [OF assms(2)]
  by (simp add: enforce_run_just_started just_started_def)

definition demo_limits :: limiter_settings where
  "demo_limits = \<lparr>rate_limit_enabled = True, rate_limit_window_seconds = 10,
     rate_limit_demo_user = 2, rate_limit_admin = 60, rate_limit_global = 600,
     rate_limit_auth_login = 10, rate_limit_registered = 60, rate_limit_magic_link = 5,
     rate_limit_password_change = 5, rate_limit_magic_link_interval = 60, redis_url = ''redis://a'',
     redis_key_prefix = ''rl:'', client_ip_header = '''', rate_limit_key_salt = ''salt'',
     public_client_token = ''token''\<rparr>"

definition demo_config :: limiter_config where
  "demo_config = \<lparr>cfg_window = 10,
        cfg_limits = [(''demo_user'', 2), (''admin'', 60), (''global'', 600),
          (''auth_login'', 10), (''demo_user_registered'', 60), (''magic_link'', 5),
          (''email_notice'', 5), (''password_change'', 5), (''magic_link_interval'', 1)],
        cfg_windows = [(''magic_link_interval'', 60)]\<rparr>"

definition empty_process :: limiter_state where
  "empty_process = \<lparr>current = None, deques = (\<lambda>_. []),
     redis = (\<lambda>_. \<lparr>zset = [], expires_at = None\<rparr>)\<rparr>"

definition demo_requests :: "limiter_request list" where
  "demo_requests = [(1, ''demo_a'', ''demo_user'', ''m1''), (2, ''demo_a'', ''demo_user'', ''m2''),
     (3, ''demo_b'', ''demo_user'', ''m3''), (4, ''demo_a'', ''demo_user'', ''m4''),
     (11, ''demo_a'', ''demo_user'', ''m5'')]"

lemma demo_build: "build_limiter demo_limits = Some (Redis demo_config ''rl'')"
  by (simp add: build_limiter_def demo_limits_def make_redis_def make_config_def demo_config_def
      effective_global_limit_def)

lemma demo_build_in_process:
  "build_limiter (demo_limits\<lparr>redis_url := ''''\<rparr>) = Some (In_process demo_config)"
  by (simp add: build_limiter_def demo_limits_def make_config_def demo_config_def
      effective_global_limit_def)

lemma demo_just_started:
  "just_started demo_limits u empty_process"
  "just_started (demo_limits\<lparr>redis_url := ''''\<rparr>) u empty_process"
  by (simp_all only: just_started_def demo_build demo_build_in_process)
    (simp_all add: demo_limits_def empty_process_def)

lemma demo_well_timed: "well_timed demo_requests" "one_role ''demo_a'' ''demo_user'' demo_requests"
  by (simp_all add: well_timed_def demo_requests_def one_role_def requests_of_def)

theorem no_window_exceeds_limit_witness:
  "size (in_window 11 10 (mset (map fst (requests_of ''demo_a''
      (enforce_run demo_limits demo_requests empty_process))))) \<le> 2"
  using no_window_exceeds_limit [OF demo_just_started(1) demo_build demo_well_timed, of 11]
  by (simp add: window_for_def limit_for_def demo_config_def config_of.simps)

text \<open>A refused request leaves no trace: a user who had sent only the requests that were
  admitted would have had every one of them admitted, so a flood of refused requests never
  prolongs a refusal.\<close>
theorem denied_requests_leave_no_trace:
  assumes "just_started s user st" and "build_limiter s = Some lm"
    and "well_timed qs" and "one_role user role qs"
  shows "requests_of user (enforce_run s (enforce_run s qs st) st) =
    requests_of user (enforce_run s qs st)"
proof -
  let ?st = "with_limiter lm st" and ?ks = "limiter_run lm qs (with_limiter lm st)"
  note none = just_started_no_hits [OF assms(1,2)]
  note na = named_apart_of [OF assms(3)]
  have role: "one_role user role ?ks" using assms(4) by (rule one_role_run)
  have pos: "0 < windows_of (config_of lm) role" using assms(2) by (rule built_positive)
  have "names_of (requests_of user (limiter_run lm ?ks ?st)) = names_of (requests_of user ?ks)"
  proof (cases lm)
    case (In_process c)
    with none pos have "deque_inv (windows_of c role) 0 (deques ?st user)"
      by (simp add: no_hits_def fresh_deque_inv)
    from dq.denied_leave_no_trace [OF this na(3) na(1)] show ?thesis
      using role assms(4) In_process by (simp add: limiter_run_user)
  next
    case (Redis c p)
    with none have z: "zset (redis ?st (bucket_key p user)) = []" by (simp add: no_hits_def)
    with pos Redis have "zbucket_inv (windows_of c role) 0 (redis ?st (bucket_key p user))"
      by (simp add: fresh_zbucket_inv)
    from rz.denied_leave_no_trace [OF this na(3) na(2) [OF z]] show ?thesis
      using role assms(4) Redis by (simp add: limiter_run_user)
  qed
  then have "requests_of user (limiter_run lm ?ks ?st) = requests_of user ?ks"
    using one_role_run [OF role] role by (intro requests_of_inject)
  with assms(1,2) show ?thesis by (simp add: enforce_run_just_started just_started_def)
qed

theorem denied_requests_leave_no_trace_witness:
  "requests_of ''demo_a'' (enforce_run demo_limits (enforce_run demo_limits demo_requests
      empty_process) empty_process) =
    requests_of ''demo_a'' (enforce_run demo_limits demo_requests empty_process)"
  using denied_requests_leave_no_trace [OF demo_just_started(1) demo_build demo_well_timed] .

text \<open>C4: The two limiters agree: on any sequence of requests the Redis script admits exactly the
  requests of a user that the in-process limiter admits, key expiry and all.\<close>
theorem redis_agrees_with_in_process:
  assumes "just_started s user st" and "just_started (s\<lparr>redis_url := ''''\<rparr>) user st"
    and "build_limiter s = Some (Redis c pfx)" and "well_timed qs" and "one_role user role qs"
  shows "requests_of user (enforce_run s qs st) =
    requests_of user (enforce_run (s\<lparr>redis_url := ''''\<rparr>) qs st)"
proof -
  let ?i = "s\<lparr>redis_url := ''''\<rparr>"
  have "build_limiter ?i = Some (In_process c)"
    using assms(3) by (auto simp: build_limiter_def make_redis_def effective_global_limit_def Let_def
        split: if_splits option.splits)
  note i = this and na = named_apart_of [OF assms(4)]
  have z: "zset (redis st (bucket_key pfx user)) = []"
    using just_started_no_hits [OF assms(1,3)] by (simp add: no_hits_def with_limiter_def)
  have pos: "0 < windows_of c role" using built_positive [OF assms(3)] by simp
  have "dq.admitted (windows_of c role) (limits_of c role) (names_of (requests_of user qs)) [] =
      rz.admitted (windows_of c role) (limits_of c role) (names_of (requests_of user qs))
        (redis st (bucket_key pfx user))"
    using both.same_decisions [OF fresh_deque_inv [OF pos] fresh_zbucket_inv [OF pos z] na(3)
        na(1) na(2) [OF z]] z by (simp add: zhits_def)
  then have "names_of (requests_of user (limiter_run (Redis c pfx) qs (with_limiter (Redis c pfx) st))) =
      names_of (requests_of user (limiter_run (In_process c) qs (with_limiter (In_process c) st)))"
    by (simp only: limiter_run_user [OF assms(5)]) (simp add: with_limiter_def)
  then have "requests_of user (limiter_run (Redis c pfx) qs (with_limiter (Redis c pfx) st)) =
      requests_of user (limiter_run (In_process c) qs (with_limiter (In_process c) st))"
    using one_role_run [OF assms(5)] by (intro requests_of_inject)
  with assms(1-3) i show ?thesis by (simp add: enforce_run_just_started just_started_def)
qed

theorem redis_agrees_with_in_process_witness:
  "requests_of ''demo_a'' (enforce_run demo_limits demo_requests empty_process) =
    requests_of ''demo_a'' (enforce_run (demo_limits\<lparr>redis_url := ''''\<rparr>) demo_requests
      empty_process)"
  using redis_agrees_with_in_process [OF demo_just_started demo_build demo_well_timed] .

lemma get_limiter_built:
  assumes "build_limiter s = Some lm"
  shows "\<exists>l st'. get_limiter s st = Some (l, st') \<and> settings_match l s \<and> redis st' = redis st"
proof (cases "\<exists>l. current st = Some l \<and> settings_match l s")
  case True
  then show ?thesis by (auto simp: get_limiter_def)
next
  case False
  then have "get_limiter s st = Some (lm, st\<lparr>current := Some lm, deques := (\<lambda>_. [])\<rparr>)"
    using assms by (cases "current st") (simp_all add: get_limiter_def)
  with built_limiter_matches [OF assms] show ?thesis by simp
qed


definition outage :: ambient where
  "outage = \<lparr>clock = 5, redis_up = False, member = ''m''\<rparr>"


lemma limiter_check_other_bucket:
  assumes "v \<noteq> user"
  shows "deques (snd (limiter_check lm now up m user role st)) v = deques st v"
    and "lm = Redis c p \<Longrightarrow> redis (snd (limiter_check lm now up m user role st)) (bucket_key p v) =
      redis st (bucket_key p v)"
  using assms by (cases lm; simp add: Let_def)+

lemma client_rate_key_not_global:
  assumes "\<forall>k m. length (hmac k m) = 64"
  shows "client_rate_key parse show_ip hmac req s \<noteq> ''demo_global''"
proof
  assume eq: "client_rate_key parse show_ip hmac req s = ''demo_global''"
  have "length (client_rate_key parse show_ip hmac req s) = 12
      \<or> length (client_rate_key parse show_ip hmac req s) = 37"
    using assms by (simp add: client_rate_key_def split: option.splits)
  with eq show False by simp
qed

text \<open>The bucket that every visitor shares, of the limiter in use.\<close>

definition global_bucket :: "limiter \<Rightarrow> limiter_state \<Rightarrow> rat list + zbucket" where
  "global_bucket lm st = (case lm of
      In_process c \<Rightarrow> Inl (deques st ''demo_global'')
    | Redis c p \<Rightarrow> Inr (redis st (bucket_key p ''demo_global'')))"

text \<open>The bucket and the role the per-visitor check of a request is made under.\<close>

definition visitor_bucket :: "user_id option \<Rightarrow> string \<Rightarrow> string \<times> string" where
  "visitor_bucket who key =
     (if \<exists>u. who = Some u \<and> is_registered_principal u then (the who, ''demo_user_registered'')
      else (key, ''demo_user''))"

lemma apply_per_visitor_cases:
  assumes "visitor_bucket who key = (u, role)"
  shows "apply_per_visitor_rate_limit s who key a b st =
      (case enforce_rate_limit s a u role st of (Inl e, st') \<Rightarrow> (Inl e, st')
       | (Inr x, st') \<Rightarrow> enforce_global_rate_limit s b st')"
  using assms
  by (auto simp: visitor_bucket_def apply_per_visitor_rate_limit_def split: option.splits if_splits)

text \<open>A visitor refused by his own limit takes nothing from the limit all visitors share: the
  request fails with his refusal and the site-wide bucket is what it was, whoever asks and whatever
  address he claims, so a client over his own limit cannot exhaust the demo for the others.\<close>
theorem refused_visitor_spares_the_shared_bucket:
  assumes "\<forall>k m. length (hmac k m) = 64"
    and "current st = Some lm" and "settings_match lm s"
    and "visitor_bucket who (client_rate_key parse show_ip hmac req s) = (u, role)"
    and "fst (enforce_rate_limit s a u role st) = Inl e"
  shows "\<exists>st'. apply_per_visitor_rate_limit s who (client_rate_key parse show_ip hmac req s) a b st
      = (Inl e, st') \<and> global_bucket lm st' = global_bucket lm st"
proof -
  have own: "''demo_global'' \<noteq> u"
    using assms(4) client_rate_key_not_global [OF assms(1), of parse show_ip req s, symmetric]
    by (auto simp: visitor_bucket_def is_registered_principal_def split: if_splits)
  obtain st1 where c: "enforce_rate_limit s a u role st = (Inl e, st1)"
    using assms(5) by (cases "enforce_rate_limit s a u role st") auto
  then obtain now up m where "st1 = snd (limiter_check lm now up m u role st)"
    using assms(2,3) by (auto simp: enforce_rate_limit_def get_limiter_def split: if_splits)
      (metis snd_conv)
  then have "global_bucket lm st1 = global_bucket lm st"
    using limiter_check_other_bucket [OF own]
    by (simp add: global_bucket_def del: limiter_check.simps split: limiter.splits)
  with c show ?thesis by (simp add: apply_per_visitor_cases [OF assms(4)])
qed

definition full_process :: limiter_state where
  "full_process = empty_process\<lparr>current := Some (In_process demo_config),
     deques := (\<lambda>u. if u = ''demo_unknown'' then [1, 2] else [])\<rparr>"

theorem refused_visitor_spares_the_shared_bucket_witness:
  "\<exists>st'. apply_per_visitor_rate_limit (demo_limits\<lparr>redis_url := ''''\<rparr>) None
      (client_rate_key (\<lambda>r. None) (\<lambda>i. []) (\<lambda>k m. replicate 64 CHR ''a'') None
        (demo_limits\<lparr>redis_url := ''''\<rparr>))
      outage outage full_process = (Inl (too_many_requests ''demo_user''), st')
    \<and> global_bucket (In_process demo_config) st' =
        global_bucket (In_process demo_config) full_process"
proof (rule refused_visitor_spares_the_shared_bucket [where u = "''demo_unknown''"
      and role = "''demo_user''"])
  show match: "settings_match (In_process demo_config) (demo_limits\<lparr>redis_url := ''''\<rparr>)"
    by (rule built_limiter_matches) (rule demo_build_in_process)
  have "rate_limit_enabled demo_limits" by (simp add: demo_limits_def)
  with match show "fst (enforce_rate_limit (demo_limits\<lparr>redis_url := ''''\<rparr>) outage ''demo_unknown''
      ''demo_user'' full_process) = Inl (too_many_requests ''demo_user'')"
    by (simp add: enforce_rate_limit_def get_limiter_def full_process_def Let_def outage_def
        deque_admit_def window_for_def limit_for_def demo_config_def)
qed (simp_all add: full_process_def visitor_bucket_def client_rate_key_def client_address_def)

text \<open>
  A Redis limiter goes on being used after the server's address or the key prefix is changed in the
  settings: neither is compared.
\<close>

lemma redis_settings_not_compared:
  assumes "build_limiter s = Some (Redis c pfx)" and "url \<noteq> ''''"
  shows "settings_match (Redis c pfx) (s\<lparr>redis_url := url, redis_key_prefix := p\<rparr>)"
  using built_limiter_matches [OF assms(1)] assms(2)
  by (simp add: settings_match_def effective_global_limit_def)

end
