(* ===== verification/Quota.thy ===== *)
theory Quota
  imports Site_Db Access_Policy Rate_Limiter
begin

text \<open>
  \<open>app/access/quota.py\<close> and \<open>app/access/deps.py\<close>: which tier a caller is on, whether a route lets him
  in, how many answered questions he may still ask, and the chat route's and the MCP tool's use of
  them (\<open>api/routes/messages.py\<close>, \<open>api/routes/mcp.py\<close>). The answer itself is a parameter of the
  route models: the JSON object the orchestrator returned.

  The lemmas: the days of the usage page add up to the count the allowance uses, a month's answers
  never count in the next month, a route refuses exactly what the policy table does not grant, and
  no sequence of questions takes an account past its allowance.
\<close>

section \<open>Settings and counted answers\<close>

record access_settings =
  access_model_enabled :: bool
  access_free_trial_answers :: int
  access_pro_monthly_answers :: int

definition is_counted_answer :: "obj \<Rightarrow> bool" where
  "is_counted_answer response \<longleftrightarrow>
     jget response ''no_answer'' = JBool False \<and> jget response ''unsupported'' = JBool False
     \<and> (\<exists>xs. jget response ''citations'' = JArr xs \<and> xs \<noteq> [])"

lemma is_counted_answer_code [code]:
  "is_counted_answer response \<longleftrightarrow>
     jget response ''no_answer'' = JBool False \<and> jget response ''unsupported'' = JBool False
     \<and> (case jget response ''citations'' of JArr xs \<Rightarrow> xs \<noteq> [] | _ \<Rightarrow> False)"
  by (auto simp: is_counted_answer_def split: json.splits)

section \<open>The month\<close>

definition month_start :: "datetime \<Rightarrow> datetime" where
  "month_start now = (case now of ((y, m, d), us) \<Rightarrow> ((y, m, 1), 0))"

definition next_month :: "datetime \<Rightarrow> datetime" where
  "next_month start = (case start of ((y, m, d), us) \<Rightarrow>
     if m = 12 then ((y + 1, 1, 1), 0) else ((y, m + 1, 1), 0))"

section \<open>Usage\<close>

fun tier_value :: "tier \<Rightarrow> string" where
  "tier_value Anonymous = ''anonymous''"
| "tier_value Free = ''free''"
| "tier_value Pro = ''pro''"

datatype usage_kind = Trial | Monthly_kind | None_kind

record usage =
  kind :: usage_kind
  used :: int
  limit :: int
  resets_at :: "datetime option"
  verified :: bool

definition remaining :: "usage \<Rightarrow> int" where
  "remaining u = max 0 (limit u - used u)"

definition counted_rows :: "user_id \<Rightarrow> datetime option \<Rightarrow> answer_usage \<Rightarrow> bool" where
  "counted_rows u since r \<longleftrightarrow> au_user r = u \<and> au_paid_by r = ''platform''
     \<and> (case since of None \<Rightarrow> True | Some t \<Rightarrow> au_at r \<ge> t \<and> au_tier r = tier_value Pro)"

definition count_rows :: "user_id \<Rightarrow> datetime option \<Rightarrow> answer_usage list \<Rightarrow> int" where
  "count_rows u since rs = int (length (filter (counted_rows u since) rs))"

text \<open>The trial answers a deleted account with the same address had used; \<open>sha\<close> is SHA-256.\<close>

definition email_hash :: "(string \<Rightarrow> string) \<Rightarrow> string \<Rightarrow> string" where
  "email_hash sha email = sha (lower (strip email))"

definition carried :: "(string \<Rightarrow> string) \<Rightarrow> site_db \<Rightarrow> user option \<Rightarrow> int" where
  "carried sha db u =
     (case u of None \<Rightarrow> 0
      | Some r \<Rightarrow> (case u_email r of None \<Rightarrow> 0
         | Some e \<Rightarrow> if e = [] then 0
             else (case tget ts_hash (tombstones db) (email_hash sha e) of
                     None \<Rightarrow> 0 | Some t \<Rightarrow> ts_used t)))"

definition usage_for ::
    "(string \<Rightarrow> string) \<Rightarrow> site_db \<Rightarrow> user_id \<Rightarrow> tier \<Rightarrow> access_settings \<Rightarrow> datetime \<Rightarrow> usage" where
  "usage_for sha db u tier s now =
     (let user = get_user db u;
          ver = (case user of None \<Rightarrow> False | Some r \<Rightarrow> u_verified_at r \<noteq> None)
      in case tier_allowance (policy tier) of
           Monthly \<Rightarrow> \<lparr>kind = Monthly_kind, used = count_rows u (Some (month_start now)) (usages db),
             limit = access_pro_monthly_answers s, resets_at = Some (next_month (month_start now)),
             verified = ver\<rparr>
         | Once \<Rightarrow> \<lparr>kind = Trial, used = count_rows u None (usages db) + carried sha db user,
             limit = (if ver then access_free_trial_answers s else 0), resets_at = None,
             verified = ver\<rparr>
         | No_allowance \<Rightarrow> \<lparr>kind = None_kind, used = 0, limit = 0, resets_at = None, verified = ver\<rparr>)"

datatype quota_refusal =
    Verification_needed
  | Month_used (at_reset: "datetime option")
  | Trial_used

fun quota_refusal_code :: "quota_refusal \<Rightarrow> api_error_code" where
  "quota_refusal_code Verification_needed = Verification_required"
| "quota_refusal_code (Month_used r) = Quota_exceeded"
| "quota_refusal_code Trial_used = Plan_required"

definition refuse_if_used_up :: "usage \<Rightarrow> tier \<Rightarrow> quota_refusal + unit" where
  "refuse_if_used_up u tier =
     (if remaining u > 0 then Inr ()
      else if kind u = Trial \<and> \<not> verified u then Inl Verification_needed
      else if tier = Pro then Inl (Month_used (resets_at u))
      else Inl Trial_used)"

section \<open>The usage page\<close>

record day_usage =
  day :: date
  chat :: int
  mcp :: int

text \<open>
  The loop over the days, with the number of days left to try as fuel: the day of the month is
  enough, since the days of one month are successive (\<open>days_from_month\<close>).
\<close>

fun days_from :: "nat \<Rightarrow> date \<Rightarrow> date \<Rightarrow> date list" where
  "days_from 0 d today = []"
| "days_from (Suc n) d today = (if d \<le> today then d # days_from n (next_day d) today else [])"

definition count_day :: "string \<Rightarrow> day_usage \<Rightarrow> day_usage" where
  "count_day channel e = (if channel = ''mcp'' then e\<lparr>mcp := mcp e + 1\<rparr> else e\<lparr>chat := chat e + 1\<rparr>)"

definition add_usage :: "date \<Rightarrow> answer_usage \<Rightarrow> day_usage list \<Rightarrow> day_usage list option" where
  "add_usage today r days =
     (let day_of = min (fst (au_at r)) today
      in if day_of \<in> day ` set days
         then Some (map (\<lambda>e. if day e = day_of then count_day (au_channel r) e else e) days)
         else None)"

fun add_usages :: "date \<Rightarrow> answer_usage list \<Rightarrow> day_usage list \<Rightarrow> day_usage list option" where
  "add_usages today [] days = Some days"
| "add_usages today (r # rs) days =
     (case add_usage today r days of None \<Rightarrow> None | Some days' \<Rightarrow> add_usages today rs days')"

definition daily_usage ::
    "answer_usage list \<Rightarrow> user_id \<Rightarrow> datetime \<Rightarrow> (datetime \<times> day_usage list) option" where
  "daily_usage rs u now =
     (let start = month_start now;
          today = fst now;
          rows = filter (counted_rows u (Some start)) rs;
          days = map (\<lambda>d. \<lparr>day = d, chat = 0, mcp = 0\<rparr>)
                   (days_from (nat (snd (snd today))) (fst start) today)
      in map_option (Pair start) (add_usages today rows days))"

section \<open>Who is asking\<close>

definition tier_for_principal :: "site_db \<Rightarrow> user_id \<Rightarrow> timestamp \<Rightarrow> tier" where
  "tier_for_principal db u now =
     (if \<not> is_registered_principal u then Anonymous
      else if account_is_pro (memberships_for (memberships db) u) now then Pro else Free)"

definition resolve_tier :: "site_db \<Rightarrow> user_id option \<Rightarrow> timestamp \<Rightarrow> tier" where
  "resolve_tier db who now =
     (case who of None \<Rightarrow> Anonymous | Some u \<Rightarrow> tier_for_principal db u now)"

datatype access_refusal = Sign_in_needed capability "tier option" | Plan_needed capability "tier option"

fun access_refusal_code :: "access_refusal \<Rightarrow> api_error_code" where
  "access_refusal_code (Sign_in_needed c t) = Auth_required"
| "access_refusal_code (Plan_needed c t) = Plan_required"

text \<open>\<open>requires(capability)\<close>; \<open>who\<close> is what the cookie resolves to.\<close>

definition check_capability ::
    "access_settings \<Rightarrow> site_db \<Rightarrow> user_id option \<Rightarrow> timestamp \<Rightarrow> capability
      \<Rightarrow> access_refusal + unit" where
  "check_capability s db who now c =
     (if \<not> access_model_enabled s then Inr ()
      else if c \<in> credential_only \<or> has_capability Anonymous c then Inr ()
      else (let tier = resolve_tier db who now
            in if has_capability tier c then Inr ()
               else if tier = Anonymous then Inl (Sign_in_needed c (lowest_tier_with c))
               else Inl (Plan_needed c (lowest_tier_with c))))"

section \<open>A question\<close>

definition usage_row ::
    "(string \<Rightarrow> string option) \<Rightarrow> (json \<Rightarrow> string) \<Rightarrow> user_id \<Rightarrow> tier \<Rightarrow> obj \<Rightarrow> string \<Rightarrow> datetime
      \<Rightarrow> string \<Rightarrow> answer_usage" where
  "usage_row uuid repr u tier response request now channel =
     \<lparr>au_user = u, au_at = now, au_paid_by = ''platform'', au_channel = channel,
      au_tier = tier_value tier,
      au_message = (case jget response ''message_id'' of JNull \<Rightarrow> None | v \<Rightarrow> uuid (py_str repr v)),
      au_request = request\<rparr>"

text \<open>
  The chat route after the session check, with the three readings of the clock. The orchestrator's
  answer is \<open>None\<close> when it raised: nothing is committed then.
\<close>

datatype ask_error =
    Not_signed_in | Quota quota_refusal | Answer_failed | Unknown_session | Bad_style

definition post_message ::
    "(string \<Rightarrow> string) \<Rightarrow> (string \<Rightarrow> string option) \<Rightarrow> (json \<Rightarrow> string) \<Rightarrow> access_settings
      \<Rightarrow> string \<Rightarrow> user_id \<Rightarrow> string \<Rightarrow> string \<Rightarrow> datetime \<Rightarrow> datetime \<Rightarrow> obj option \<Rightarrow> site_db
      \<Rightarrow> (ask_error + obj) \<times> site_db" where
  "post_message sha uuid repr s style u session request t0 t1 answer db =
     (if style \<notin> {''short'', ''step_by_step''} then (Inl Bad_style, db)
      else if \<not> (\<exists>r\<in>set (chat_sessions db). cs_id r = session \<and> cs_user r = u
                   \<and> cs_expires_at r > instant t0) then (Inl Unknown_session, db)
      else if \<not> access_model_enabled s then
        (case answer of None \<Rightarrow> (Inl Answer_failed, db) | Some r \<Rightarrow> (Inr r, db))
      else (let tier = tier_for_principal db u (instant t0)
            in if tier = Anonymous then (Inl Not_signed_in, db)
               else (case refuse_if_used_up (usage_for sha db u tier s t0) tier of
                  Inl e \<Rightarrow> (Inl (Quota e), db)
                | Inr ok \<Rightarrow> (case answer of
                     None \<Rightarrow> (Inl Answer_failed, db)
                   | Some r \<Rightarrow>
                       (Inr r, if is_counted_answer r
                          then db\<lparr>usages := usages db @ [usage_row uuid repr u tier r request t1 ''chat'']\<rparr>
                          else db)))))"

text \<open>
  The MCP tool \<open>ask_docs\<close>, for the owner of the key the call came with: the plan, the allowance, the
  account's hourly limit and the site-wide one, then the answer. The except clause catches HTTP
  errors only, so limits no limiter accepts (\<open>ValueError\<close>) leave it.
\<close>

datatype mcp_refusal = Needs_pro | Month_used_up | Too_fast | Server_error

definition mcp_refused :: "usage \<Rightarrow> mcp_refusal" where
  "mcp_refused u = (if remaining u = 0 then Month_used_up else Too_fast)"

definition ask_docs ::
    "(string \<Rightarrow> string) \<Rightarrow> (string \<Rightarrow> string option) \<Rightarrow> (json \<Rightarrow> string) \<Rightarrow> access_settings
      \<Rightarrow> limiter_settings \<Rightarrow> user_id \<Rightarrow> string \<Rightarrow> datetime \<Rightarrow> datetime \<Rightarrow> ambient \<Rightarrow> ambient
      \<Rightarrow> obj option \<Rightarrow> site_db \<times> limiter_state
      \<Rightarrow> (mcp_refusal + obj) \<times> site_db \<times> limiter_state" where
  "ask_docs sha uuid repr s ls u request t0 t1 a b answer st =
     (case st of (db, lim0) \<Rightarrow>
        let tier = tier_for_principal db u (instant t0);
            usage = usage_for sha db u tier s t0
        in if \<not> has_capability tier Mcp_ask then (Inl Needs_pro, db, lim0)
           else (case refuse_if_used_up usage tier of
              Inl e \<Rightarrow> (Inl (mcp_refused usage), db, lim0)
            | Inr ok \<Rightarrow>
               (case enforce_rate_limit ls a u ''demo_user_registered'' lim0 of
                  (Inl e, lim1) \<Rightarrow>
                    (Inl (if e = Bad_limits then Server_error else mcp_refused usage), db, lim1)
                | (Inr ok, lim1) \<Rightarrow>
                   (case enforce_global_rate_limit ls b lim1 of
                      (Inl e, lim2) \<Rightarrow>
                        (Inl (if e = Bad_limits then Server_error else mcp_refused usage), db, lim2)
                    | (Inr ok, lim2) \<Rightarrow>
                       (case answer of None \<Rightarrow> (Inl Server_error, db, lim2)
                        | Some r \<Rightarrow> (Inr r, if is_counted_answer r
                            then db\<lparr>usages := usages db @ [usage_row uuid repr u tier r request t1 ''mcp'']\<rparr>
                            else db, lim2))))))"

section \<open>The days of a month\<close>

lemma days_in_month_pos: "28 \<le> days_in_month y m"
  by (simp add: days_in_month_def)

lemma days_from_after: "today < d \<Longrightarrow> days_from n d today = []"
  by (cases n) auto

lemma days_from_month:
  assumes "1 \<le> k" and "k \<le> d" and "d \<le> days_in_month y m" and "nat (d - k + 1) \<le> n"
  shows "days_from n (y, m, k) (y, m, d) = map (\<lambda>i. (y, m, i)) [k..d]"
  using assms
proof (induction n arbitrary: k)
  case (Suc n)
  have head: "(y, m, k) \<le> (y, m, d)" using Suc.prems(2) by (simp add: less_eq_prod_def)
  show ?case
  proof (cases "k = d")
    case True
    have "(y, m, d) < next_day (y, m, d)"
      by (auto simp: next_day_def less_prod_def)
    then have "days_from n (next_day (y, m, k)) (y, m, d) = []"
      using True days_from_after by blast
    with True head show ?thesis by simp
  next
    case False
    with Suc.prems have "next_day (y, m, k) = (y, m, k + 1)" by (simp add: next_day_def)
    moreover have "days_from n (y, m, k + 1) (y, m, d) = map (\<lambda>i. (y, m, i)) [k + 1..d]"
      using Suc.prems False by (intro Suc.IH) auto
    ultimately show ?thesis
      using head Suc.prems(2) by (simp add: upto_rec1)
  qed
qed simp

definition total_of :: "day_usage list \<Rightarrow> int" where
  "total_of days = sum_list (map (\<lambda>e. chat e + mcp e) days)"

lemma count_day_simps [simp]:
  "day (count_day c e) = day e"
  "chat (count_day c e) + mcp (count_day c e) = chat e + mcp e + 1"
  by (simp_all add: count_day_def)

lemma total_count_day:
  assumes "distinct (map day days)"
  shows "total_of (map (\<lambda>e. if day e = d then count_day c e else e) days) =
    total_of days + (if d \<in> day ` set days then 1 else 0)"
  using assms by (induction days) (auto simp: total_of_def image_iff)

lemma add_usage_total:
  assumes "distinct (map day days)" and "min (fst (au_at r)) today \<in> day ` set days"
  obtains days' where "add_usage today r days = Some days'" and "map day days' = map day days"
    and "total_of days' = total_of days + 1"
proof
  let ?d = "min (fst (au_at r)) today"
  show "add_usage today r days =
      Some (map (\<lambda>e. if day e = ?d then count_day (au_channel r) e else e) days)"
    using assms(2) by (simp add: add_usage_def Let_def)
qed (use assms total_count_day in \<open>simp_all add: comp_def if_distrib cong: if_cong\<close>)

lemma add_usages_total:
  assumes "distinct (map day days)" and "\<forall>r\<in>set rs. min (fst (au_at r)) today \<in> day ` set days"
  shows "\<exists>days'. add_usages today rs days = Some days' \<and> map day days' = map day days
    \<and> total_of days' = total_of days + int (length rs)"
  using assms
proof (induction rs arbitrary: days)
  case (Cons r rs)
  obtain days' where d: "add_usage today r days = Some days'" "map day days' = map day days"
    "total_of days' = total_of days + 1"
    using Cons.prems add_usage_total [of days r today] by auto
  then have "day ` set days' = day ` set days" by (metis list.set_map)
  with d Cons.prems Cons.IH [of days'] show ?case by auto
qed simp

section \<open>Properties\<close>

text \<open>The usage page adds up: for a real date, the days are those of the month so far, in order,
  none missing, and the answers they show are exactly the answers the Pro allowance counts, even
  where another machine's clock stamped an answer after today.\<close>
theorem daily_usage_adds_up:
  assumes "valid_date (y, m, d)"
  shows "\<exists>days. daily_usage (usages db) u ((y, m, d), us) = Some (((y, m, 1), 0), days)
    \<and> map day days = map (\<lambda>k. (y, m, k)) [1..d]
    \<and> sum_list (map (\<lambda>e. chat e + mcp e) days) = used (usage_for sha db u Pro s ((y, m, d), us))"
proof -
  let ?start = "((y, m, 1), 0)" and ?today = "(y, m, d)"
  let ?rows = "filter (counted_rows u (Some ?start)) (usages db)"
  let ?days = "map (\<lambda>d. \<lparr>day = d, chat = 0, mcp = 0\<rparr>) (days_from (nat d) (y, m, 1) ?today)"
  have d: "1 \<le> d" "d \<le> days_in_month y m" using assms by (auto simp: valid_date_def)
  then have days: "days_from (nat d) (y, m, 1) ?today = map (\<lambda>k. (y, m, k)) [1..d]"
    by (intro days_from_month) auto
  have "distinct (map day ?days)" by (simp add: days comp_def distinct_map inj_on_def)
  moreover have "\<forall>r\<in>set ?rows. min (fst (au_at r)) ?today \<in> day ` set ?days"
  proof
    fix r
    assume "r \<in> set ?rows"
    then have "?start \<le> au_at r" by (simp add: counted_rows_def)
    then have "(y, m, 1) \<le> fst (au_at r)" by (cases "au_at r") (auto simp: less_eq_prod_def less_prod_def)
    with d(1) have "\<exists>k. 1 \<le> k \<and> k \<le> d \<and> min (fst (au_at r)) ?today = (y, m, k)"
      by (cases "fst (au_at r)") (auto simp: min_def less_eq_prod_def less_prod_def)
    then show "min (fst (au_at r)) ?today \<in> day ` set ?days"
      unfolding days by (auto simp: image_iff)
  qed
  ultimately obtain days' where "add_usages ?today ?rows ?days = Some days'"
    "map day days' = map day ?days" "total_of days' = total_of ?days + int (length ?rows)"
    using add_usages_total by blast
  moreover have "total_of ?days = 0" by (simp add: total_of_def comp_def)
  ultimately show ?thesis
    by (simp add: daily_usage_def month_start_def Let_def days usage_for_def count_rows_def
        total_of_def comp_def)
qed

definition demo_usage :: "date \<Rightarrow> string \<Rightarrow> string \<Rightarrow> answer_usage" where
  "demo_usage d channel t = \<lparr>au_user = ''usr_1'', au_at = (d, 7), au_paid_by = ''platform'',
     au_channel = channel, au_tier = t, au_message = None, au_request = ''r''\<rparr>"

definition demo_db :: site_db where
  "demo_db = \<lparr>users = [\<lparr>u_id = ''usr_1'', u_email = Some ''a@b.c'', u_password_hash = None,
       u_verified_at = Some 0, u_created_at = 0\<rparr>],
     usages = [demo_usage (2024, 2, 1) ''chat'' ''pro'', demo_usage (2024, 2, 3) ''mcp'' ''pro'',
       demo_usage (2024, 1, 31) ''chat'' ''pro'', demo_usage (2024, 2, 2) ''chat'' ''free''],
     tombstones = [], chat_sessions = [\<lparr>cs_id = ''s'', cs_user = ''usr_1'', cs_expires_at = 10 ^ 18\<rparr>],
     messages = [], auth_sessions = [], magic_links = [], api_keys = [], identities = [],
     memberships = [], owned_rows = [], audit_log = []\<rparr>"

definition demo_access :: access_settings where
  "demo_access = \<lparr>access_model_enabled = True, access_free_trial_answers = 25,
     access_pro_monthly_answers = 1000\<rparr>"

theorem daily_usage_adds_up_witness:
  "\<exists>days. daily_usage (usages demo_db) ''usr_1'' ((2024, 2, 2), 5) = Some (((2024, 2, 1), 0), days)
    \<and> map day days = map (\<lambda>k. (2024, 2, k)) [1..2]
    \<and> sum_list (map (\<lambda>e. chat e + mcp e) days) =
        used (usage_for id demo_db ''usr_1'' Pro demo_access ((2024, 2, 2), 5))"
  by (rule daily_usage_adds_up) (simp add: valid_date_def days_in_month_def leap_def)

definition valid_datetime :: "datetime \<Rightarrow> bool" where
  "valid_datetime t \<longleftrightarrow> valid_date (fst t) \<and> 0 \<le> snd t \<and> snd t < day_us"

lemma month_start_le: "valid_datetime t \<Longrightarrow> month_start t \<le> t"
  by (cases t) (auto simp: valid_datetime_def valid_date_def month_start_def less_eq_prod_def less_prod_def)

lemma datetime_le:
  "((y, m, d), us) \<le> ((y', m', d'), us') \<longleftrightarrow>
     y < y' \<or> y = y' \<and> (m < m' \<or> m = m' \<and> (d < d' \<or> d = d' \<and> us \<le> us'))"
  for y m d us y' m' d' us' :: int
  by (simp add: less_eq_prod_def less_prod_def) linarith

lemma datetime_less:
  "((y, m, d), us) < ((y', m', d'), us') \<longleftrightarrow>
     y < y' \<or> y = y' \<and> (m < m' \<or> m = m' \<and> (d < d' \<or> d = d' \<and> us < us'))"
  for y m d us y' m' d' us' :: int
  by (simp add: less_prod_def' less_prod_def) linarith

lemma month_start_mono:
  assumes "now \<le> later"
  shows "month_start now \<le> month_start later"
proof -
  obtain y m d us y' m' d' us' where "now = ((y, m, d), us)" "later = ((y', m', d'), us')"
    by (cases now; cases later) auto
  with assms show ?thesis by (auto simp: month_start_def datetime_le)
qed

lemma next_month_after:
  shows "now < next_month (month_start now)"
    and "month_start (next_month (month_start now)) = next_month (month_start now)"
proof -
  obtain y m d us where now: "now = ((y, m, d), us)" by (cases now) auto
  show "now < next_month (month_start now)"
    by (simp add: now month_start_def next_month_def datetime_less)
  show "month_start (next_month (month_start now)) = next_month (month_start now)"
    by (simp add: now month_start_def next_month_def)
qed

text \<open>The monthly allowance starts again at the moment it says: \<open>resets_at\<close> is later than now and
  the first instant of a month, and at any time from then on none of the answers used so far counts.\<close>
theorem allowance_resets:
  assumes "\<forall>r\<in>set (usages db). au_at r \<le> now"
    and "resets_at (usage_for sha db u Pro s now) = Some t" and "t \<le> later"
  shows "now < t \<and> month_start t = t \<and> used (usage_for sha db u Pro s later) = 0"
proof -
  have t: "t = next_month (month_start now)" using assms(2) by (simp add: usage_for_def Let_def)
  then have after: "now < t" and first: "month_start t = t"
    using next_month_after by auto
  have "t \<le> month_start later" using month_start_mono [OF assms(3)] first by simp
  then have "\<forall>r\<in>set (usages db). \<not> counted_rows u (Some (month_start later)) r"
    using after assms(1) by (auto simp: counted_rows_def)
  then have "filter (counted_rows u (Some (month_start later))) (usages db) = []"
    by (simp add: filter_empty_conv)
  with after first show ?thesis by (simp add: usage_for_def Let_def count_rows_def)
qed

theorem allowance_resets_witness:
  "((2024, 12, 31), 5) < (((2025, 1, 1), 0)::datetime) \<and> month_start ((2025, 1, 1), 0) = ((2025, 1, 1), 0) \<and>
     used (usage_for id demo_db ''usr_1'' Pro demo_access ((2025, 1, 2), 0)) = 0"
proof (rule allowance_resets [where now = "((2024, 12, 31), 5)"])
  show "\<forall>r\<in>set (usages demo_db). au_at r \<le> ((2024, 12, 31), 5)" by code_simp
  show "resets_at (usage_for id demo_db ''usr_1'' Pro demo_access ((2024, 12, 31), 5)) =
      Some ((2025, 1, 1), 0)" by (simp add: usage_for_def Let_def month_start_def next_month_def)
  show "((2025, 1, 1), 0) \<le> (((2025, 1, 2), 0)::datetime)" by (simp add: less_eq_prod_def less_prod_def)
qed

text \<open>With the access model on, a route lets a caller in exactly when the policy table grants its
  capability to the tier our own tables put him on (or when the admin key does); a refusal always
  names the lowest tier that would help, which is above his, and is a 401 for exactly the callers
  who are not signed in to an account.\<close>
theorem route_guard_follows_the_policy:
  assumes "access_model_enabled s"
  shows "(case check_capability s db who now c of
      Inr x \<Rightarrow> c = Operate \<or> has_capability (resolve_tier db who now) c
    | Inl e \<Rightarrow> \<not> has_capability (resolve_tier db who now) c
        \<and> (\<exists>t > resolve_tier db who now. lowest_tier_with c = Some t
            \<and> e \<in> {Sign_in_needed c (Some t), Plan_needed c (Some t)})
        \<and> (access_refusal_code e = Auth_required \<longleftrightarrow>
             (\<forall>u. who = Some u \<longrightarrow> \<not> is_registered_principal u)))"
proof -
  let ?t = "resolve_tier db who now"
  have anonymous: "?t = Anonymous \<longleftrightarrow> (\<forall>u. who = Some u \<longrightarrow> \<not> is_registered_principal u)"
    by (auto simp: resolve_tier_def tier_for_principal_def split: option.splits)
  show ?thesis
  proof (cases "c \<in> credential_only \<or> has_capability Anonymous c \<or> has_capability ?t c")
    case True
    have "has_capability Anonymous c \<Longrightarrow> has_capability ?t c"
      by (erule has_capability_mono) (simp add: less_eq_tier_def)
    with True assms show ?thesis by (auto simp: check_capability_def credential_only_def Let_def)
  next
    case False
    then obtain t where t: "lowest_tier_with c = Some t"
      by (cases "lowest_tier_with c") (simp_all add: lowest_tier_with_None_iff)
    then have "has_capability t c" by (simp add: lowest_tier_with_Some_iff)
    then have "?t < t" using False has_capability_mono [of t c ?t] by (meson not_le)
    with False t assms anonymous show ?thesis by (simp add: check_capability_def Let_def)
  qed
qed

theorem route_guard_follows_the_policy_witness:
  "check_capability demo_access demo_db (Some ''usr_1'') 0 Mcp_ask = Inl (Plan_needed Mcp_ask (Some Pro))
    \<and> Free < Pro"
  using route_guard_follows_the_policy [of demo_access demo_db "Some ''usr_1''" 0 Mcp_ask]
  by (auto simp: demo_access_def demo_db_def check_capability_def credential_only_def Let_def
      resolve_tier_def tier_for_principal_def is_registered_principal_def memberships_for_def
      account_is_pro_def policy_sets lowest_tier_with_eq less_tier_def)

section \<open>Runs of questions\<close>

text \<open>A question by chat or by MCP: who asks, when it is checked and recorded, what came back.\<close>

datatype question =
    Ask_chat user_id string string string datetime datetime "obj option"
  | Ask_mcp user_id string datetime datetime ambient ambient "obj option"

fun checked_at :: "question \<Rightarrow> datetime" where
  "checked_at (Ask_chat u session style request t0 t1 answer) = t0"
| "checked_at (Ask_mcp u request t0 t1 a b answer) = t0"

fun recorded_at :: "question \<Rightarrow> datetime" where
  "recorded_at (Ask_chat u session style request t0 t1 answer) = t1"
| "recorded_at (Ask_mcp u request t0 t1 a b answer) = t1"

fun ask_step ::
    "(string \<Rightarrow> string) \<Rightarrow> (string \<Rightarrow> string option) \<Rightarrow> (json \<Rightarrow> string) \<Rightarrow> access_settings
      \<Rightarrow> limiter_settings \<Rightarrow> question \<Rightarrow> site_db \<times> limiter_state \<Rightarrow> site_db \<times> limiter_state" where
  "ask_step sha uuid repr s ls (Ask_chat u session style request t0 t1 answer) (db, lm) =
     (snd (post_message sha uuid repr s style u session request t0 t1 answer db), lm)"
| "ask_step sha uuid repr s ls (Ask_mcp u request t0 t1 a b answer) st =
     snd (ask_docs sha uuid repr s ls u request t0 t1 a b answer st)"

definition ask_all ::
    "(string \<Rightarrow> string) \<Rightarrow> (string \<Rightarrow> string option) \<Rightarrow> (json \<Rightarrow> string) \<Rightarrow> access_settings
      \<Rightarrow> limiter_settings \<Rightarrow> question list \<Rightarrow> site_db \<times> limiter_state \<Rightarrow> site_db \<times> limiter_state" where
  "ask_all sha uuid repr s ls qs st = fold (ask_step sha uuid repr s ls) qs st"

text \<open>A question records at most one answer, and only one its asker still had.\<close>

definition records ::
    "(string \<Rightarrow> string) \<Rightarrow> access_settings \<Rightarrow> datetime \<Rightarrow> datetime \<Rightarrow> site_db \<Rightarrow> site_db \<Rightarrow> bool" where
  "records sha s t0 t1 db db' \<longleftrightarrow> db' = db \<or>
     (\<exists>row tier. db' = db\<lparr>usages := usages db @ [row]\<rparr> \<and> au_paid_by row = ''platform''
        \<and> au_at row = t1 \<and> au_tier row = tier_value tier \<and> tier \<noteq> Anonymous
        \<and> refuse_if_used_up (usage_for sha db (au_user row) tier s t0) tier = Inr ())"

lemma usage_row_simps [simp]:
  "au_user (usage_row uuid repr u tier r request t channel) = u"
  "au_paid_by (usage_row uuid repr u tier r request t channel) = ''platform''"
  "au_at (usage_row uuid repr u tier r request t channel) = t"
  "au_tier (usage_row uuid repr u tier r request t channel) = tier_value tier"
  by (simp_all add: usage_row_def)

lemma records_row:
  assumes "tier \<noteq> Anonymous"
    and "refuse_if_used_up (usage_for sha db u tier s t0) tier = Inr ok"
  shows "records sha s t0 t1 db (db\<lparr>usages := usages db @ [usage_row uuid repr u tier r request t1 c]\<rparr>)"
  using assms by (auto simp: records_def intro!: exI [of _ "usage_row uuid repr u tier r request t1 c"])

lemma records_refl [simp]: "records sha s t0 t1 db db"
  by (simp add: records_def)

lemma post_message_records:
  assumes "access_model_enabled s"
  shows "records sha s t0 t1 db (snd (post_message sha uuid repr s style u session request t0 t1 answer db))"
  using assms
  by (auto simp: post_message_def Let_def records_row split: sum.splits option.splits)

lemma ask_docs_records:
  "records sha s t0 t1 (fst st) (fst (snd (ask_docs sha uuid repr s ls u request t0 t1 a b answer st)))"
proof -
  have "has_capability tier Mcp_ask \<Longrightarrow> tier \<noteq> Anonymous" for tier
    by (auto simp: policy_sets)
  then show ?thesis
    by (cases st) (auto simp: ask_docs_def Let_def records_row split: sum.splits option.splits prod.splits)
qed

lemma ask_step_records:
  assumes "access_model_enabled s"
  shows "records sha s (checked_at q) (recorded_at q) (fst st) (fst (ask_step sha uuid repr s ls q st))"
  using assms post_message_records ask_docs_records by (cases q; cases st) auto

lemma records_frame: "records sha s t0 t1 db db' \<Longrightarrow> tombstones db' = tombstones db"
  by (auto simp: records_def)

lemma refuse_ok_iff: "refuse_if_used_up u tier = Inr () \<longleftrightarrow> used u < limit u"
  by (auto simp: refuse_if_used_up_def remaining_def)

text \<open>The answers an account has had on the free tier, and on Pro in one month.\<close>

definition free_answers :: "user_id \<Rightarrow> site_db \<Rightarrow> int" where
  "free_answers u db =
     int (length (filter (\<lambda>r. au_user r = u \<and> au_paid_by r = ''platform'' \<and> au_tier r = tier_value Free) (usages db)))"

definition pro_answers :: "user_id \<Rightarrow> datetime \<Rightarrow> site_db \<Rightarrow> int" where
  "pro_answers u month db =
     int (length (filter (\<lambda>r. au_user r = u \<and> au_paid_by r = ''platform'' \<and> au_tier r = tier_value Pro
        \<and> month_start (au_at r) = month) (usages db)))"

lemma tier_value_inject [simp]: "tier_value s = tier_value t \<longleftrightarrow> s = t"
  by (cases s; cases t) simp_all

lemma length_filter_mono_on:
  "(\<And>x. x \<in> set xs \<Longrightarrow> P x \<Longrightarrow> Q x) \<Longrightarrow> length (filter P xs) \<le> length (filter Q xs)"
  by (induction xs) auto

lemma carried_nonneg: "\<forall>t\<in>set (tombstones db). 0 \<le> ts_used t \<Longrightarrow> 0 \<le> carried sha db u"
  by (auto simp: carried_def dest: tget_Some split: option.splits)

lemma free_step:
  assumes "records sha s t0 t1 db db'" and "\<forall>t\<in>set (tombstones db). 0 \<le> ts_used t"
  shows "free_answers u db' \<le> max (free_answers u db) (access_free_trial_answers s)"
proof -
  from assms(1) consider "db' = db"
    | row tier where "db' = db\<lparr>usages := usages db @ [row]\<rparr>" "au_tier row = tier_value tier"
      "refuse_if_used_up (usage_for sha db (au_user row) tier s t0) tier = Inr ()"
    by (auto simp: records_def)
  then show ?thesis
  proof cases
    case 2
    show ?thesis
    proof (cases "tier = Free \<and> au_user row = u")
      case True
      with 2 have "used (usage_for sha db u Free s t0) < limit (usage_for sha db u Free s t0)"
        by (simp add: refuse_ok_iff)
      then have "count_rows u None (usages db) + carried sha db (get_user db u) <
          access_free_trial_answers s"
        using carried_nonneg [OF assms(2), of sha "get_user db u"]
        by (auto simp: usage_for_def Let_def count_rows_def split: if_splits)
      moreover have "free_answers u db \<le> count_rows u None (usages db)"
        unfolding free_answers_def count_rows_def
        by (auto simp: counted_rows_def intro!: length_filter_mono_on)
      moreover have "free_answers u db' \<le> free_answers u db + 1"
        by (simp add: 2 free_answers_def)
      ultimately show ?thesis using carried_nonneg [OF assms(2), of sha "get_user db u"] by linarith
    next
      case False
      with 2 have "free_answers u db' = free_answers u db" by (cases tier) (auto simp: free_answers_def)
      then show ?thesis by simp
    qed
  qed simp
qed

lemma pro_step:
  assumes "records sha s t0 t1 db db'" and "month_start t0 = month_start t1"
    and "\<forall>r\<in>set (usages db). valid_datetime (au_at r)"
  shows "pro_answers u month db' \<le> max (pro_answers u month db) (access_pro_monthly_answers s)"
proof -
  from assms(1) consider "db' = db"
    | row tier where "db' = db\<lparr>usages := usages db @ [row]\<rparr>" "au_tier row = tier_value tier"
      "au_at row = t1"
      "refuse_if_used_up (usage_for sha db (au_user row) tier s t0) tier = Inr ()"
    by (auto simp: records_def)
  then show ?thesis
  proof cases
    case 2
    show ?thesis
    proof (cases "tier = Pro \<and> au_user row = u \<and> month_start t1 = month")
      case True
      with 2 have "count_rows u (Some (month_start t0)) (usages db) < access_pro_monthly_answers s"
        by (simp add: refuse_ok_iff usage_for_def Let_def)
      moreover have "pro_answers u month db \<le> count_rows u (Some (month_start t0)) (usages db)"
        unfolding pro_answers_def count_rows_def of_nat_le_iff
      proof (rule length_filter_mono_on)
        fix r
        assume "r \<in> set (usages db)" and r: "au_user r = u \<and> au_paid_by r = ''platform''
            \<and> au_tier r = tier_value Pro \<and> month_start (au_at r) = month"
        then have "month_start (au_at r) \<le> au_at r" using assms(3) month_start_le by blast
        with r True assms(2) show "counted_rows u (Some (month_start t0)) r"
          by (simp add: counted_rows_def)
      qed
      moreover have "pro_answers u month db' \<le> pro_answers u month db + 1"
        by (simp add: 2 pro_answers_def)
      ultimately show ?thesis by linarith
    next
      case False
      with 2 have "pro_answers u month db' = pro_answers u month db"
        by (cases tier) (auto simp: pro_answers_def)
      then show ?thesis by simp
    qed
  qed simp
qed

lemma records_nonneg:
  "records sha s t0 t1 db db' \<Longrightarrow> \<forall>t\<in>set (tombstones db). 0 \<le> ts_used t \<Longrightarrow>
     \<forall>t\<in>set (tombstones db'). 0 \<le> ts_used t"
  by (auto simp: records_def)

lemma records_valid:
  "records sha s t0 t1 db db' \<Longrightarrow> valid_datetime t1 \<Longrightarrow> \<forall>r\<in>set (usages db). valid_datetime (au_at r) \<Longrightarrow>
     \<forall>r\<in>set (usages db'). valid_datetime (au_at r)"
  by (auto simp: records_def)

text \<open>C8: However an account's questions come, by chat or MCP, one after another, in whatever
  membership states, the answers it has had on the free tier never exceed the trial (or what it had
  already had), and neither do its Pro answers of any one month exceed the monthly allowance as
  long as no question is asked in one month and answered in the next.\<close>
theorem allowance_never_exceeded:
  assumes "access_model_enabled s" and "\<forall>t\<in>set (tombstones db). 0 \<le> ts_used t"
    and "\<forall>r\<in>set (usages db). valid_datetime (au_at r)"
    and "\<forall>q\<in>set qs. valid_datetime (recorded_at q) \<and> month_start (checked_at q) = month_start (recorded_at q)"
  shows "free_answers u (fst (ask_all sha uuid repr s ls qs (db, lm))) \<le>
      max (free_answers u db) (access_free_trial_answers s)
    \<and> pro_answers u month (fst (ask_all sha uuid repr s ls qs (db, lm))) \<le>
      max (pro_answers u month db) (access_pro_monthly_answers s)"
  using assms(2-4)
proof (induction qs arbitrary: db lm)
  case (Cons q qs)
  obtain db1 lm1 where step: "ask_step sha uuid repr s ls q (db, lm) = (db1, lm1)" by fastforce
  then have rec: "records sha s (checked_at q) (recorded_at q) db db1"
    using ask_step_records [OF assms(1)] by (metis fst_conv)
  have q: "valid_datetime (recorded_at q)" "month_start (checked_at q) = month_start (recorded_at q)"
    using Cons.prems(3) by auto
  note now = free_step [OF rec Cons.prems(1), of u] pro_step [OF rec q(2) Cons.prems(2), of u month]
  have "ask_all sha uuid repr s ls (q # qs) (db, lm) = ask_all sha uuid repr s ls qs (db1, lm1)"
    by (simp add: ask_all_def step)
  with now Cons.IH [OF records_nonneg [OF rec Cons.prems(1)] records_valid [OF rec q(1) Cons.prems(2)], of lm1]
    Cons.prems(3) show ?case by auto
qed (simp add: ask_all_def)

definition cited_answer :: obj where
  "cited_answer = [(''no_answer'', JBool False), (''unsupported'', JBool False),
     (''citations'', JArr [JInt 1])]"

definition demo_questions :: "question list" where
  "demo_questions = replicate 2
     (Ask_chat ''usr_1'' ''s'' ''short'' ''r'' ((2024, 2, 5), 0) ((2024, 2, 5), 1) (Some cited_answer))"

theorem allowance_never_exceeded_witness:
  "free_answers ''usr_1'' (fst (ask_all id (\<lambda>x. None) (\<lambda>x. []) (demo_access\<lparr>access_free_trial_answers := 5\<rparr>)
      demo_limits demo_questions (demo_db, empty_process))) \<le> 5"
proof -
  have "free_answers ''usr_1'' demo_db = 1" by code_simp
  moreover have "\<forall>r\<in>set (usages demo_db). valid_datetime (au_at r)" by code_simp
  moreover have "\<forall>q\<in>set demo_questions. valid_datetime (recorded_at q)
      \<and> month_start (checked_at q) = month_start (recorded_at q)" by code_simp
  ultimately show ?thesis
    using allowance_never_exceeded [of "demo_access\<lparr>access_free_trial_answers := 5\<rparr>" demo_db
        demo_questions "''usr_1''" id "\<lambda>x. None" "\<lambda>x. []" demo_limits empty_process]
    by (simp add: demo_access_def demo_db_def)
qed

end
