(* ===== verification/Account_Deletion.thy ===== *)
theory Account_Deletion
  imports Quota
begin

text \<open>
  \<open>app/services/account_deletion.py\<close> and \<open>app/core/deletion_list.py\<close>: deleting an account in one
  transaction with its tombstone and its entry on the list kept outside the database, undoing the
  entry of a deletion that failed, and deleting again what a restored backup brought back.

  The outside world is explicit: a Redis write is answered (\<open>Done\<close>), is lost on the way there
  (\<open>Not_reached\<close>) or on the way back (\<open>Reply_lost\<close>), and so is the commit. SHA-256 is the parameter
  \<open>sha\<close>. A list entry's score is the instant it denotes.
\<close>

section \<open>The list outside the database\<close>

type_synonym deletion_list = "(user_id \<times> timestamp) list"

datatype wire = Done | Not_reached | Reply_lost

definition keep :: int where
  "keep = 60 * day_us"

definition dl_record :: "user_id \<Rightarrow> timestamp \<Rightarrow> deletion_list \<Rightarrow> deletion_list" where
  "dl_record u t l = tput fst (u, t) l"

definition dl_forget :: "user_id \<Rightarrow> deletion_list \<Rightarrow> deletion_list" where
  "dl_forget u l = tdel (\<lambda>e. fst e = u) l"

definition dl_contains :: "deletion_list \<Rightarrow> user_id \<Rightarrow> bool" where
  "dl_contains l u \<longleftrightarrow> tget fst l u \<noteq> None"

definition dl_entries :: "timestamp \<Rightarrow> deletion_list \<Rightarrow> deletion_list" where
  "dl_entries now l = tdel (\<lambda>e. snd e \<le> now - keep) l"

text \<open>A write as the caller sees it: whether it raised, and what the list is.\<close>

definition dl_call ::
    "wire \<Rightarrow> (deletion_list \<Rightarrow> deletion_list) \<Rightarrow> deletion_list \<Rightarrow> bool \<times> deletion_list" where
  "dl_call w f l = (case w of Done \<Rightarrow> (True, f l) | Not_reached \<Rightarrow> (False, l) | Reply_lost \<Rightarrow> (False, f l))"

text \<open>\<open>is_listed\<close>: \<open>readable\<close> says whether Redis answers; no answer is a 503 (\<open>None\<close>).\<close>

definition is_listed :: "bool \<Rightarrow> bool \<Rightarrow> deletion_list \<Rightarrow> user_id \<Rightarrow> bool option" where
  "is_listed configured readable l u =
     (if \<not> is_registered_principal u then Some False
      else if \<not> configured then Some False
      else if readable then Some (dl_contains l u) else None)"

section \<open>The plan\<close>

datatype deletion_error =
    Value_error
  | Account_not_found
  | Ambiguous_address nat
  | Subscription_still_live "string list"
  | List_unavailable
  | Commit_failed

record deletion_plan =
  p_user :: user_id
  p_has_address :: bool
  p_used :: int
  p_carried :: int
  p_rows :: "(string \<times> int) list"
  p_kept :: "(string \<times> int) list"
  p_messages :: int
  p_live :: "string list"

record deletion_report =
  r_user :: user_id
  r_used :: int
  r_carried :: int
  r_total :: "int option"

text \<open>The tables with a foreign key onto \<open>users\<close>, by name, and whether it is \<open>SET NULL\<close>.\<close>

definition user_references :: "(string \<times> bool) list" where
  "user_references = [(''alert_sends'', False), (''answer_feedback'', False), (''answer_usage'', False),
     (''api_keys'', False), (''audit_events'', True), (''auth_sessions'', False),
     (''digest_sends'', False), (''magic_link_tokens'', False), (''memberships'', False),
     (''sessions'', False), (''shared_answers'', False), (''source_requests'', False),
     (''user_identities'', False), (''watches'', False)]"

definition owned_by :: "('r \<Rightarrow> 'k) \<Rightarrow> 'k \<Rightarrow> 'r list \<Rightarrow> int" where
  "owned_by f u rs = int (length (filter (\<lambda>r. f r = u) rs))"

definition count_references :: "site_db \<Rightarrow> user_id \<Rightarrow> string \<Rightarrow> int" where
  "count_references db u name =
     (if name = ''answer_usage'' then owned_by au_user u (usages db)
      else if name = ''api_keys'' then owned_by ak_user u (api_keys db)
      else if name = ''audit_events'' then owned_by ae_user (Some u) (audit_log db)
      else if name = ''auth_sessions'' then owned_by as_user u (auth_sessions db)
      else if name = ''magic_link_tokens'' then owned_by ml_user u (magic_links db)
      else if name = ''memberships'' then owned_by m_account u (memberships db)
      else if name = ''sessions'' then owned_by cs_user u (chat_sessions db)
      else if name = ''user_identities'' then owned_by id_user u (identities db)
      else owned_by id (name, u) (owned_rows db))"

text \<open>\<open>func.trim\<close> of SQL takes blanks off both ends, blanks only.\<close>

definition sql_trim :: "string \<Rightarrow> string" where
  "sql_trim s = rev (dropWhile (\<lambda>c. c = CHR '' '') (rev (dropWhile (\<lambda>c. c = CHR '' '') s)))"

definition find_account ::
    "site_db \<Rightarrow> string option \<Rightarrow> user_id option \<Rightarrow> deletion_error + user" where
  "find_account db email uid =
     (if (email = None) = (uid = None) then Inl Value_error
      else if uid \<noteq> None \<and> \<not> is_registered_principal (the uid) then Inl Account_not_found
      else (case (case uid of
               Some u \<Rightarrow> filter (\<lambda>r. u_id r = u) (users db)
             | None \<Rightarrow> filter (\<lambda>r. map_option (lower \<circ> sql_trim) (u_email r) =
                 Some (lower (strip (the email)))) (users db)) of
         [] \<Rightarrow> Inl Account_not_found
       | [r] \<Rightarrow> Inr r
       | rs \<Rightarrow> Inl (Ambiguous_address (length rs))))"

definition has_address :: "user \<Rightarrow> bool" where
  "has_address r = (case u_email r of None \<Rightarrow> False | Some e \<Rightarrow> e \<noteq> [])"

definition plan :: "(string \<Rightarrow> string) \<Rightarrow> site_db \<Rightarrow> user \<Rightarrow> deletion_plan" where
  "plan sha db r = \<lparr>
     p_user = u_id r,
     p_has_address = has_address r,
     p_used = count_rows (u_id r) None (usages db),
     p_carried = carried sha db (Some r),
     p_rows = map (\<lambda>t. (fst t, count_references db (u_id r) (fst t))) (filter (\<lambda>t. \<not> snd t) user_references),
     p_kept = map (\<lambda>t. (fst t, count_references db (u_id r) (fst t))) (filter snd user_references),
     p_messages = int (length (filter (\<lambda>m. \<exists>s\<in>set (chat_sessions db).
        cs_id s = cm_session m \<and> cs_user s = u_id r) (messages db))),
     p_live = sort (filter (\<lambda>st. st \<notin> set ended_statuses)
        (map m_status (filter (\<lambda>m. m_account m = u_id r) (memberships db))))\<rparr>"

definition plan_deletion ::
    "(string \<Rightarrow> string) \<Rightarrow> site_db \<Rightarrow> string option \<Rightarrow> user_id option \<Rightarrow> deletion_error + deletion_plan" where
  "plan_deletion sha db email uid = and_then (find_account db email uid) (\<lambda>r. Inr (plan sha db r))"

section \<open>Deleting\<close>

definition add_tombstone :: "string \<Rightarrow> int \<Rightarrow> timestamp \<Rightarrow> tombstone list \<Rightarrow> tombstone list" where
  "add_tombstone h n t ts =
     (let old = (case tget ts_hash ts h of None \<Rightarrow> 0 | Some s \<Rightarrow> ts_used s)
      in tput ts_hash \<lparr>ts_hash = h, ts_used = old + n, ts_deleted_at = t\<rparr> ts)"

definition remove_account ::
    "(string \<Rightarrow> string) \<Rightarrow> site_db \<Rightarrow> user \<Rightarrow> deletion_plan \<Rightarrow> timestamp \<Rightarrow> int option \<times> site_db" where
  "remove_account sha db r p t =
     (if has_address r
      then (let h = email_hash sha (the (u_email r));
                ts = add_tombstone h (p_used p) t (tombstones db)
            in (map_option ts_used (tget ts_hash ts h), delete_user (u_id r) (db\<lparr>tombstones := ts\<rparr>)))
      else (None, delete_user (u_id r) db))"

text \<open>
  What the outside answers during one deletion: the write to the list, the commit, whether the
  account can be looked up afterwards, the write that takes the entry back.
\<close>

record deletion_world =
  list_configured :: bool
  record_call :: wire
  commit_call :: wire
  probe_answers :: bool
  forget_call :: wire

definition unlist_if_still_there ::
    "deletion_world \<Rightarrow> site_db \<Rightarrow> user_id \<Rightarrow> deletion_list \<Rightarrow> deletion_list" where
  "unlist_if_still_there w db u l =
     (if probe_answers w \<and> get_user db u \<noteq> None then snd (dl_call (forget_call w) (dl_forget u) l) else l)"

definition delete_account ::
    "(string \<Rightarrow> string) \<Rightarrow> deletion_world \<Rightarrow> string option \<Rightarrow> user_id option \<Rightarrow> timestamp
      \<Rightarrow> site_db \<times> deletion_list \<Rightarrow> (deletion_error + deletion_report) \<times> site_db \<times> deletion_list" where
  "delete_account sha w email uid now st =
     (case st of (db, l) \<Rightarrow>
       (case find_account db email uid of
          Inl e \<Rightarrow> (Inl e, db, l)
        | Inr r \<Rightarrow>
           (let p = plan sha db r; u = u_id r
            in if p_live p \<noteq> [] then (Inl (Subscription_still_live (p_live p)), db, l)
               else (let (total, db') = remove_account sha db r p now;
                         (recorded, l') = (if list_configured w
                            then dl_call (record_call w) (dl_record u now) l else (True, l));
                         undo = (\<lambda>d. if list_configured w then unlist_if_still_there w d u l' else l')
                     in if \<not> recorded then (Inl List_unavailable, db, undo db)
                        else (case commit_call w of
                            Done \<Rightarrow> (Inr \<lparr>r_user = u, r_used = p_used p, r_carried = p_carried p,
                                       r_total = total\<rparr>, db', l')
                          | Not_reached \<Rightarrow> (Inl Commit_failed, db, undo db)
                          | Reply_lost \<Rightarrow> (Inl Commit_failed, db', undo db'))))))"

section \<open>Deleting again after a restore\<close>

text \<open>
  One account in its own transaction; \<open>fails\<close> says for which accounts the transaction fails. The
  counters are the accounts deleted again and the failures.
\<close>

definition reapply_one ::
    "(string \<Rightarrow> string) \<Rightarrow> (user_id \<Rightarrow> bool) \<Rightarrow> deletion_list \<Rightarrow> user_id \<Rightarrow> site_db \<times> nat \<times> nat
      \<Rightarrow> site_db \<times> nat \<times> nat" where
  "reapply_one sha fails entries u st =
     (case st of (db, again, failed) \<Rightarrow>
       (case find_account db None (Some u) of
          Inl Account_not_found \<Rightarrow> (db, again, failed)
        | Inl e \<Rightarrow> (db, again, failed + 1)
        | Inr r \<Rightarrow>
            if fails u then (db, again, failed + 1)
            else (snd (remove_account sha db r (plan sha db r) (the (map_of entries u))), again + 1, failed)))"

record reapply_report =
  rr_listed :: nat
  rr_again :: nat
  rr_missing_entries :: bool

definition reapply_deletions ::
    "(string \<Rightarrow> string) \<Rightarrow> (user_id \<Rightarrow> bool) \<Rightarrow> bool \<Rightarrow> timestamp \<Rightarrow> site_db \<times> deletion_list
      \<Rightarrow> (deletion_error + reapply_report) \<times> site_db \<times> deletion_list" where
  "reapply_deletions sha fails readable now st =
     (case st of (db, l) \<Rightarrow>
        if \<not> readable then (Inl List_unavailable, db, l)
        else (let l' = dl_entries now l;
                  present = sort (filter (\<lambda>u. u \<in> fst ` set l') (map u_id (users db)));
                  recent = length (filter (\<lambda>t. ts_deleted_at t > now - keep) (tombstones db));
                  (db', again, failed) = fold (reapply_one sha fails l') present (db, 0, 0)
              in (if failed > 0 then Inl Commit_failed
                  else Inr \<lparr>rr_listed = length l', rr_again = again,
                         rr_missing_entries = (recent > length l')\<rparr>, db', l')))"

definition reapply_every_seconds :: int where
  "reapply_every_seconds = 3600"

definition reapply_retry_seconds :: int where
  "reapply_retry_seconds = 60"

text \<open>The wait before the next run of \<open>keep_reapplying\<close>.\<close>

definition next_delay :: "deletion_error + reapply_report \<Rightarrow> int" where
  "next_delay r = (case r of Inl e \<Rightarrow> reapply_retry_seconds | Inr x \<Rightarrow> reapply_every_seconds)"

section \<open>The two stores\<close>

interpretation dl: keyed_store fst "\<lambda>l u. tget fst l u" "\<lambda>e l. tput fst e l" "unique fst"
  by unfold_locales (auto simp: tget_tput dest: tget_Some)

lemma dl_contains_simps [simp]:
  "dl_contains (dl_record u t l) v \<longleftrightarrow> v = u \<or> dl_contains l v"
  "dl_contains (dl_forget u l) v \<longleftrightarrow> v \<noteq> u \<and> dl_contains l v"
  by (auto simp: dl_contains_def dl_record_def dl_forget_def dl.get_put tget_tdel_key)

interpretation stones: keyed_store ts_hash "\<lambda>ts h. tget ts_hash ts h" "\<lambda>t ts. tput ts_hash t ts" "unique ts_hash"
  by unfold_locales (auto simp: tget_tput dest: tget_Some)

lemma add_tombstone_get:
  "tget ts_hash (add_tombstone h n t ts) h' =
     (if h' = h then Some \<lparr>ts_hash = h,
        ts_used = (case tget ts_hash ts h of None \<Rightarrow> 0 | Some s \<Rightarrow> ts_used s) + n, ts_deleted_at = t\<rparr>
      else tget ts_hash ts h')"
  by (simp add: add_tombstone_def Let_def stones.get_put)

section \<open>What a removal does\<close>

lemma tombstones_delete_user [simp]: "tombstones (delete_user u db) = tombstones db"
  by (simp add: delete_user_def)

lemma remove_account_users:
  "users (snd (remove_account sha db r p t)) = tdel (\<lambda>x. u_id x = u_id r) (users db)"
  by (simp add: remove_account_def delete_user_def Let_def)

lemma remove_account_no_trace: "no_trace (u_id r) (snd (remove_account sha db r p t))"
  by (simp add: remove_account_def Let_def)

lemma no_trace_remove_other: "no_trace v db \<Longrightarrow> no_trace v (snd (remove_account sha db r p t))"
  by (auto simp: remove_account_def delete_user_def no_trace_def tdel_def Let_def split: if_splits)

lemma rows_kept_remove: "v \<noteq> u_id r \<Longrightarrow> rows_kept v db (snd (remove_account sha db r p t))"
proof -
  assume other: "v \<noteq> u_id r"
  have "rows_kept v db (delete_user (u_id r) (db\<lparr>tombstones := ts\<rparr>))" for ts
    using rows_kept_delete_user [of "u_id r" v "db\<lparr>tombstones := ts\<rparr>"] other
    by (simp add: rows_kept_def)
  then show ?thesis
    using rows_kept_delete_user [of "u_id r" v db] other by (simp add: remove_account_def Let_def)
qed

lemma rows_kept_refl [simp]: "rows_kept v db db"
  by (simp add: rows_kept_def)

lemma rows_kept_trans: "rows_kept v a b \<Longrightarrow> rows_kept v b c \<Longrightarrow> rows_kept v a c"
  by (simp add: rows_kept_def)

lemma find_account_Inr:
  assumes "find_account db email uid = Inr r"
  shows "r \<in> set (users db)" and "uid = Some u \<Longrightarrow> u_id r = u \<and> is_registered_principal u"
proof -
  let ?rs = "case uid of Some u \<Rightarrow> filter (\<lambda>r. u_id r = u) (users db)
    | None \<Rightarrow> filter (\<lambda>r. map_option (lower \<circ> sql_trim) (u_email r) =
        Some (lower (strip (the email)))) (users db)"
  have rs: "?rs = [r]"
    using assms by (auto simp: find_account_def Let_def split: if_splits list.splits)
  then have "r \<in> set ?rs" by simp
  then show "r \<in> set (users db)" by (auto split: option.splits)
  show "u_id r = u \<and> is_registered_principal u" if "uid = Some u"
    using assms rs that by (auto simp: find_account_def filter_eq_Cons_iff split: if_splits)
qed

text \<open>The ways a deletion ends.\<close>

lemma delete_account_Inr:
  assumes "delete_account sha w email uid now (db, l) = (Inr rep, db', l')"
  obtains r where "find_account db email uid = Inr r" and "r_user rep = u_id r"
    and "p_live (plan sha db r) = []"
    and "remove_account sha db r (plan sha db r) now = (r_total rep, db')"
    and "r_used rep = count_rows (u_id r) None (usages db)" and "r_carried rep = carried sha db (Some r)"
    and "list_configured w \<Longrightarrow> l' = dl_record (u_id r) now l"
  using assms
  by (auto simp: delete_account_def Let_def dl_call_def plan_def split: sum.splits prod.splits if_splits wire.splits)

lemma delete_account_Inl:
  assumes "delete_account sha w email uid now (db, l) = (Inl e, db', l')"
  shows "db' = db \<or> commit_call w = Reply_lost \<and> (\<exists>r. find_account db email uid = Inr r
    \<and> p_live (plan sha db r) = [] \<and> db' = snd (remove_account sha db r (plan sha db r) now))"
  using assms
  by (auto simp: delete_account_def Let_def split: sum.splits prod.splits if_splits wire.splits)

lemma live_none_iff:
  "p_live (plan sha db r) = [] \<longleftrightarrow>
     (\<forall>m\<in>set (memberships db). m_account m = u_id r \<longrightarrow> m_status m \<in> set ended_statuses)"
proof -
  have "p_live (plan sha db r) = [] \<longleftrightarrow> set (p_live (plan sha db r)) = {}" by simp
  then show ?thesis unfolding plan_def by auto
qed

section \<open>Properties\<close>


text \<open>The account deletion that failed is not left on the list, if the undo got through.\<close>

lemma failed_deletion_not_listed:
  assumes "delete_account sha w email uid now (db, l) = (Inl e, db, l')"
    and "probe_answers w" and "forget_call w \<noteq> Not_reached" and "commit_call w \<noteq> Reply_lost"
    and "find_account db email uid = Inr r" and "\<not> dl_contains l (u_id r)"
    and "get_user db (u_id r) \<noteq> None"
  shows "\<not> dl_contains l' (u_id r)"
  using assms
  by (auto simp: delete_account_def Let_def unlist_if_still_there_def dl_call_def
      split: prod.splits if_splits wire.splits)

text \<open>Deleting an account cannot restart the free trial: whoever signs up again with the same
  address, in any spelling, starts with exactly the trial answers used before the deletion, earlier
  deletions included.\<close>
theorem deletion_keeps_the_trial_count:
  assumes "delete_account sha w email uid now (db, l) = (Inr rep, db', l')"
    and "get_user db (r_user rep) = Some old" and "u_email old = Some e" and "e \<noteq> []"
    and "unique u_id (users db)"
    and "u_email new = Some e'" and "e' \<noteq> []" and "lower (strip e') = lower (strip e)"
    and "u_id new \<notin> u_id ` set (users db')" and "u_id new \<notin> au_user ` set (usages db')"
  shows "used (usage_for sha (db'\<lparr>users := users db' @ [new]\<rparr>) (u_id new) Free s t) =
    used (usage_for sha db (r_user rep) Free s t0)"
proof -
  obtain r where r: "find_account db email uid = Inr r" "r_user rep = u_id r"
    "remove_account sha db r (plan sha db r) now = (r_total rep, db')"
    using assms(1) by (rule delete_account_Inr) blast
  have "r \<in> set (users db)" using find_account_Inr(1) [OF r(1)] .
  with assms(5) r(2) get_user_Some [OF assms(2)] have old: "old = r"
    unfolding unique_def by (metis distinct_map_filter_unique)
  let ?h = "email_hash sha e" and ?db = "db'\<lparr>users := users db' @ [new]\<rparr>"
  have addr: "has_address r" using assms(3,4) old by (simp add: has_address_def)
  have stones: "tombstones db' = add_tombstone ?h (count_rows (u_id r) None (usages db)) now (tombstones db)"
    using r(3) addr assms(3) old by (auto simp: remove_account_def Let_def plan_def)
  have "get_user ?db (u_id new) = Some new"
    using assms(9) tget_None_iff [of u_id "users db'" "u_id new"] by (simp add: get_user_def tget_append)
  moreover have "filter (counted_rows (u_id new) None) (usages db') = []"
    using assms(10) by (force simp: counted_rows_def filter_empty_conv)
  ultimately have "used (usage_for sha ?db (u_id new) Free s t) = carried sha ?db (Some new)"
    by (simp add: usage_for_def Let_def count_rows_def)
  also have "\<dots> = carried sha db (Some r) + count_rows (u_id r) None (usages db)"
    using assms(3,4,6-8) old
    by (auto simp: carried_def stones add_tombstone_get email_hash_def)
  also have "\<dots> = used (usage_for sha db (r_user rep) Free s t0)"
    using assms(2) old r(2) by (simp add: usage_for_def Let_def)
  finally show ?thesis .
qed

lemma reapply_one_cases:
  assumes "reapply_one sha fails entries u (db, n, k) = (db', n', k')"
  obtains "db' = db" and "k' = k" and "is_registered_principal u \<Longrightarrow> u \<notin> u_id ` set (users db)"
  | "k' = Suc k"
  | r t where "u_id r = u" and "db' = snd (remove_account sha db r (plan sha db r) t)" and "k' = k"
proof (cases "find_account db None (Some u)")
  case (Inr r)
  with assms find_account_Inr(2) [OF Inr refl] that(2,3) show thesis
    by (auto simp: reapply_one_def split: if_splits)
next
  case (Inl e)
  have "e = Account_not_found \<Longrightarrow> is_registered_principal u \<Longrightarrow> u \<notin> u_id ` set (users db)"
    using Inl by (auto simp: find_account_def filter_empty_conv split: if_splits list.splits)
  with Inl assms that(1,2) show thesis
    by (auto simp: reapply_one_def split: deletion_error.splits)
qed

lemma reapply_one_failed: "snd (snd st) \<le> snd (snd (reapply_one sha fails entries u st))"
  by (cases st) (auto simp: reapply_one_def split: sum.splits deletion_error.splits)

lemma reapply_fold_failed: "snd (snd st) \<le> snd (snd (fold (reapply_one sha fails entries) us st))"
proof (induction us arbitrary: st)
  case (Cons u us)
  show ?case
    using le_trans [OF reapply_one_failed Cons.IH] by simp
qed simp

lemma reapply_fold:
  assumes "fold (reapply_one sha fails entries) us (db, n, k) = (db', n', k)"
  shows "(\<forall>v. v \<notin> set us \<longrightarrow> rows_kept v db db')
    \<and> (\<forall>v. v \<notin> u_id ` set (users db) \<longrightarrow> v \<notin> u_id ` set (users db'))
    \<and> (\<forall>v. no_trace v db \<longrightarrow> no_trace v db')
    \<and> (\<forall>u\<in>set us. is_registered_principal u \<longrightarrow> u \<notin> u_id ` set (users db')
          \<and> (u \<in> u_id ` set (users db) \<longrightarrow> no_trace u db'))"
  using assms
proof (induction us arbitrary: db n)
  case (Cons u us)
  obtain db1 n1 k1 where one: "reapply_one sha fails entries u (db, n, k) = (db1, n1, k1)"
    by (cases "reapply_one sha fails entries u (db, n, k)") auto
  with Cons.prems have rest: "fold (reapply_one sha fails entries) us (db1, n1, k1) = (db', n', k)"
    by simp
  then have "k1 = k"
    using reapply_fold_failed [of "(db1, n1, k1)" sha fails entries us]
      reapply_one_failed [of "(db, n, k)" sha fails entries u] one by simp
  note IH = Cons.IH [OF rest [unfolded this]]
  from one show ?case
  proof (cases rule: reapply_one_cases)
    case 1
    with IH show ?thesis by auto
  next
    case 2
    with \<open>k1 = k\<close> show ?thesis by simp
  next
    case (3 r t)
    have gone: "u \<notin> u_id ` set (users db1)" "no_trace u db1"
      using 3 remove_account_no_trace [of r sha db "plan sha db r" t]
      by (auto simp: remove_account_users tdel_def)
    have sub: "u_id ` set (users db1) = u_id ` set (users db) - {u}"
      using 3 by (auto simp: remove_account_users tdel_def)
    have other: "rows_kept v db db1" if "v \<noteq> u" for v
      using 3 that rows_kept_remove by auto
    have none: "no_trace v db \<Longrightarrow> no_trace v db1" for v
      using 3 no_trace_remove_other by auto
    show ?thesis
      using IH gone sub none rows_kept_trans [OF other] by auto
  qed
qed simp


definition steady :: deletion_world where
  "steady = \<lparr>list_configured = True, record_call = Done, commit_call = Done, probe_answers = True,
     forget_call = Done\<rparr>"

definition demo_gone :: site_db where
  "demo_gone = delete_user ''usr_1'' (demo_db\<lparr>tombstones :=
     [\<lparr>ts_hash = ''a@b.c'', ts_used = 4, ts_deleted_at = 100\<rparr>]\<rparr>)"

definition demo_report :: deletion_report where
  "demo_report = \<lparr>r_user = ''usr_1'', r_used = 4, r_carried = 0, r_total = Some 4\<rparr>"

lemma demo_deletion:
  "delete_account id steady None (Some ''usr_1'') 100 (demo_db, []) =
     (Inr demo_report, demo_gone, [(''usr_1'', 100)])"
  by code_simp

theorem deletion_keeps_the_trial_count_witness:
  "used (usage_for id (demo_gone\<lparr>users := users demo_gone @ [\<lparr>u_id = ''usr_2'',
       u_email = Some '' A@B.c'', u_password_hash = None, u_verified_at = None, u_created_at = 200\<rparr>]\<rparr>)
      ''usr_2'' Free demo_access ((2024, 3, 1), 0)) =
    used (usage_for id demo_db ''usr_1'' Free demo_access ((2024, 2, 1), 0))"
proof -
  let ?new = "\<lparr>u_id = ''usr_2'', u_email = Some '' A@B.c'', u_password_hash = None,
      u_verified_at = None, u_created_at = 200\<rparr>"
  have gone: "''usr_2'' \<notin> u_id ` set (users demo_gone)" "''usr_2'' \<notin> au_user ` set (usages demo_gone)"
    by code_simp+
  have old: "get_user demo_db (r_user demo_report) = Some (hd (users demo_db))"
    "u_email (hd (users demo_db)) = Some ''a@b.c''" "unique u_id (users demo_db)"
    "lower (strip '' A@B.c'') = lower (strip ''a@b.c'')"
    by code_simp+
  show ?thesis
    using deletion_keeps_the_trial_count [OF demo_deletion old(1,2) _ old(3), of ?new]
    by (simp add: gone old(4) demo_report_def)
qed



end
