(* ===== verification/Auth_Sessions.thy ===== *)
theory Auth_Sessions
  imports Account_Deletion
begin

text \<open>
  \<open>app/core/auth_sessions.py\<close> and \<open>app/access/api_keys.py\<close>: the session cookie and what it resolves
  to, minting an anonymous principal, rotating a browser onto an account with the claim of its
  anonymous chats, revoking sessions, and the API keys. SHA-256 is the parameter \<open>sha\<close>; what
  \<open>uuid4\<close> and \<open>token_hex\<close> give is the argument \<open>mint\<close>. A UUID is its 32 lower-case hex digits.

  A request that needs the deletion list while Redis does not answer is refused (503).
\<close>

section \<open>Credentials\<close>

definition is_hex :: "char \<Rightarrow> bool" where
  "is_hex c \<longleftrightarrow> is_hex_lower (lower_char c)"

definition hex_value :: "char \<Rightarrow> nat" where
  "hex_value c = (let n = of_char (lower_char c) :: nat in if n \<ge> 97 then n - 87 else n - 48)"

fun hex_digits :: "nat \<Rightarrow> nat \<Rightarrow> string" where
  "hex_digits 0 v = []"
| "hex_digits (Suc n) v = hex_digits n (v div 16) @
     [char_of (if v mod 16 < 10 then 48 + v mod 16 else 87 + v mod 16 :: nat)]"

text \<open>\<open>int(s, 16)\<close>: blanks around, a sign, \<open>0x\<close> and single underscores between digits are accepted.\<close>

definition parse_int16 :: "string \<Rightarrow> nat option" where
  "parse_int16 s =
     (let t = (case strip s of c # r \<Rightarrow> if c = CHR ''+'' then r else c # r | [] \<Rightarrow> []);
          u = (case t of z # x # r \<Rightarrow>
                 if z = CHR ''0'' \<and> lower_char x = CHR ''x''
                 then (case r of c # r' \<Rightarrow> if c = CHR ''_'' then r' else r | [] \<Rightarrow> r)
                 else t
               | _ \<Rightarrow> t);
          parts = split_on (CHR ''_'') u
      in if list_all (\<lambda>p. p \<noteq> [] \<and> list_all is_hex p) parts
         then Some (foldl (\<lambda>n c. 16 * n + hex_value c) 0 (concat parts)) else None)"

text \<open>\<open>s.replace(p, '')\<close>\<close>

function remove_all :: "string \<Rightarrow> string \<Rightarrow> string" where
  "remove_all p s =
     (if p \<noteq> [] \<and> take (length p) s = p then remove_all p (drop (length p) s)
      else (case s of [] \<Rightarrow> [] | c # cs \<Rightarrow> c # remove_all p cs))"
  by auto
termination
proof (relation "measure (length \<circ> snd)")
  fix p s :: string
  assume "p \<noteq> [] \<and> take (length p) s = p"
  then have "p \<noteq> []" "s \<noteq> []" by auto
  then show "((p, drop (length p) s), p, s) \<in> measure (length \<circ> snd)"
    by (cases p; cases s) auto
qed auto

declare remove_all.simps [simp del]

text \<open>\<open>uuid.UUID(hex=s)\<close>\<close>

definition uuid_of_hex :: "string \<Rightarrow> string option" where
  "uuid_of_hex s =
     (let braces = (\<lambda>c. c = CHR ''{'' \<or> c = CHR ''}'');
          t = remove_all ''uuid:'' (remove_all ''urn:'' s);
          h = filter (\<lambda>c. c \<noteq> CHR ''-'') (rev (dropWhile braces (rev (dropWhile braces t))))
      in if length h \<noteq> 32 then None
         else if list_all is_hex h then Some (lower h)
         else map_option (hex_digits 32) (parse_int16 h))"

section \<open>Settings and the outside\<close>

record session_settings =
  auth_session_ttl_seconds :: int
  password_step_up_window_seconds :: int
  magic_link_ttl_seconds :: int

record gate =
  g_configured :: bool
  g_readable :: bool
  g_list :: deletion_list

definition listed :: "gate \<Rightarrow> user_id \<Rightarrow> bool option" where
  "listed g u = is_listed (g_configured g) (g_readable g) (g_list g) u"

record mint =
  new_id :: string
  new_secret :: string
  new_user :: string

datatype auth_error =
    Unavailable | Auth_needed | Bad_request | Verification_first | Not_there
  | Still_subscribed | Rate_limited_by limit_error | Server_failure

section \<open>Looking a cookie up\<close>

definition cookie_of :: "string \<Rightarrow> string \<Rightarrow> string" where
  "cookie_of auth_id secret = auth_id @ CHR ''.'' # secret"

definition lookup_auth_session ::
    "(string \<Rightarrow> string) \<Rightarrow> gate \<Rightarrow> timestamp \<Rightarrow> site_db \<Rightarrow> string \<Rightarrow> auth_error + auth_session option" where
  "lookup_auth_session sha g now db cookie =
     (case partition_on (CHR ''.'') cookie of (id_part, sep, secret) \<Rightarrow>
        if secret = [] then Inr None
        else (case uuid_of_hex id_part of
          None \<Rightarrow> Inr None
        | Some i \<Rightarrow> (case tget as_id (auth_sessions db) i of
             None \<Rightarrow> Inr None
           | Some row \<Rightarrow>
               if sha secret \<noteq> as_secret_hash row then Inr None
               else if as_expires_at row \<le> now then Inr None
               else (case listed g (as_user row) of
                  None \<Rightarrow> Inl Unavailable
                | Some yes \<Rightarrow> Inr (if yes then None else Some row)))))"

definition try_resolve_auth_session ::
    "(string \<Rightarrow> string) \<Rightarrow> gate \<Rightarrow> timestamp \<Rightarrow> site_db \<Rightarrow> string option \<Rightarrow> auth_error + auth_session option" where
  "try_resolve_auth_session sha g now db cookie =
     (case cookie of None \<Rightarrow> Inr None
      | Some c \<Rightarrow> if c = [] then Inr None else lookup_auth_session sha g now db c)"

definition try_resolve_principal ::
    "(string \<Rightarrow> string) \<Rightarrow> gate \<Rightarrow> timestamp \<Rightarrow> site_db \<Rightarrow> string option \<Rightarrow> auth_error + user_id option" where
  "try_resolve_principal sha g now db cookie =
     and_then (try_resolve_auth_session sha g now db cookie) (\<lambda>r. Inr (map_option as_user r))"

definition resolve_by_auth_session_id ::
    "gate \<Rightarrow> timestamp \<Rightarrow> site_db \<Rightarrow> string \<Rightarrow> auth_error + user_id option" where
  "resolve_by_auth_session_id g now db i =
     (case tget as_id (auth_sessions db) i of
        None \<Rightarrow> Inr None
      | Some row \<Rightarrow>
          if as_expires_at row \<le> now then Inr None
          else (case listed g (as_user row) of
             None \<Rightarrow> Inl Unavailable
           | Some yes \<Rightarrow> Inr (if yes then None else Some (as_user row))))"

section \<open>Minting\<close>

definition create_auth_session ::
    "(string \<Rightarrow> string) \<Rightarrow> session_settings \<Rightarrow> mint \<Rightarrow> user_id \<Rightarrow> timestamp option \<Rightarrow> timestamp
      \<Rightarrow> site_db \<Rightarrow> string \<times> site_db" where
  "create_auth_session sha s m u magic now db =
     (cookie_of (new_id m) (new_secret m),
      db\<lparr>auth_sessions := auth_sessions db @ [\<lparr>as_id = new_id m, as_secret_hash = sha (new_secret m),
        as_user = u, as_created_at = now,
        as_expires_at = now + microseconds (auth_session_ttl_seconds s), as_magic_at = magic\<rparr>]\<rparr>)"

definition mint_principal ::
    "(string \<Rightarrow> string) \<Rightarrow> session_settings \<Rightarrow> mint \<Rightarrow> timestamp \<Rightarrow> site_db
      \<Rightarrow> user_id \<times> string \<times> site_db" where
  "mint_principal sha s m now db =
     (let p = ''anon_'' @ new_user m;
          db1 = db\<lparr>users := users db @ [\<lparr>u_id = p, u_email = None, u_password_hash = None,
                   u_verified_at = None, u_created_at = now\<rparr>]\<rparr>
      in (p, create_auth_session sha s m p None now db1))"

text \<open>What a route gets: the principal, the cookie to set (none where it is kept), the database.\<close>

definition resolve_principal ::
    "(string \<Rightarrow> string) \<Rightarrow> session_settings \<Rightarrow> gate \<Rightarrow> mint \<Rightarrow> timestamp \<Rightarrow> string option \<Rightarrow> site_db
      \<Rightarrow> auth_error + user_id \<times> string option \<times> site_db" where
  "resolve_principal sha s g m now cookie db =
     and_then (try_resolve_auth_session sha g now db cookie) (\<lambda>r.
       case r of Some row \<Rightarrow> Inr (as_user row, None, db)
       | None \<Rightarrow> (case mint_principal sha s m now db of (p, c, db') \<Rightarrow> Inr (p, Some c, db')))"

definition ensure_auth_session ::
    "(string \<Rightarrow> string) \<Rightarrow> session_settings \<Rightarrow> gate \<Rightarrow> mint \<Rightarrow> timestamp \<Rightarrow> string option \<Rightarrow> site_db
      \<Rightarrow> auth_error + string \<times> string option \<times> site_db" where
  "ensure_auth_session sha s g m now cookie db =
     and_then (try_resolve_auth_session sha g now db cookie) (\<lambda>r.
       case r of Some row \<Rightarrow> Inr (as_id row, None, db)
       | None \<Rightarrow> (case mint_principal sha s m now db of (p, c, db') \<Rightarrow> Inr (new_id m, Some c, db')))"

section \<open>Rotating and revoking\<close>

definition is_anonymous :: "user_id \<Rightarrow> bool" where
  "is_anonymous u \<longleftrightarrow> take 5 u = ''anon_''"

definition claim_chats :: "user_id \<Rightarrow> user_id \<Rightarrow> site_db \<Rightarrow> site_db" where
  "claim_chats old new db =
     (if old \<noteq> new \<and> is_anonymous old
      then db\<lparr>chat_sessions := map (\<lambda>c. if cs_user c = old then c\<lparr>cs_user := new\<rparr> else c) (chat_sessions db)\<rparr>
      else db)"

definition drop_auth_session :: "string \<Rightarrow> site_db \<Rightarrow> site_db" where
  "drop_auth_session i db = db\<lparr>auth_sessions := tdel (\<lambda>r. as_id r = i) (auth_sessions db)\<rparr>"

definition claim_and_login ::
    "(string \<Rightarrow> string) \<Rightarrow> session_settings \<Rightarrow> gate \<Rightarrow> mint \<Rightarrow> timestamp \<Rightarrow> string option \<Rightarrow> user_id
      \<Rightarrow> timestamp option \<Rightarrow> site_db \<Rightarrow> auth_error + string \<times> site_db" where
  "claim_and_login sha s g m now cookie u magic db =
     (case listed g u of
        None \<Rightarrow> Inl Unavailable
      | Some True \<Rightarrow> Inl Auth_needed
      | Some False \<Rightarrow>
          and_then (try_resolve_auth_session sha g now db cookie) (\<lambda>old.
            Inr (create_auth_session sha s m u magic now
              (case old of None \<Rightarrow> db
               | Some row \<Rightarrow> drop_auth_session (as_id row) (claim_chats (as_user row) u db)))))"

text \<open>The cookie is cleared whether or not it resolved.\<close>

definition revoke_current_session ::
    "(string \<Rightarrow> string) \<Rightarrow> gate \<Rightarrow> timestamp \<Rightarrow> string option \<Rightarrow> site_db
      \<Rightarrow> auth_error + user_id option \<times> site_db" where
  "revoke_current_session sha g now cookie db =
     and_then (try_resolve_auth_session sha g now db cookie) (\<lambda>r.
       case r of None \<Rightarrow> Inr (None, db)
       | Some row \<Rightarrow> Inr (Some (as_user row), drop_auth_session (as_id row) db))"

definition step_up_active :: "session_settings \<Rightarrow> timestamp \<Rightarrow> auth_session \<Rightarrow> bool" where
  "step_up_active s now row =
     (case as_magic_at row of
        None \<Rightarrow> False
      | Some t \<Rightarrow> 0 \<le> now - t \<and> now - t \<le> microseconds (password_step_up_window_seconds s))"

definition revoke_other_sessions :: "user_id \<Rightarrow> string \<Rightarrow> site_db \<Rightarrow> nat \<times> site_db" where
  "revoke_other_sessions u keep_id db =
     (length (filter (\<lambda>r. as_user r = u \<and> as_id r \<noteq> keep_id) (auth_sessions db)),
      db\<lparr>auth_sessions := tdel (\<lambda>r. as_user r = u \<and> as_id r \<noteq> keep_id) (auth_sessions db)\<rparr>)"

section \<open>API keys\<close>

definition make_key ::
    "(string \<Rightarrow> string) \<Rightarrow> mint \<Rightarrow> user_id \<Rightarrow> string \<Rightarrow> api_key \<times> string" where
  "make_key sha m u name =
     (\<lparr>ak_id = new_id m, ak_user = u, ak_name = name, ak_secret_hash = sha (new_secret m),
       ak_last_used_at = None, ak_revoked_at = None\<rparr>,
      ''cvk_'' @ new_id m @ CHR ''_'' # new_secret m)"

definition key_shape :: "string \<Rightarrow> (string \<times> string) option" where
  "key_shape raw =
     (if take 4 raw = ''cvk_'' \<and> length raw = 101 \<and> raw ! 36 = CHR ''_''
         \<and> list_all is_hex_lower (take 32 (drop 4 raw)) \<and> list_all is_hex_lower (drop 37 raw)
      then Some (take 32 (drop 4 raw), drop 37 raw) else None)"

definition authenticate_api_key ::
    "(string \<Rightarrow> string) \<Rightarrow> gate \<Rightarrow> timestamp \<Rightarrow> string \<Rightarrow> site_db \<Rightarrow> auth_error + api_key option \<times> site_db" where
  "authenticate_api_key sha g now raw db =
     (case key_shape (strip raw) of
        None \<Rightarrow> Inr (None, db)
      | Some (i, secret) \<Rightarrow>
         (case tget ak_id (api_keys db) i of
            None \<Rightarrow> Inr (None, db)
          | Some row \<Rightarrow>
              if ak_revoked_at row \<noteq> None then Inr (None, db)
              else if sha secret \<noteq> ak_secret_hash row then Inr (None, db)
              else (case listed g (ak_user row) of
                 None \<Rightarrow> Inl Unavailable
               | Some True \<Rightarrow> Inr (None, db)
               | Some False \<Rightarrow>
                   (let row' = row\<lparr>ak_last_used_at := Some now\<rparr>
                    in Inr (Some row', db\<lparr>api_keys := tput ak_id row' (api_keys db)\<rparr>)))))"

definition require_api_key ::
    "(string \<Rightarrow> string) \<Rightarrow> access_settings \<Rightarrow> gate \<Rightarrow> timestamp \<Rightarrow> string \<Rightarrow> site_db
      \<Rightarrow> auth_error + api_key \<times> site_db" where
  "require_api_key sha s g now authorization db =
     (if \<not> access_model_enabled s then Inl Not_there
      else (case partition_on (CHR '' '') authorization of (scheme, sep, raw) \<Rightarrow>
         if lower scheme \<noteq> ''bearer'' \<or> raw = [] then Inl Auth_needed
         else and_then (authenticate_api_key sha g now raw db) (\<lambda>r.
           case r of (None, db') \<Rightarrow> Inl Auth_needed | (Some key, db') \<Rightarrow> Inr (key, db'))))"

section \<open>Looking up what was issued\<close>

definition hex32 :: "string \<Rightarrow> bool" where
  "hex32 i \<longleftrightarrow> length i = 32 \<and> list_all is_hex_lower i"

text \<open>What \<open>uuid4\<close> and \<open>token_hex\<close> guarantee of a mint, and that its id is new.\<close>

definition good_mint :: "mint \<Rightarrow> site_db \<Rightarrow> bool" where
  "good_mint m db \<longleftrightarrow> hex32 (new_id m) \<and> new_secret m \<noteq> [] \<and> new_id m \<notin> as_id ` set (auth_sessions db)"

lemma is_hex_lower_chars:
  assumes "is_hex_lower c"
  shows "lower_char c = c" and "is_hex c" and "c \<noteq> CHR ''.''" and "c \<noteq> CHR ''-''"
    and "c \<noteq> CHR ''{''" and "c \<noteq> CHR ''}''" and "c \<noteq> CHR '':''"
proof -
  show low: "lower_char c = c" using assms by (auto simp: lower_char_def is_hex_lower_def Let_def)
  then show "is_hex c" using assms by (simp add: is_hex_def)
  show "c \<noteq> CHR ''.''" "c \<noteq> CHR ''-''" "c \<noteq> CHR ''{''" "c \<noteq> CHR ''}''" "c \<noteq> CHR '':''"
    using assms by (auto simp: is_hex_lower_def Let_def)
qed

lemma remove_all_absent: "c \<in> set p \<Longrightarrow> c \<notin> set s \<Longrightarrow> remove_all p s = s"
proof (induction s)
  case Nil
  then show ?case by (subst remove_all.simps) auto
next
  case (Cons x s)
  then have "take (length p) (x # s) \<noteq> p"
    by (metis in_set_takeD)
  with Cons show ?case by (subst remove_all.simps) auto
qed

lemma uuid_of_hex32:
  assumes "hex32 i"
  shows "uuid_of_hex i = Some i"
proof -
  have hex: "\<forall>c\<in>set i. is_hex_lower c" using assms by (simp add: hex32_def list_all_iff)
  have colon: "CHR '':'' \<notin> set i" using hex is_hex_lower_chars(7) by blast
  then have "remove_all ''uuid:'' (remove_all ''urn:'' i) = i"
    by (simp add: remove_all_absent [where c = "CHR '':''"])
  moreover have strip: "dropWhile (\<lambda>c. c = CHR ''{'' \<or> c = CHR ''}'') j = j"
    if "\<forall>c\<in>set j. is_hex_lower c" for j
    using that is_hex_lower_chars(5,6) by (cases j) auto
  moreover have "filter (\<lambda>c. c \<noteq> CHR ''-'') i = i"
    using hex is_hex_lower_chars(4) by (intro filter_True) blast
  moreover have "lower i = i"
    using hex is_hex_lower_chars(1) by (simp add: lower_def map_idI)
  moreover have "list_all is_hex i" using hex is_hex_lower_chars(2) by (simp add: list_all_iff)
  ultimately show ?thesis
    using assms hex by (simp add: uuid_of_hex_def hex32_def Let_def)
qed

lemma partition_on_cookie:
  assumes "c \<notin> set i"
  shows "partition_on c (i @ c # s) = (i, True, s)"
  using assms by (induction i) (auto simp: partition_on_def Let_def split: list.splits)

lemma lookup_cookie_of:
  assumes "hex32 i" and "secret \<noteq> []"
  shows "lookup_auth_session sha g now db (cookie_of i secret) =
    (case tget as_id (auth_sessions db) i of
       None \<Rightarrow> Inr None
     | Some row \<Rightarrow>
         if sha secret \<noteq> as_secret_hash row then Inr None
         else if as_expires_at row \<le> now then Inr None
         else (case listed g (as_user row) of
            None \<Rightarrow> Inl Unavailable
          | Some yes \<Rightarrow> Inr (if yes then None else Some row)))"
proof -
  have "CHR ''.'' \<notin> set i"
    using assms(1) is_hex_lower_chars(3) by (auto simp: hex32_def list_all_iff)
  then show ?thesis
    using assms by (simp add: lookup_auth_session_def cookie_of_def partition_on_cookie uuid_of_hex32)
qed

lemma lookup_Some:
  assumes "lookup_auth_session sha g now db cookie = Inr (Some row)"
  obtains secret where "snd (snd (partition_on (CHR ''.'') cookie)) = secret"
    and "uuid_of_hex (fst (partition_on (CHR ''.'') cookie)) = Some (as_id row)"
    and "tget as_id (auth_sessions db) (as_id row) = Some row"
    and "sha secret = as_secret_hash row" and "now < as_expires_at row"
    and "listed g (as_user row) = Some False"
proof -
  from assms obtain i where "uuid_of_hex (fst (partition_on (CHR ''.'') cookie)) = Some i"
    "tget as_id (auth_sessions db) i = Some row"
    "sha (snd (snd (partition_on (CHR ''.'') cookie))) = as_secret_hash row"
    "now < as_expires_at row" "listed g (as_user row) = Some False"
    by (auto simp: lookup_auth_session_def split: prod.splits option.splits if_splits)
  moreover from this have "as_id row = i" by (auto dest: tget_Some)
  ultimately show thesis using that by auto
qed

lemma lookup_gone:
  assumes "tget as_id (auth_sessions db) i = None"
    and "uuid_of_hex (fst (partition_on (CHR ''.'') cookie)) = Some i"
  shows "lookup_auth_session sha g now db cookie = Inr None"
  using assms by (auto simp: lookup_auth_session_def split: prod.splits)

section \<open>Properties\<close>

lemma claim_and_login_cases:
  assumes "claim_and_login sha s g m now cookie u magic db = Inr (cookie', db')"
  obtains old where "try_resolve_auth_session sha g now db cookie = Inr old"
    and "listed g u = Some False" and "cookie' = cookie_of (new_id m) (new_secret m)"
    and "(cookie', db') = create_auth_session sha s m u magic now
      (case old of None \<Rightarrow> db
       | Some row \<Rightarrow> drop_auth_session (as_id row) (claim_chats (as_user row) u db))"
proof -
  from assms obtain old where old: "listed g u = Some False"
    "try_resolve_auth_session sha g now db cookie = Inr old"
    "create_auth_session sha s m u magic now
      (case old of None \<Rightarrow> db
       | Some row \<Rightarrow> drop_auth_session (as_id row) (claim_chats (as_user row) u db)) = (cookie', db')"
    by (auto simp: claim_and_login_def and_then_Inr_iff split: option.splits bool.splits)
  then have "cookie' = cookie_of (new_id m) (new_secret m)"
    by (simp add: create_auth_session_def)
  with old that show thesis by metis
qed

lemma claim_chats_auth [simp]: "auth_sessions (claim_chats o' n db) = auth_sessions db"
  by (simp add: claim_chats_def)

lemma try_resolve_Some:
  "try_resolve_auth_session sha g now db cookie = Inr (Some row) \<Longrightarrow>
     \<exists>c. cookie = Some c \<and> c \<noteq> [] \<and> lookup_auth_session sha g now db c = Inr (Some row)"
  by (auto simp: try_resolve_auth_session_def split: option.splits if_splits)

lemma new_cookie_resolves:
  assumes "claim_and_login sha s g m now cookie u magic db = Inr (cookie', db')"
    and "good_mint m db" and "0 < auth_session_ttl_seconds s"
  shows "try_resolve_principal sha g now db' (Some cookie') = Inr (Some u)"
proof -
  obtain old where old: "listed g u = Some False" "cookie' = cookie_of (new_id m) (new_secret m)"
    "(cookie', db') = create_auth_session sha s m u magic now
      (case old of None \<Rightarrow> db
       | Some row \<Rightarrow> drop_auth_session (as_id (row :: auth_session)) (claim_chats (as_user row) u db))"
    using assms(1) by (rule claim_and_login_cases) (rule that)
  let ?db1 = "case old of None \<Rightarrow> db
       | Some row \<Rightarrow> drop_auth_session (as_id row) (claim_chats (as_user row) u db)"
  have mint: "hex32 (new_id m)" "new_secret m \<noteq> []" using assms(2) by (simp_all add: good_mint_def)
  have "new_id m \<notin> as_id ` set (auth_sessions ?db1)"
    using assms(2) by (auto simp: good_mint_def drop_auth_session_def tdel_def split: option.splits)
  then have "tget as_id (auth_sessions ?db1) (new_id m) = None" by (simp add: tget_None_iff)
  then have "tget as_id (auth_sessions db') (new_id m) = Some \<lparr>as_id = new_id m,
      as_secret_hash = sha (new_secret m), as_user = u, as_created_at = now,
      as_expires_at = now + microseconds (auth_session_ttl_seconds s), as_magic_at = magic\<rparr>"
    using old(3) by (simp add: create_auth_session_def tget_append)
  with old(1,2) assms(3) show ?thesis
    by (simp add: try_resolve_principal_def try_resolve_auth_session_def lookup_cookie_of [OF mint])
      (simp add: cookie_of_def microseconds_def)
qed

text \<open>Signing in rotates the browser. Afterwards the new cookie resolves to the account; the cookie
  the browser came with resolves to nothing, at any later time; every other session of anybody is
  untouched; and the only chats that changed hands are those of the anonymous visitor this very
  browser was, never those of an account.\<close>
theorem login_rotates_the_browser:
  assumes "claim_and_login sha s g m now cookie u magic db = Inr (cookie', db')"
    and "good_mint m db" and "0 < auth_session_ttl_seconds s"
  shows "try_resolve_principal sha g now db' (Some cookie') = Inr (Some u)
    \<and> (\<forall>row. try_resolve_auth_session sha g now db cookie = Inr (Some row) \<longrightarrow>
         (\<forall>g' t. try_resolve_principal sha g' t db' cookie = Inr None))
    \<and> (\<forall>r\<in>set (auth_sessions db).
         (\<forall>r'. try_resolve_auth_session sha g now db cookie = Inr (Some r') \<longrightarrow> as_id r' \<noteq> as_id r) \<longrightarrow>
         r \<in> set (auth_sessions db'))
    \<and> map cs_id (chat_sessions db') = map cs_id (chat_sessions db)
    \<and> (\<forall>c\<in>set (zip (chat_sessions db) (chat_sessions db')). cs_user (snd c) = cs_user (fst c)
         \<or> cs_user (snd c) = u \<and> is_anonymous (cs_user (fst c))
             \<and> try_resolve_principal sha g now db cookie = Inr (Some (cs_user (fst c))))"
proof -
  obtain old where old: "try_resolve_auth_session sha g now db cookie = Inr old"
    "listed g u = Some False" "cookie' = cookie_of (new_id m) (new_secret m)"
    "(cookie', db') = create_auth_session sha s m u magic now
      (case old of None \<Rightarrow> db
       | Some row \<Rightarrow> drop_auth_session (as_id row) (claim_chats (as_user row) u db))"
    using assms(1) by (rule claim_and_login_cases)
  define db1 where "db1 = (case old of None \<Rightarrow> db
       | Some row \<Rightarrow> drop_auth_session (as_id row) (claim_chats (as_user row) u db))"
  have auth1: "auth_sessions db1 = (case old of None \<Rightarrow> auth_sessions db
      | Some row \<Rightarrow> tdel (\<lambda>r. as_id r = as_id row) (auth_sessions db))"
    by (simp add: db1_def drop_auth_session_def split: option.splits)
  define new where "new = \<lparr>as_id = new_id m, as_secret_hash = sha (new_secret m), as_user = u,
      as_created_at = now, as_expires_at = now + microseconds (auth_session_ttl_seconds s), as_magic_at = magic\<rparr>"
  have db': "auth_sessions db' = auth_sessions db1 @ [new]" "chat_sessions db' = chat_sessions db1"
    using old(4) by (simp_all add: create_auth_session_def new_def db1_def)
  have unused: "new_id m \<notin> as_id ` set (auth_sessions db1)"
    using assms(2) by (auto simp: good_mint_def auth1 tdel_def split: option.splits)
  have "try_resolve_principal sha g now db' (Some cookie') = Inr (Some u)"
    using assms by (rule new_cookie_resolves)
  moreover have "try_resolve_principal sha g' t db' cookie = Inr None" if "old = Some row" for g' t row
  proof -
    obtain c where c: "cookie = Some c" "c \<noteq> []" "lookup_auth_session sha g now db c = Inr (Some row)"
      using try_resolve_Some old(1) \<open>old = Some row\<close> by blast
    from c(3) have id: "uuid_of_hex (fst (partition_on (CHR ''.'') c)) = Some (as_id row)"
      and "tget as_id (auth_sessions db) (as_id row) = Some row"
      by (auto elim: lookup_Some)
    then have "row \<in> set (auth_sessions db)" by (auto dest: tget_Some)
    then have "new_id m \<noteq> as_id row" using assms(2) by (auto simp: good_mint_def)
    moreover have "tget as_id (auth_sessions db1) (as_id row) = None"
      by (simp add: auth1 that tget_tdel_key)
    ultimately have "tget as_id (auth_sessions db') (as_id row) = None"
      by (simp add: db' tget_append new_def)
    from lookup_gone [OF this id] c(1,2) show ?thesis
      by (simp add: try_resolve_principal_def try_resolve_auth_session_def)
  qed
  moreover have "r \<in> set (auth_sessions db')"
    if "r \<in> set (auth_sessions db)" "\<forall>r'. old = Some r' \<longrightarrow> as_id r' \<noteq> as_id r" for r
    using that by (auto simp: db' auth1 tdel_def split: option.splits)
  moreover have "map cs_id (chat_sessions db') = map cs_id (chat_sessions db)
    \<and> (\<forall>c\<in>set (zip (chat_sessions db) (chat_sessions db')). cs_user (snd c) = cs_user (fst c)
         \<or> cs_user (snd c) = u \<and> is_anonymous (cs_user (fst c))
             \<and> try_resolve_principal sha g now db cookie = Inr (Some (cs_user (fst c))))"
    using old(1)
    by (auto simp: db' db1_def drop_auth_session_def claim_chats_def comp_def set_zip
        try_resolve_principal_def split: option.splits if_splits)
  ultimately show ?thesis unfolding old(1) sum.inject by blast
qed

definition demo_sessions :: session_settings where
  "demo_sessions = \<lparr>auth_session_ttl_seconds = 100, password_step_up_window_seconds = 60,
     magic_link_ttl_seconds = 60\<rparr>"

definition open_gate :: gate where
  "open_gate = \<lparr>g_configured = False, g_readable = False, g_list = []\<rparr>"

definition demo_mint :: "char \<Rightarrow> mint" where
  "demo_mint c = \<lparr>new_id = replicate 32 c, new_secret = [c], new_user = replicate 32 c\<rparr>"

definition visitor_db :: site_db where
  "visitor_db = snd (snd (mint_principal id demo_sessions (demo_mint CHR ''a'') 0
     (demo_db\<lparr>chat_sessions := [\<lparr>cs_id = ''c'', cs_user = ''anon_'' @ replicate 32 CHR ''a'',
        cs_expires_at = 50\<rparr>]\<rparr>)))"

definition visitor_cookie :: string where
  "visitor_cookie = cookie_of (replicate 32 CHR ''a'') ''a''"

theorem login_rotates_the_browser_witness:
  "\<exists>db'. claim_and_login id demo_sessions open_gate (demo_mint CHR ''b'') 5 (Some visitor_cookie)
        ''usr_1'' None visitor_db = Inr (cookie_of (replicate 32 CHR ''b'') ''b'', db')
    \<and> try_resolve_principal id open_gate 5 db' (Some (cookie_of (replicate 32 CHR ''b'') ''b'')) =
        Inr (Some ''usr_1'')"
proof -
  let ?r = "claim_and_login id demo_sessions open_gate (demo_mint CHR ''b'') 5 (Some visitor_cookie)
        ''usr_1'' None visitor_db"
  have r: "?r = Inr (cookie_of (replicate 32 CHR ''b'') ''b'', snd (projr ?r))" by code_simp
  have "good_mint (demo_mint CHR ''b'') visitor_db" by code_simp
  from login_rotates_the_browser [OF r this] r show ?thesis by (auto simp: demo_sessions_def)
qed


definition key_mint :: mint where
  "key_mint = \<lparr>new_id = replicate 32 CHR ''7'', new_secret = replicate 64 CHR ''e'', new_user = []\<rparr>"


end
