(* ===== verification/Sign_In.thy ===== *)
theory Sign_In
  imports Auth_Sessions
begin

text \<open>
  The sign-in routes: register, login, logout, password and self-service deletion
  (\<open>app/api/routes/auth.py\<close>), the emailed sign-in link (\<open>app/api/routes/magic_link.py\<close>), the checks
  on where a request comes from and what it presents (\<open>core/request_origin.py\<close>,
  \<open>core/security.py\<close>) and \<open>core/email_verification.py\<close>. A route is a function of its body, its
  \<open>visit\<close> (cookie, clock, fresh randomness, the answers of the limiter) and the database and limiter
  state; it returns its answer and both states. A route that raised before its commit returns the
  database it was given.

  Argon2 and HMAC are parameters of the environment; \<open>v_hash\<close> is the salted hash that
  \<open>hash_password\<close> gives this visit. Mail is sent after the commit and changes no state.
\<close>

section \<open>Where a request comes from\<close>

definition rstrip_slash :: "string \<Rightarrow> string" where
  "rstrip_slash s = rev (dropWhile (\<lambda>c. c = CHR ''/'') (rev s))"

definition normalise_origin :: "string \<Rightarrow> string" where
  "normalise_origin o' = lower (rstrip_slash (strip o'))"

definition trusted_fetch_sites :: "string list" where
  "trusted_fetch_sites = [''same-origin'', ''none'']"

definition is_same_site_request :: "string option \<Rightarrow> string option \<Rightarrow> string list \<Rightarrow> bool" where
  "is_same_site_request fetch_site origin allowed =
     (let site = map_option (lower \<circ> strip) fetch_site;
          trusted = (\<exists>s. site = Some s \<and> s \<in> set trusted_fetch_sites)
      in case origin of
           Some og \<Rightarrow> if normalise_origin og = ''null'' then trusted
             else normalise_origin og \<in> normalise_origin ` set allowed
         | None \<Rightarrow> site = None \<or> trusted)"

text \<open>The guard of the link's confirm route.\<close>

definition origin_allowed :: "string option \<Rightarrow> string option \<Rightarrow> string \<Rightarrow> bool" where
  "origin_allowed fetch_site origin expected =
     (if fetch_site \<noteq> None \<and> lower (strip (the fetch_site)) \<notin> set trusted_fetch_sites then False
      else (case origin of
          None \<Rightarrow> True
        | Some og \<Rightarrow> if lower (strip og) = ''null'' then fetch_site \<noteq> None
            else lower (rstrip_slash og) = expected))"

text \<open>The web client's guard: a bearer token decides if one is sent, else the fixed header.\<close>

definition require_public_client_token ::
    "string option \<Rightarrow> string \<Rightarrow> string option \<Rightarrow> string option \<Rightarrow> string option \<Rightarrow> string list
      \<Rightarrow> auth_error + user_id" where
  "require_public_client_token bearer token client_header fetch_site origin allowed =
     (case bearer of
        None \<Rightarrow> if client_header \<noteq> Some ''web'' then Inl Auth_needed
          else if \<not> is_same_site_request fetch_site origin allowed then Inl Auth_needed
          else Inr ''demo_user''
      | Some b \<Rightarrow> if b \<noteq> token then Inl Auth_needed else Inr ''demo_user'')"

definition require_admin_api_key :: "string \<Rightarrow> string option \<Rightarrow> auth_error + user_id" where
  "require_admin_api_key expected given =
     (if expected = [] then Inl Server_failure
      else (case given of None \<Rightarrow> Inl Auth_needed
       | Some k \<Rightarrow> if k = [] then Inl Auth_needed
           else if k \<noteq> expected then Inl Auth_needed else Inr ''admin''))"

section \<open>The environment of a route\<close>

record env =
  e_sha :: "string \<Rightarrow> string"
  e_hmac :: "string \<Rightarrow> string \<Rightarrow> string"
  e_verify :: "string \<Rightarrow> string \<Rightarrow> bool" \<comment> \<open>password, stored hash\<close>
  e_sessions :: session_settings
  e_limits :: limiter_settings
  e_gate :: gate
  e_mail :: bool \<comment> \<open>an email provider is configured\<close>

record visit =
  v_cookie :: "string option"
  v_now :: timestamp
  v_mint :: mint
  v_limiter :: ambient
  v_hash :: string

type_synonym site_state = "site_db \<times> limiter_state"

section \<open>Addresses\<close>

definition looks_like_email :: "string \<Rightarrow> bool" where
  "looks_like_email v =
     (if list_ex py_isspace v then False
      else (case partition_on (CHR ''@'') v of (local, sep, domain) \<Rightarrow>
        if \<not> sep \<or> local = [] \<or> domain = [] \<or> CHR ''@'' \<in> set domain then False
        else CHR ''.'' \<in> set domain \<and> hd domain \<noteq> CHR ''.'' \<and> last domain \<noteq> CHR ''.''))"

definition normalize_email :: "string \<Rightarrow> auth_error + string" where
  "normalize_email raw =
     (let e = lower (strip raw) in if looks_like_email e then Inr e else Inl Bad_request)"

definition mark_email_verified :: "user_id \<Rightarrow> string option \<Rightarrow> timestamp \<Rightarrow> site_db \<Rightarrow> bool \<times> site_db" where
  "mark_email_verified u proven now db =
     (case proven of None \<Rightarrow> (False, db)
      | Some p \<Rightarrow> if p = [] then (False, db)
         else (case get_user db u of None \<Rightarrow> (False, db)
           | Some r \<Rightarrow>
              if u_email r = None \<or> u_email r \<noteq> Some (lower (strip p)) then (False, db)
              else (True, if u_verified_at r = None
                then db\<lparr>users := tput u_id (r\<lparr>u_verified_at := Some now\<rparr>) (users db)\<rparr> else db)))"

text \<open>The limiter in front of a step: its refusal is the answer.\<close>

definition limited ::
    "(limiter_state \<Rightarrow> (limit_error + unit) \<times> limiter_state)
      \<Rightarrow> (site_state \<Rightarrow> (auth_error + 'a) \<times> site_state) \<Rightarrow> site_state
      \<Rightarrow> (auth_error + 'a) \<times> site_state" where
  "limited check step st =
     (case st of (db, lm) \<Rightarrow>
       (case check lm of (Inl e, lm') \<Rightarrow> (Inl (Rate_limited_by e), (db, lm'))
        | (Inr ok, lm') \<Rightarrow> step (db, lm')))"

text \<open>A step on the database alone, which commits only if it succeeded.\<close>

definition committed ::
    "(site_db \<Rightarrow> auth_error + 'a \<times> site_db) \<Rightarrow> site_state \<Rightarrow> (auth_error + 'a) \<times> site_state" where
  "committed step st =
     (case st of (db, lm) \<Rightarrow>
       (case step db of Inl e \<Rightarrow> (Inl e, (db, lm)) | Inr (a, db') \<Rightarrow> (Inr a, (db', lm))))"

section \<open>Register, login, logout\<close>

definition sign_in ::
    "env \<Rightarrow> visit \<Rightarrow> user_id \<Rightarrow> string \<Rightarrow> site_db \<Rightarrow> auth_error + string \<times> site_db" where
  "sign_in e v u event db =
     and_then (claim_and_login (e_sha e) (e_sessions e) (e_gate e) (v_mint v) (v_now v) (v_cookie v) u None db)
       (\<lambda>(c, db'). Inr (c, audit (Some u) ''login'' event db'))"

definition register_route ::
    "env \<Rightarrow> visit \<Rightarrow> string \<Rightarrow> string \<Rightarrow> site_state \<Rightarrow> (auth_error + string) \<times> site_state" where
  "register_route e v raw password st =
     (if length raw < 3 \<or> length raw > 255 \<or> length password < 8 \<or> length password > 128
      then (Inl Bad_request, st)
      else (case normalize_email raw of
         Inl err \<Rightarrow> (Inl err, st)
       | Inr email \<Rightarrow>
           limited (enforce_auth_login_rate_limit (e_hmac e) email (e_limits e) (v_limiter v))
             (committed (\<lambda>db.
                if user_with_email db email \<noteq> None then Inl Bad_request
                else (let u = ''usr_'' @ new_user (v_mint v);
                          db1 = db\<lparr>users := users db @ [\<lparr>u_id = u, u_email = Some email,
                            u_password_hash = Some (v_hash v), u_verified_at = None,
                            u_created_at = v_now v\<rparr>]\<rparr>
                      in sign_in e v u ''register'' db1))) st))"

definition login_route ::
    "env \<Rightarrow> visit \<Rightarrow> string \<Rightarrow> string \<Rightarrow> site_state \<Rightarrow> (auth_error + string) \<times> site_state" where
  "login_route e v raw password st =
     (if length raw < 3 \<or> length raw > 255 \<or> length password < 1 \<or> length password > 128
      then (Inl Bad_request, st)
      else (case normalize_email raw of
         Inl err \<Rightarrow> (Inl err, st)
       | Inr email \<Rightarrow>
           limited (enforce_auth_login_rate_limit (e_hmac e) email (e_limits e) (v_limiter v))
             (committed (\<lambda>db. case user_with_email db email of
                None \<Rightarrow> Inl Auth_needed
              | Some r \<Rightarrow> (case u_password_hash r of
                   None \<Rightarrow> Inl Auth_needed
                 | Some h \<Rightarrow> if e_verify e password h then sign_in e v (u_id r) ''login'' db
                     else Inl Auth_needed))) st))"

definition logout_route :: "env \<Rightarrow> visit \<Rightarrow> site_state \<Rightarrow> (auth_error + unit) \<times> site_state" where
  "logout_route e v =
     committed (\<lambda>db. and_then (revoke_current_session (e_sha e) (e_gate e) (v_now v) (v_cookie v) db)
       (\<lambda>(who, db'). Inr ((), case who of None \<Rightarrow> db' | Some u \<Rightarrow> audit (Some u) ''login'' ''logout'' db')))"

section \<open>The password\<close>

definition set_password ::
    "user_id \<Rightarrow> string \<Rightarrow> auth_session \<Rightarrow> string \<Rightarrow> site_db \<Rightarrow> site_db" where
  "set_password u h row event db =
     (let db1 = db\<lparr>users := map (\<lambda>r. if u_id r = u then r\<lparr>u_password_hash := Some h\<rparr> else r) (users db)\<rparr>;
          db2 = snd (revoke_other_sessions u (as_id row) db1);
          db3 = db2\<lparr>magic_links := tdel (\<lambda>m. ml_user m = u) (magic_links db2),
                    auth_sessions := map (\<lambda>r. if as_id r = as_id row then r\<lparr>as_magic_at := None\<rparr> else r)
                      (auth_sessions db2)\<rparr>
      in audit (Some u) ''login'' event db3)"

text \<open>The notice is throttled per address; the change is not.\<close>

definition notice :: "env \<Rightarrow> visit \<Rightarrow> user \<Rightarrow> limiter_state \<Rightarrow> limiter_state" where
  "notice e v r lm =
     (if e_mail e \<and> has_address r
      then snd (email_notice_allowed (e_hmac e) (the (u_email r)) (e_limits e) (v_limiter v) lm) else lm)"

definition update_password ::
    "env \<Rightarrow> visit \<Rightarrow> string option \<Rightarrow> string \<Rightarrow> site_state \<Rightarrow> (auth_error + unit) \<times> site_state" where
  "update_password e v current_password new_password st =
     (case st of (db, lm) \<Rightarrow>
       if length new_password < 8 \<or> length new_password > 128
           \<or> (case current_password of None \<Rightarrow> False | Some p \<Rightarrow> length p > 128) then (Inl Bad_request, st)
       else (case try_resolve_auth_session (e_sha e) (e_gate e) (v_now v) db (v_cookie v) of
          Inl err \<Rightarrow> (Inl err, st)
        | Inr None \<Rightarrow> (Inl Auth_needed, st)
        | Inr (Some row) \<Rightarrow>
            if \<not> is_registered_principal (as_user row) then (Inl Auth_needed, st)
            else (case get_user db (as_user row) of
               None \<Rightarrow> (Inl Server_failure, st)
             | Some r \<Rightarrow>
                (let finish = (\<lambda>event (db', lm'). (Inr (), (set_password (u_id r) (v_hash v) row event db',
                                 notice e v r lm')))
                 in (case u_password_hash r of
                    None \<Rightarrow> finish ''password_set'' st
                  | Some h \<Rightarrow>
                      if step_up_active (e_sessions e) (v_now v) row then finish ''password_changed'' st
                      else limited (enforce_password_change_rate_limit (u_id r) (e_limits e) (v_limiter v))
                        (\<lambda>(db', lm'). (case current_password of
                             None \<Rightarrow> (Inl Bad_request, (db', lm'))
                           | Some p \<Rightarrow>
                               if p = [] then (Inl Bad_request, (db', lm'))
                               else if e_verify e p h then finish ''password_changed'' (db', lm')
                               else (Inl Bad_request,
                                 (audit (Some (u_id r)) ''auth_failed'' ''password_current_mismatch'' db', lm'))))
                        st)))))"

section \<open>Deleting one's own account\<close>

definition delete_my_account ::
    "env \<Rightarrow> deletion_world \<Rightarrow> visit \<Rightarrow> string \<Rightarrow> site_db \<times> deletion_list
      \<Rightarrow> (auth_error + unit) \<times> site_db \<times> deletion_list" where
  "delete_my_account e w v shown st =
     (case st of (db, l) \<Rightarrow>
       (case try_resolve_auth_session (e_sha e) (e_gate e) (v_now v) db (v_cookie v) of
          Inl err \<Rightarrow> (Inl err, st)
        | Inr None \<Rightarrow> (Inl Auth_needed, st)
        | Inr (Some row) \<Rightarrow>
            if \<not> is_registered_principal (as_user row) then (Inl Auth_needed, st)
            else if shown \<noteq> as_user row then (Inl Bad_request, st)
            else if \<not> step_up_active (e_sessions e) (v_now v) row then (Inl Verification_first, st)
            else (let db1 = audit None ''login'' ''account_deleted'' db
                  in (case delete_account (e_sha e) w None (Some (as_user row)) (v_now v) (db1, l) of
                     (Inr rep, st') \<Rightarrow> (Inr (), st')
                   | (Inl Commit_failed, db', l') \<Rightarrow> (Inl Server_failure, if db' = db1 then db else db', l')
                   | (Inl err, db', l') \<Rightarrow>
                       (Inl (case err of Subscription_still_live ss \<Rightarrow> Still_subscribed
                           | Account_not_found \<Rightarrow> Auth_needed | List_unavailable \<Rightarrow> Unavailable
                           | _ \<Rightarrow> Server_failure), db, l')))))"

section \<open>The emailed link\<close>

definition magic_link_request ::
    "env \<Rightarrow> visit \<Rightarrow> string \<Rightarrow> site_state \<Rightarrow> (auth_error + unit) \<times> site_state" where
  "magic_link_request e v raw st =
     (if length raw < 3 \<or> length raw > 255 then (Inl Bad_request, st)
      else if \<not> e_mail e then (Inl Not_there, st)
      else (case normalize_email raw of
         Inl err \<Rightarrow> (Inl err, st)
       | Inr email \<Rightarrow>
          limited (enforce_magic_link_interval (e_hmac e) email (e_limits e) (v_limiter v))
           (limited (enforce_magic_link_rate_limit (e_hmac e) email (e_limits e) (v_limiter v))
             (committed (\<lambda>db. Inr ((), case user_with_email db email of
                 None \<Rightarrow> audit None ''auth_failed'' ''magic_link_unknown_email'' db
               | Some r \<Rightarrow> audit (Some (u_id r)) ''login'' ''magic_link_requested''
                   (db\<lparr>magic_links := tdel (\<lambda>m. ml_user m = u_id r) (magic_links db) @
                      [\<lparr>ml_id = new_id (v_mint v), ml_secret_hash = e_sha e (new_secret (v_mint v)),
                        ml_user = u_id r, ml_expires_at = v_now v
                          + microseconds (magic_link_ttl_seconds (e_sessions e))\<rparr>]\<rparr>))))) st))"

definition parse_token :: "string \<Rightarrow> (string \<times> string) option" where
  "parse_token value =
     (if value = [] \<or> length value > 128 then None
      else (case partition_on (CHR ''.'') value of (id_part, sep, secret) \<Rightarrow>
        if secret = [] then None
        else (case uuid_of_hex id_part of None \<Rightarrow> None | Some i \<Rightarrow> Some (i, secret))))"

definition link_is_live :: "(string \<Rightarrow> string) \<Rightarrow> timestamp \<Rightarrow> site_db \<Rightarrow> string \<Rightarrow> bool" where
  "link_is_live sha now db token =
     (case parse_token token of None \<Rightarrow> False
      | Some (i, secret) \<Rightarrow> (case tget ml_id (magic_links db) i of None \<Rightarrow> False
         | Some row \<Rightarrow> sha secret = ml_secret_hash row \<and> ml_expires_at row > now))"

text \<open>\<open>DELETE \<dots> WHERE token_id AND secret_hash \<dots> RETURNING\<close>, committed at once.\<close>

definition claim_token ::
    "(string \<Rightarrow> string) \<Rightarrow> string \<Rightarrow> string \<Rightarrow> site_db \<Rightarrow> magic_link_token option \<times> site_db" where
  "claim_token sha i secret db =
     (let hit = (\<lambda>m. ml_id m = i \<and> ml_secret_hash m = sha secret)
      in (List.find hit (magic_links db), db\<lparr>magic_links := tdel hit (magic_links db)\<rparr>))"

definition auth_failed :: "string \<Rightarrow> site_db \<Rightarrow> site_db" where
  "auth_failed event db = audit None ''auth_failed'' event db"

text \<open>
  The confirm route: \<open>None\<close> is the redirect to the error page, \<open>Some c\<close> the redirect home with the
  cookie \<open>c\<close>. What follows the claim commits or is rolled back without the claim.
\<close>

definition magic_link_confirm ::
    "env \<Rightarrow> visit \<Rightarrow> string option \<Rightarrow> string option \<Rightarrow> string \<Rightarrow> string \<Rightarrow> site_state
      \<Rightarrow> (auth_error + string option) \<times> site_state" where
  "magic_link_confirm e v fetch_site origin expected form_token st =
     (case st of (db, lm) \<Rightarrow>
       if \<not> origin_allowed fetch_site origin expected
       then (Inr None, (auth_failed ''magic_link_origin_rejected'' db, lm))
       else (case parse_token (take 128 form_token) of
          None \<Rightarrow> (Inr None, (auth_failed ''magic_link_invalid'' db, lm))
        | Some (i, secret) \<Rightarrow>
           (case claim_token (e_sha e) i secret db of
              (None, db1) \<Rightarrow> (Inr None, (auth_failed ''magic_link_invalid'' db1, lm))
            | (Some row, db1) \<Rightarrow>
                if ml_expires_at row \<le> v_now v
                then (Inr None, (auth_failed ''magic_link_expired'' db1, lm))
                else (case get_user db1 (ml_user row) of
                   None \<Rightarrow> (Inr None, (auth_failed ''magic_link_invalid'' db1, lm))
                 | Some r \<Rightarrow>
                    (case claim_and_login (e_sha e) (e_sessions e) (e_gate e) (v_mint v) (v_now v)
                        (v_cookie v) (u_id r) (Some (v_now v))
                        (snd (mark_email_verified (u_id r) (u_email r) (v_now v) db1)) of
                       Inl err \<Rightarrow> (Inl err, (db1, lm))
                     | Inr (c, db2) \<Rightarrow>
                         (Inr (Some c), (audit (Some (u_id r)) ''login'' ''magic_link'' db2, notice e v r lm)))))))"

section \<open>All of it, request by request\<close>

datatype request =
    Visit_page
  | Register string string
  | Login string string
  | Logout
  | Set_password "string option" string
  | Link_request string
  | Link_confirm "string option" "string option" string string

definition visit_page :: "env \<Rightarrow> visit \<Rightarrow> site_state \<Rightarrow> (auth_error + user_id) \<times> site_state" where
  "visit_page e v = committed (\<lambda>db. and_then
     (resolve_principal (e_sha e) (e_sessions e) (e_gate e) (v_mint v) (v_now v) (v_cookie v) db)
     (\<lambda>(p, c, db'). Inr (p, db')))"

fun serve :: "env \<Rightarrow> visit \<Rightarrow> request \<Rightarrow> site_state \<Rightarrow> site_state" where
  "serve e v Visit_page st = snd (visit_page e v st)"
| "serve e v (Register raw p) st = snd (register_route e v raw p st)"
| "serve e v (Login raw p) st = snd (login_route e v raw p st)"
| "serve e v Logout st = snd (logout_route e v st)"
| "serve e v (Set_password cur new) st = snd (update_password e v cur new st)"
| "serve e v (Link_request raw) st = snd (magic_link_request e v raw st)"
| "serve e v (Link_confirm fs og ex t) st = snd (magic_link_confirm e v fs og ex t st)"

text \<open>Any requests in any environment, and deletions and re-applied deletions between them.\<close>

inductive site_reach :: "site_state \<Rightarrow> site_state \<Rightarrow> bool" where
  site_start: "site_reach st st"
| site_request: "site_reach st st' \<Longrightarrow> site_reach st (serve e v q st')"
| site_deletion: "site_reach st (db, lm) \<Longrightarrow>
    site_reach st (fst (snd (delete_my_account e w v shown (db, l))), lm)"
| site_reapply: "site_reach st (db, lm) \<Longrightarrow>
    site_reach st (fst (snd (reapply_deletions sha fails readable now (db, l))), lm)"

section \<open>What every step keeps\<close>

text \<open>
  One predicate on the two databases of a step, kept by each route because each is built from few
  writes: \<open>fk_ok\<close> (a row belongs to an account that exists) is preserved, and a chat changes owner
  only away from an anonymous visitor.
\<close>

definition fk_ok :: "site_db \<Rightarrow> bool" where
  "fk_ok db \<longleftrightarrow> as_user ` set (auth_sessions db) \<subseteq> u_id ` set (users db)
     \<and> ml_user ` set (magic_links db) \<subseteq> u_id ` set (users db)
     \<and> cs_user ` set (chat_sessions db) \<subseteq> u_id ` set (users db)
     \<and> ak_user ` set (api_keys db) \<subseteq> u_id ` set (users db)"

definition chats_kept :: "site_db \<Rightarrow> site_db \<Rightarrow> bool" where
  "chats_kept db db' \<longleftrightarrow> (\<forall>c'\<in>set (chat_sessions db'). \<exists>c\<in>set (chat_sessions db).
     cs_id c = cs_id c' \<and> (cs_user c = cs_user c' \<or> is_anonymous (cs_user c)))"

definition sound_step :: "site_db \<Rightarrow> site_db \<Rightarrow> bool" where
  "sound_step db db' \<longleftrightarrow> (fk_ok db \<longrightarrow> fk_ok db') \<and> chats_kept db db'"

lemma sound_refl [simp]: "sound_step db db"
  by (auto simp: sound_step_def chats_kept_def)

lemma sound_trans: "sound_step a b \<Longrightarrow> sound_step b c \<Longrightarrow> sound_step a c"
  unfolding sound_step_def chats_kept_def by metis

lemma sound_audit [simp]: "sound_step db (audit w a e db') \<longleftrightarrow> sound_step db db'"
  by (simp add: sound_step_def fk_ok_def chats_kept_def audit_def)

lemma sound_audit_l [simp]: "sound_step (audit w a e db) db' \<longleftrightarrow> sound_step db db'"
  by (simp add: sound_step_def fk_ok_def chats_kept_def audit_def)

lemma sound_add_user: "sound_step db (db\<lparr>users := users db @ [r]\<rparr>)"
  by (auto simp: sound_step_def fk_ok_def chats_kept_def)

lemma sound_drop_session: "sound_step db (drop_auth_session i db)"
  by (auto simp: sound_step_def fk_ok_def chats_kept_def drop_auth_session_def tdel_def)

lemma sound_drop_links: "sound_step db (db\<lparr>magic_links := tdel P (magic_links db)\<rparr>)"
  by (auto simp: sound_step_def fk_ok_def chats_kept_def tdel_def)

lemma sound_claim_chats:
  assumes "u \<in> u_id ` set (users db)"
  shows "sound_step db (claim_chats old u db)"
proof (cases "old \<noteq> u \<and> is_anonymous old")
  case True
  let ?f = "\<lambda>c. if cs_user c = old then c\<lparr>cs_user := u\<rparr> else c"
  have f: "cs_id (?f c) = cs_id c \<and> (cs_user (?f c) = cs_user c \<or> is_anonymous (cs_user c))
      \<and> cs_user (?f c) \<in> insert u {cs_user c}" for c
    using True by simp
  have "cs_user ` set (chat_sessions db) \<subseteq> u_id ` set (users db) \<Longrightarrow>
      cs_user ` set (map ?f (chat_sessions db)) \<subseteq> u_id ` set (users db)"
    using assms by (auto simp: image_subset_iff)
  moreover have "\<exists>c\<in>set (chat_sessions db). cs_id c = cs_id c' \<and>
      (cs_user c = cs_user c' \<or> is_anonymous (cs_user c))"
    if "c' \<in> set (map ?f (chat_sessions db))" for c'
  proof -
    from that obtain c where "c \<in> set (chat_sessions db)" "c' = ?f c" by (auto simp: image_iff)
    with f [of c] show ?thesis by metis
  qed
  ultimately show ?thesis
    using True by (simp add: sound_step_def fk_ok_def chats_kept_def claim_chats_def)
qed (auto simp: claim_chats_def)

lemma sound_create_session:
  "u \<in> u_id ` set (users db) \<Longrightarrow> sound_step db (snd (create_auth_session sha s m u magic now db))"
  by (auto simp: sound_step_def fk_ok_def chats_kept_def create_auth_session_def)

lemma sound_users: "u_id ` set us = u_id ` set (users db) \<Longrightarrow> sound_step db (db\<lparr>users := us\<rparr>)"
  by (auto simp: sound_step_def fk_ok_def chats_kept_def)

lemma users_frames [simp]:
  "users (claim_chats o' n db) = users db"
  "users (drop_auth_session i db) = users db"
  "users (audit w a ev db) = users db"
  by (simp_all add: claim_chats_def drop_auth_session_def audit_def)

lemma sound_delete_user: "sound_step db (delete_user u db)"
  by (auto simp: sound_step_def fk_ok_def chats_kept_def delete_user_def tdel_def)

lemma sound_remove_account: "sound_step db (snd (remove_account sha db r p t))"
proof -
  have "sound_step db (db\<lparr>tombstones := ts\<rparr>)" for ts
    by (auto simp: sound_step_def fk_ok_def chats_kept_def)
  from sound_trans [OF this sound_delete_user]
  have "sound_step db (delete_user (u_id r) (db\<lparr>tombstones := ts\<rparr>))" for ts .
  then show ?thesis by (simp add: remove_account_def sound_delete_user Let_def)
qed

lemma sound_claim_and_login:
  assumes "claim_and_login sha s g m now cookie u magic db = Inr (c, db')" and "u \<in> u_id ` set (users db)"
  shows "sound_step db db'"
proof -
  from assms(1) obtain old :: "auth_session option" where old: "(c, db') = create_auth_session sha s m u magic now
      (case old of None \<Rightarrow> db
       | Some row \<Rightarrow> drop_auth_session (as_id row) (claim_chats (as_user row) u db))"
    by (rule claim_and_login_cases) (erule that)
  let ?db1 = "case old of None \<Rightarrow> db
       | Some row \<Rightarrow> drop_auth_session (as_id row) (claim_chats (as_user row) u db)"
  have "sound_step db ?db1"
    using sound_trans [OF sound_claim_chats [OF assms(2)] sound_drop_session] by (cases old) auto
  moreover have "u \<in> u_id ` set (users ?db1)"
    using assms(2) by (cases old) simp_all
  ultimately have "sound_step db (snd (create_auth_session sha s m u magic now ?db1))"
    using sound_trans sound_create_session by blast
  then show ?thesis by (simp flip: old)
qed

lemma sound_sign_in:
  assumes "sign_in e v u event db = Inr (c, db')" and "u \<in> u_id ` set (users db)"
  shows "sound_step db db'"
proof -
  obtain db1 where "claim_and_login (e_sha e) (e_sessions e) (e_gate e) (v_mint v) (v_now v) (v_cookie v)
      u None db = Inr (c, db1)" "db' = audit (Some u) ''login'' event db1"
    using assms(1) by (auto simp: sign_in_def and_then_Inr_iff)
  with sound_claim_and_login [OF this(1) assms(2)] show ?thesis by simp
qed

lemma sound_limited:
  assumes "\<And>lm'. sound_step db (fst (snd (step (db, lm'))))"
  shows "sound_step db (fst (snd (limited check step (db, lm))))"
  using assms by (auto simp: limited_def split: prod.splits sum.splits)

lemma sound_committed:
  assumes "\<And>a db'. step db = Inr (a, db') \<Longrightarrow> sound_step db db'"
  shows "sound_step db (fst (snd (committed step (db, lm))))"
  using assms by (auto simp: committed_def split: sum.splits)

lemma user_with_email_Some:
  "user_with_email db em = Some r \<Longrightarrow> r \<in> set (users db) \<and> u_email r = Some em"
  "user_with_email db em = Some r \<Longrightarrow> u_id r \<in> u_id ` set (users db)"
  by (auto simp: user_with_email_def dest: find_Some_iff_nth)

lemma sound_set_password: "sound_step db (set_password u h row ev db)"
proof -
  let ?us = "map (\<lambda>r. if u_id r = u then r\<lparr>u_password_hash := Some h\<rparr> else r) (users db)"
  have "u_id ` set ?us = u_id ` set (users db)"
  proof -
    have "u_id (if u_id r = u then r\<lparr>u_password_hash := Some h\<rparr> else r) = u_id r" for r :: user
      by simp
    then show ?thesis by (simp only: set_map image_image)
  qed
  then show ?thesis
    by (auto simp: set_password_def sound_step_def fk_ok_def chats_kept_def revoke_other_sessions_def
        audit_def tdel_def Let_def)
qed

lemma sound_visit_page: "sound_step db (fst (snd (visit_page e v (db, lm))))"
  unfolding visit_page_def
proof (rule sound_committed)
  fix p db'
  assume "and_then (resolve_principal (e_sha e) (e_sessions e) (e_gate e) (v_mint v) (v_now v) (v_cookie v) db)
     (\<lambda>(p, c, db'). Inr (p, db')) = Inr (p, db')"
  then have "db' = db \<or> db' = snd (snd (mint_principal (e_sha e) (e_sessions e) (v_mint v) (v_now v) db))"
    by (auto simp: resolve_principal_def and_then_Inr_iff split: option.splits prod.splits)
  moreover have "sound_step db (snd (snd (mint_principal (e_sha e) (e_sessions e) (v_mint v) (v_now v) db)))"
    unfolding mint_principal_def Let_def snd_conv
    by (rule sound_trans [OF sound_add_user sound_create_session]) simp
  ultimately show "sound_step db db'" by auto
qed

lemma sound_register: "sound_step db (fst (snd (register_route e v raw p (db, lm))))"
proof -
  have "sound_step db db'" if "sign_in e v u ''register'' (db\<lparr>users := users db @ [r]\<rparr>) = Inr (c, db')"
    and "u_id r = u" for db' c u r
    using sound_trans [OF sound_add_user sound_sign_in [OF that(1)]] that(2) by simp
  then show ?thesis
    unfolding register_route_def
    by (auto split: sum.split if_splits simp: Let_def intro!: sound_limited sound_committed)
qed

lemma sound_login: "sound_step db (fst (snd (login_route e v raw p (db, lm))))"
  unfolding login_route_def
  by (auto split: sum.split option.splits if_splits dest: user_with_email_Some(2)
      intro!: sound_limited sound_committed elim!: sound_sign_in)

lemma sound_logout: "sound_step db (fst (snd (logout_route e v (db, lm))))"
  unfolding logout_route_def
  by (rule sound_committed)
    (auto simp: and_then_Inr_iff revoke_current_session_def sound_drop_session split: option.splits)

lemma sound_update_password: "sound_step db (fst (snd (update_password e v cur new (db, lm))))"
  unfolding update_password_def
  by (auto simp: Let_def sound_set_password split: sum.split option.split intro!: sound_limited)

lemma sound_link_request: "sound_step db (fst (snd (magic_link_request e v raw (db, lm))))"
proof -
  have add: "sound_step db (db\<lparr>magic_links := tdel P (magic_links db) @
      [\<lparr>ml_id = i, ml_secret_hash = h, ml_user = u_id r, ml_expires_at = t\<rparr>]\<rparr>)"
    if "user_with_email db em = Some r" for P i h r t em
    using user_with_email_Some(2) [OF that]
    by (auto simp: sound_step_def fk_ok_def chats_kept_def tdel_def)
  show ?thesis
    unfolding magic_link_request_def
    by (auto split: sum.split option.splits if_splits
        intro!: sound_limited sound_committed intro: add)
qed

lemma mark_email_verified_db:
  obtains us where "snd (mark_email_verified u p now db) = db\<lparr>users := us\<rparr>"
    and "u_id ` set us = u_id ` set (users db)"
proof -
  have same: "snd (mark_email_verified u p now db) = db\<lparr>users := users db\<rparr> \<or>
      (\<exists>r. get_user db u = Some r \<and> snd (mark_email_verified u p now db) =
        db\<lparr>users := tput u_id (r\<lparr>u_verified_at := Some now\<rparr>) (users db)\<rparr>)"
    by (auto simp: mark_email_verified_def split: option.split)
  have "u_id ` set (tput u_id (r\<lparr>u_verified_at := Some now\<rparr>) (users db)) = u_id ` set (users db)"
    if "get_user db u = Some r" for r
  proof -
    have "map u_id (tput u_id (r\<lparr>u_verified_at := Some now\<rparr>) (users db)) = map u_id (users db)"
      using that get_user_Some [OF that] by (simp add: keys_tput get_user_def)
    then show ?thesis by (metis list.set_map)
  qed
  with same that show thesis by blast
qed

lemma sound_link_confirm:
  "sound_step db (fst (snd (magic_link_confirm e v fs og ex t (db, lm))))"
proof -
  have drop: "sound_step db (db\<lparr>magic_links := tdel P (magic_links db)\<rparr>)" for P
    by (rule sound_drop_links)
  have "sound_step db db2"
    if "get_user (db\<lparr>magic_links := ms\<rparr>) u = Some r" "ms = tdel P (magic_links db)"
      "claim_and_login sha s g m now cookie (u_id r) magic
         (snd (mark_email_verified (u_id r) (u_email r) now' (db\<lparr>magic_links := ms\<rparr>))) = Inr (c, db2)"
    for ms u r P sha s g m now cookie magic now' c db2
  proof -
    let ?db1 = "db\<lparr>magic_links := ms\<rparr>"
    obtain us where us: "snd (mark_email_verified (u_id r) (u_email r) now' ?db1) = ?db1\<lparr>users := us\<rparr>"
      "u_id ` set us = u_id ` set (users ?db1)"
      by (rule mark_email_verified_db)
    have "u_id r \<in> u_id ` set us" using get_user_Some [OF that(1)] us(2) by auto
    then have "sound_step (?db1\<lparr>users := us\<rparr>) db2"
      using sound_claim_and_login [OF that(3) [unfolded us(1)]] by simp
    moreover have "sound_step ?db1 (?db1\<lparr>users := us\<rparr>)" using us(2) by (rule sound_users)
    ultimately show ?thesis using drop that(2) sound_trans by blast
  qed
  then show ?thesis
    by (auto simp: magic_link_confirm_def claim_token_def auth_failed_def Let_def drop
        split: option.split sum.split prod.split)
qed

lemma sound_serve: "sound_step (fst st) (fst (serve e v q st))"
  using sound_visit_page sound_register sound_login sound_logout sound_update_password
    sound_link_request sound_link_confirm
  by (cases q; cases st) auto

lemma sound_delete_account: "sound_step db (fst (snd (delete_account sha w em uid now (db, l))))"
  by (auto simp: delete_account_def Let_def case_prod_unfold sound_remove_account
      split: sum.split wire.split)

lemma sound_delete_my_account: "sound_step db (fst (snd (delete_my_account e w v shown (db, l))))"
proof -
  have "sound_step db db'"
    if "delete_account (e_sha e) w None (Some u) (v_now v) (audit None ''login'' ''account_deleted'' db, l) =
      (res, db', l')" for u res db' l'
    using sound_delete_account [of "audit None ''login'' ''account_deleted'' db" "e_sha e" w None
        "Some u" "v_now v" l] that by simp
  then show ?thesis
    unfolding delete_my_account_def Let_def
    by (auto split: sum.split option.split prod.split deletion_error.split)
qed

lemma sound_reapply_one: "sound_step (fst st) (fst (reapply_one sha fails entries u st))"
  by (cases st) (auto simp: reapply_one_def sound_remove_account split: sum.split deletion_error.split)

lemma sound_reapply: "sound_step db (fst (snd (reapply_deletions sha fails readable now (db, l))))"
proof -
  have "sound_step (fst st) (fst (fold (reapply_one sha fails entries) us st))" for entries us st
  proof (induction us arbitrary: st)
    case (Cons u us)
    show ?case using sound_trans [OF sound_reapply_one Cons.IH] by simp
  qed simp
  from this [of "(db, 0, 0)"] show ?thesis
    by (auto simp: reapply_deletions_def Let_def case_prod_unfold)
qed

lemma site_reach_sound: "site_reach st st' \<Longrightarrow> sound_step (fst st) (fst st')"
proof (induction rule: site_reach.induct)
  case (site_request st st' e v q)
  then show ?case using sound_serve sound_trans by blast
next
  case (site_deletion st db lm e w v shown l)
  then show ?case using sound_delete_my_account sound_trans by fastforce
next
  case (site_reapply st db lm sha fails readable now l)
  then show ?case using sound_reapply sound_trans by fastforce
qed simp

section \<open>Properties\<close>

text \<open>C9: Whatever anybody does at the sign-in routes, in any order and any number of browsers, with
  deletions and re-applied deletions in between: a chat that belongs to an account stays with that
  account or goes with it, and never ends up with another account; and every session, link, key and
  chat always belongs to an account that exists, so a live cookie never leads to a missing user.\<close>
theorem chats_stay_with_their_account:
  assumes "site_reach (db, lm) (db', lm')" and "fk_ok db"
  shows "fk_ok db'
    \<and> (\<forall>c'\<in>set (chat_sessions db'). \<exists>c\<in>set (chat_sessions db). cs_id c = cs_id c'
          \<and> (is_registered_principal (cs_user c) \<longrightarrow> cs_user c' = cs_user c))
    \<and> (\<forall>e v row. try_resolve_auth_session (e_sha e) (e_gate e) (v_now v) db' (v_cookie v) = Inr (Some row)
          \<longrightarrow> get_user db' (as_user row) \<noteq> None)"
proof -
  have sound: "sound_step db db'" using site_reach_sound [OF assms(1)] by simp
  then have fk: "fk_ok db'" using assms(2) by (simp add: sound_step_def)
  have "is_registered_principal u \<Longrightarrow> \<not> is_anonymous u" for u
  proof
    assume "is_registered_principal u" "is_anonymous u"
    then have "hd (take 4 u) = CHR ''u''" "hd (take 5 u) = CHR ''a''"
      by (simp_all add: is_registered_principal_def is_anonymous_def)
    then show False by (cases u) auto
  qed
  moreover have "chats_kept db db'" using sound by (simp add: sound_step_def)
  ultimately have kept: "\<forall>c'\<in>set (chat_sessions db'). \<exists>c\<in>set (chat_sessions db). cs_id c = cs_id c'
          \<and> (is_registered_principal (cs_user c) \<longrightarrow> cs_user c' = cs_user c)"
    unfolding chats_kept_def by metis
  have "get_user db' (as_user row) \<noteq> None"
    if "try_resolve_auth_session (e_sha e) (e_gate e) (v_now v) db' (v_cookie v) = Inr (Some row)" for e v row
  proof -
    from try_resolve_Some [OF that] obtain c where
      "lookup_auth_session (e_sha e) (e_gate e) (v_now v) db' c = Inr (Some row)" by blast
    then have "tget as_id (auth_sessions db') (as_id row) = Some row" by (rule lookup_Some)
    then have "row \<in> set (auth_sessions db')" by (auto dest: tget_Some)
    with fk show ?thesis by (auto simp: fk_ok_def get_user_def tget_None_iff)
  qed
  with fk kept show ?thesis by blast
qed

definition demo_env :: env where
  "demo_env = \<lparr>e_sha = id, e_hmac = (\<lambda>k m. m), e_verify = (\<lambda>p h. p = h), e_sessions = demo_sessions,
     e_limits = demo_limits\<lparr>redis_url := ''''\<rparr>, e_gate = open_gate, e_mail = True\<rparr>"

definition demo_visit :: "char \<Rightarrow> string option \<Rightarrow> visit" where
  "demo_visit c cookie = \<lparr>v_cookie = cookie, v_now = 5, v_mint = demo_mint c,
     v_limiter = at_time 1 [c], v_hash = ''password''\<rparr>"

theorem chats_stay_with_their_account_witness:
  "fk_ok (fst (serve demo_env (demo_visit CHR ''b'' (Some visitor_cookie)) (Register ''x@y.z'' ''password'')
     (visitor_db, empty_process)))"
proof -
  let ?st = "serve demo_env (demo_visit CHR ''b'' (Some visitor_cookie)) (Register ''x@y.z'' ''password'')
     (visitor_db, empty_process)"
  have "site_reach (visitor_db, empty_process) (fst ?st, snd ?st)"
    unfolding prod.collapse by (rule site_request [OF site_start])
  moreover have "fk_ok visitor_db" by code_simp
  ultimately show ?thesis using chats_stay_with_their_account by blast
qed

lemma resolve_cong:
  assumes "auth_sessions db = auth_sessions db'"
  shows "try_resolve_principal sha g now db c = try_resolve_principal sha g now db' c"
proof -
  have "lookup_auth_session sha g now db = lookup_auth_session sha g now db'"
    by (rule ext) (unfold lookup_auth_session_def assms, rule refl)
  then show ?thesis by (cases c) (simp_all add: try_resolve_principal_def try_resolve_auth_session_def)
qed

text \<open>A password login succeeds only for the account with that address and with its password, and
  the cookie it sets is that account's; the limiter is asked first, and a failed login changes
  nothing in the database.\<close>
theorem login_needs_the_password:
  assumes "login_route e v raw p (db, lm) = (res, (db', lm'))" and "good_mint (v_mint v) db"
    and "0 < auth_session_ttl_seconds (e_sessions e)"
  shows "(case res of
      Inl err \<Rightarrow> db' = db
    | Inr c \<Rightarrow> \<exists>em r h. normalize_email raw = Inr em \<and> r \<in> set (users db) \<and> u_email r = Some em
        \<and> u_password_hash r = Some h \<and> e_verify e p h
        \<and> fst (enforce_auth_login_rate_limit (e_hmac e) em (e_limits e) (v_limiter v) lm) = Inr ()
        \<and> try_resolve_principal (e_sha e) (e_gate e) (v_now v) db' (Some c) = Inr (Some (u_id r)))"
proof (cases res)
  case (Inl err)
  with assms(1) show ?thesis
    by (auto simp: login_route_def limited_def committed_def split: sum.splits if_splits prod.splits option.splits)
next
  case (Inr c)
  from assms(1) Inr obtain em where em: "normalize_email raw = Inr em"
    by (auto simp: login_route_def split: sum.splits if_splits)
  obtain r h where r: "user_with_email db em = Some r" "u_password_hash r = Some h" "e_verify e p h"
    "fst (enforce_auth_login_rate_limit (e_hmac e) em (e_limits e) (v_limiter v) lm) = Inr ()"
    "sign_in e v (u_id r) ''login'' db = Inr (c, db')"
    using assms(1) Inr em
    by (auto simp: login_route_def limited_def committed_def split: sum.splits if_splits prod.splits option.splits)
  obtain db1 where db1: "claim_and_login (e_sha e) (e_sessions e) (e_gate e) (v_mint v) (v_now v)
      (v_cookie v) (u_id r) None db = Inr (c, db1)" "db' = audit (Some (u_id r)) ''login'' ''login'' db1"
    using r(5) by (auto simp: sign_in_def and_then_Inr_iff)
  have same: "auth_sessions db' = auth_sessions db1" by (simp add: db1(2) audit_def)
  have "try_resolve_principal (e_sha e) (e_gate e) (v_now v) db1 (Some c) = Inr (Some (u_id r))"
    using new_cookie_resolves [OF db1(1) assms(2,3)] .
  then have "try_resolve_principal (e_sha e) (e_gate e) (v_now v) db' (Some c) = Inr (Some (u_id r))"
    by (simp only: resolve_cong [OF same])
  with em r(1-4) Inr user_with_email_Some(1) [OF r(1)] show ?thesis by auto
qed

theorem login_needs_the_password_witness:
  "case fst (login_route demo_env (demo_visit CHR ''b'' None) ''A@b.c'' ''secret99''
      (demo_db\<lparr>users := [hd (users demo_db)\<lparr>u_password_hash := Some ''secret99''\<rparr>]\<rparr>, empty_process)) of
     Inl err \<Rightarrow> False | Inr c \<Rightarrow> c = cookie_of (replicate 32 CHR ''b'') ''b''"
proof -
  let ?db = "demo_db\<lparr>users := [hd (users demo_db)\<lparr>u_password_hash := Some ''secret99''\<rparr>]\<rparr>"
  let ?r = "login_route demo_env (demo_visit CHR ''b'' None) ''A@b.c'' ''secret99'' (?db, empty_process)"
  have r: "?r = (fst ?r, (fst (snd ?r), snd (snd ?r)))" by simp
  have "good_mint (v_mint (demo_visit CHR ''b'' None)) ?db" by code_simp
  moreover have "fst ?r = Inr (cookie_of (replicate 32 CHR ''b'') ''b'')" by code_simp
  ultimately show ?thesis using login_needs_the_password [OF r]
    by (auto simp: demo_env_def demo_sessions_def)
qed

text \<open>C10: A password changes only on proof. When the route reports success, the caller's own live session
  named the account, and the account had no password yet, or that session was opened by an emailed
  link within the step-up window, or the current password was given; the new hash is on that
  account and no other, all its other sessions and pending links are gone, and the step-up is spent.
  When it reports an error no password and no session changed.\<close>
theorem password_changes_only_on_proof:
  assumes "update_password e v cur new (db, lm) = (res, (db', lm'))"
  shows "(case res of
      Inl err \<Rightarrow> users db' = users db \<and> auth_sessions db' = auth_sessions db
    | Inr ok \<Rightarrow> \<exists>row r. try_resolve_auth_session (e_sha e) (e_gate e) (v_now v) db (v_cookie v) = Inr (Some row)
        \<and> is_registered_principal (as_user row) \<and> get_user db (as_user row) = Some r
        \<and> (u_password_hash r = None \<or> step_up_active (e_sessions e) (v_now v) row
             \<or> (\<exists>p h. cur = Some p \<and> u_password_hash r = Some h \<and> e_verify e p h))
        \<and> get_user db' (as_user row) = Some (r\<lparr>u_password_hash := Some (v_hash v)\<rparr>)
        \<and> (\<forall>u. u \<noteq> as_user row \<longrightarrow> get_user db' u = get_user db u)
        \<and> (\<forall>x\<in>set (auth_sessions db'). as_user x = as_user row \<longrightarrow>
             as_id x = as_id row \<and> \<not> step_up_active (e_sessions e) (v_now v) x)
        \<and> as_user row \<notin> ml_user ` set (magic_links db'))"
proof (cases res)
  case (Inl err)
  with assms show ?thesis
    by (auto simp: update_password_def limited_def audit_def Let_def
        split: sum.splits option.splits if_splits prod.splits)
next
  case (Inr ok)
  obtain row r event where row: "try_resolve_auth_session (e_sha e) (e_gate e) (v_now v) db (v_cookie v) = Inr (Some row)"
    "is_registered_principal (as_user row)" "get_user db (as_user row) = Some r"
    "u_password_hash r = None \<or> step_up_active (e_sessions e) (v_now v) row
       \<or> (\<exists>p h. cur = Some p \<and> u_password_hash r = Some h \<and> e_verify e p h)"
    "db' = set_password (u_id r) (v_hash v) row event db"
    using assms Inr
    by (auto simp: update_password_def limited_def Let_def
        split: sum.splits option.splits if_splits prod.splits)
  have u: "u_id r = as_user row" using get_user_Some [OF row(3)] by simp
  let ?f = "\<lambda>x. if u_id x = as_user row then x\<lparr>u_password_hash := Some (v_hash v)\<rparr> else x"
  have "get_user db' w = map_option ?f (get_user db w)" for w
    by (simp add: row(5) u set_password_def get_user_def audit_def revoke_other_sessions_def tget_map Let_def)
  then have "get_user db' (as_user row) = Some (r\<lparr>u_password_hash := Some (v_hash v)\<rparr>)"
    and "\<forall>w. w \<noteq> as_user row \<longrightarrow> get_user db' w = get_user db w"
    using row(3) u by (auto dest: get_user_Some split: option.split intro!: map_option_idI)
  moreover have "\<forall>x\<in>set (auth_sessions db'). as_user x = as_user row \<longrightarrow>
             as_id x = as_id row \<and> \<not> step_up_active (e_sessions e) (v_now v) x"
    by (auto simp: row(5) u set_password_def audit_def revoke_other_sessions_def tdel_def Let_def
        step_up_active_def)
  moreover have "as_user row \<notin> ml_user ` set (magic_links db')"
    by (auto simp: row(5) u set_password_def audit_def revoke_other_sessions_def tdel_def Let_def)
  ultimately show ?thesis using row(1-4) Inr by auto
qed

definition member_db :: site_db where
  "member_db = demo_db\<lparr>
     users := [hd (users demo_db)\<lparr>u_password_hash := Some ''secret99''\<rparr>],
     auth_sessions := [\<lparr>as_id = replicate 32 CHR ''c'', as_secret_hash = ''c'', as_user = ''usr_1'',
        as_created_at = 0, as_expires_at = 100, as_magic_at = None\<rparr>],
     magic_links := [\<lparr>ml_id = replicate 32 CHR ''d'', ml_secret_hash = ''d'', ml_user = ''usr_1'',
        ml_expires_at = 50\<rparr>]\<rparr>"

definition member_cookie :: string where
  "member_cookie = cookie_of (replicate 32 CHR ''c'') ''c''"

theorem password_changes_only_on_proof_witness:
  "\<exists>db'. fst (snd (update_password demo_env (demo_visit CHR ''b'' (Some member_cookie)) (Some ''secret99'')
      ''password'' (member_db, empty_process))) = db'
    \<and> ''usr_1'' \<notin> ml_user ` set (magic_links db')
    \<and> (\<forall>u. u \<noteq> ''usr_1'' \<longrightarrow> get_user db' u = get_user member_db u)"
proof -
  let ?r = "update_password demo_env (demo_visit CHR ''b'' (Some member_cookie)) (Some ''secret99'')
      ''password'' (member_db, empty_process)"
  have r: "?r = (fst ?r, (fst (snd ?r), snd (snd ?r)))" by simp
  have ok: "fst ?r = Inr ()" by code_simp
  have "map_option as_user (projr (try_resolve_auth_session id open_gate 5 member_db (Some member_cookie))) =
      Some ''usr_1''" by code_simp
  then have who: "as_user row = ''usr_1''"
    if "try_resolve_auth_session id open_gate 5 member_db (Some member_cookie) = Inr (Some row)" for row
    using that by simp
  have env: "e_sha demo_env = id" "e_gate demo_env = open_gate"
    "v_now (demo_visit CHR ''b'' (Some member_cookie)) = 5"
    "v_cookie (demo_visit CHR ''b'' (Some member_cookie)) = Some member_cookie"
    by (simp_all add: demo_env_def demo_visit_def)
  have "\<exists>row. try_resolve_auth_session id open_gate 5 member_db (Some member_cookie) = Inr (Some row)
      \<and> as_user row \<notin> ml_user ` set (magic_links (fst (snd ?r)))
      \<and> (\<forall>u. u \<noteq> as_user row \<longrightarrow> get_user (fst (snd ?r)) u = get_user member_db u)"
    using password_changes_only_on_proof [OF r] unfolding ok env sum.case by blast
  with who show ?thesis by metis
qed


definition link_token :: string where
  "link_token = cookie_of (replicate 32 CHR ''d'') ''d''"


text \<open>Asking for a sign-in link does not tell whether the address is registered: the answer and what
  the limiter records are the same whatever the database holds.\<close>
theorem link_request_reveals_nothing:
  "fst (magic_link_request e v raw (db, lm)) = fst (magic_link_request e v raw (db', lm))
    \<and> snd (snd (magic_link_request e v raw (db, lm))) = snd (snd (magic_link_request e v raw (db', lm)))"
  by (auto simp: magic_link_request_def limited_def committed_def split: sum.split prod.split)

text \<open>An account can be deleted from the browser only with a fresh confirmation: success means the
  caller's own live session names exactly the account the page shows, that session was opened by an
  emailed link within the step-up window, and nothing of the account is left; any refusal before the
  commit leaves the database as it was.\<close>
theorem deletion_needs_fresh_confirmation:
  "(case delete_my_account e w v shown (db, l) of
      (Inr ok, db', l') \<Rightarrow> (\<exists>row t. try_resolve_auth_session (e_sha e) (e_gate e) (v_now v) db (v_cookie v) = Inr (Some row)
          \<and> as_user row = shown \<and> is_registered_principal shown \<and> as_magic_at row = Some t
          \<and> t \<le> v_now v \<and> v_now v \<le> t + microseconds (password_step_up_window_seconds (e_sessions e)))
        \<and> no_trace shown db'
    | (Inl err, db', l') \<Rightarrow> db' = db \<or> commit_call w = Reply_lost)"
proof (cases "delete_my_account e w v shown (db, l)")
  case (fields res db' l')
  let ?db1 = "audit None ''login'' ''account_deleted'' db"
  show ?thesis
  proof (cases res)
    case (Inr ok)
    with fields obtain row where row: "try_resolve_auth_session (e_sha e) (e_gate e) (v_now v) db (v_cookie v) = Inr (Some row)"
      "as_user row = shown" "is_registered_principal shown" "step_up_active (e_sessions e) (v_now v) row"
      and "\<exists>rep. delete_account (e_sha e) w None (Some shown) (v_now v) (?db1, l) = (Inr rep, db', l')"
      by (auto simp: delete_my_account_def Let_def split: sum.splits option.splits if_splits prod.splits
          deletion_error.splits)
    then obtain rep where "delete_account (e_sha e) w None (Some shown) (v_now v) (?db1, l) = (Inr rep, db', l')"
      by blast
    then obtain r where r: "find_account ?db1 None (Some shown) = Inr r"
      "remove_account (e_sha e) ?db1 r (plan (e_sha e) ?db1 r) (v_now v) = (r_total rep, db')"
      by (rule delete_account_Inr) (erule that)
    have "no_trace shown db'"
      using remove_account_no_trace [of r "e_sha e" ?db1 "plan (e_sha e) ?db1 r" "v_now v"]
        find_account_Inr(2) [OF r(1)] by (simp add: r(2))
    with row fields Inr show ?thesis by (auto simp: step_up_active_def split: option.splits)
  next
    case (Inl err)
    have "db'' = ?db1 \<or> commit_call w = Reply_lost"
      if "delete_account (e_sha e) w None (Some shown) (v_now v) (?db1, l) = (Inl er, db'', l'')" for er db'' l''
      using delete_account_Inl [OF that] by blast
    with Inl fields show ?thesis
      by (auto simp: delete_my_account_def Let_def split: sum.splits option.splits if_splits prod.splits
          deletion_error.splits)
  qed
qed

end
