(* ===== verification/Spec2Isabelle.thy ===== *)
theory Spec2Isabelle
  imports Answer_Laws Ingestion Query_Health Sign_In
begin

text \<open>
  A model of the CiteVyn backend (\<open>src/backend/app\<close>), a question-answering service over indexed
  product documentation, and of the facts that make its parts correct.

  \<^bold>\<open>The program.\<close> A question passes the access layer (who asks, how often, how much is left), is routed
  to a product, answered from retrieved chunks by a language model, checked for its citations and
  recorded. Around that path stand the accounts (sign-in, sessions, API keys, deletion), the payments
  (Stripe memberships), the cost control (prices, meter, daily budget, paid-call slots), the life of an
  index (evaluation, promotion, resolution) and the provider clients.

  \<^bold>\<open>Theories.\<close> A definition has the name of the function it translates where HOL allows it; the manifest
  names file and lines. A row of a database table is a record, a table the list of its rows, an
  exception the left summand of a sum, the clock and every random choice an argument.

  \<^item> \<open>Prelude\<close>, \<open>Json\<close>, \<open>Tables\<close>, \<open>Api_Errors\<close>, \<open>Regex\<close>: Python strings, JSON values, keyed tables
    (locale \<open>keyed_store\<close>), the error codes of \<open>core/errors.py\<close>, regular expressions with Python's
    matching order.
  \<^item> \<open>Access_Policy\<close>, \<open>Memberships\<close>, \<open>Quota\<close>: \<open>access/policy.py\<close>, \<open>billing/memberships.py\<close>,
    \<open>access/quota.py\<close>. An applied event leaves the row Stripe's own record gives, deliveries never
    move a subscription to another account, the grace clock starts once, the allowance is never exceeded.
  \<^item> \<open>Sliding_Window\<close>, \<open>Rate_Limiter\<close>: \<open>core/rate_limit.py\<close>. The window theorem is proved once in a locale
    and interpreted on the in-process deque and on the Redis script, which are shown to agree.
  \<^item> \<open>Site_Db\<close>, \<open>Account_Deletion\<close>, \<open>Auth_Sessions\<close>, \<open>Sign_In\<close>: the account tables, deletion with its
    list outside the database, sessions and keys, the sign-in routes.
  \<^item> \<open>Pricing\<close>, \<open>Cost_Budget\<close>: \<open>cost/\<close> and the client selection of \<open>llm/\<close>. Many concurrent paid calls
    are the step relation \<open>paid_step\<close>; how far they overshoot the daily limit is bounded by the calls
    admitted, and by nothing smaller.
  \<^item> \<open>Index_Promotion\<close>: \<open>services/index_versions.py\<close>, \<open>services/index_resolution.py\<close>,
    \<open>worker/promotion_eval.py\<close>. Two promotions at once are a step relation over transactions.
  \<^item> \<open>Citations\<close>, \<open>Evidence_Phrases\<close>: \<open>llm/validation.py\<close>.
  \<^item> \<open>Provider_Http\<close>, \<open>Embedding_Clients\<close>, \<open>Llm_Clients\<close>, \<open>Query_Health\<close>: the provider clients, the
    factory of the embedders and the record of a refused account.

  \<^bold>\<open>Lemmas.\<close> Each theory proves what its operations do on every branch and the invariant they keep, and
  from that its properties; a property that spans components stands in the theory that composes them.

  \<^bold>\<open>Bounds.\<close> No model runs on fuel: every recursion is structural or has a measure. A retry loop counts
  the attempts left, \<open>max_retries + 1\<close> of them, as the code does.

  \<^bold>\<open>Parameters.\<close> Hash functions, Argon2, uuid4, the providers' servers, pgvector's search and Python's
  \<open>repr\<close> are arguments of the definitions that use them. A character is a code point below 256 and a
  \<open>float\<close> the rational it denotes.

  \<^bold>\<open>Not modelled.\<close> Page rendering, mail, log lines, HTTP headers and cookies' attributes, database
  migrations, the frontend and the infrastructure scripts have no behaviour of this kind; the
  components still to come are listed in the manifest as not modelled.
\<close>

end
